(* ===== verification/Prelude.thy ===== *)
theory Prelude
  imports Main "HOL-Library.Word"
begin

text \<open>
  Shared vocabulary of the development: machine words, \<^verbatim>\<open>io::Result\<close>, \<^verbatim>\<open>Poll\<close>, panics,
  stateful operations with their sequencing combinators, and the generic transition-system
  interface that the concurrent protocols (registration, reader-writer lock, shutdown, thread
  indices) interpret.
\<close>

unbundle bit_operations_syntax

section \<open>Collections of facts\<close>

text \<open>\<open>op_simps\<close> evaluates the sequencing combinators on a known first step.\<close>

named_theorems op_simps \<open>evaluation of stateful operations\<close>

section \<open>Rust types\<close>

text \<open>
  \<^verbatim>\<open>usize\<close> on a 64-bit target. Tasks are identified by the number of their waker; OS objects
  (sockets, poll instances, readiness setters) by the number of their handle.
\<close>

type_synonym usize = "64 word"
type_synonym u32 = "32 word"
type_synonym byte = "8 word"
type_synonym task = nat
type_synonym fd = nat

datatype error_kind = WouldBlock | Other | OsKind nat

datatype io_error = IoError (kind: error_kind) (msg: string)

type_synonym 'a io_result = "io_error + 'a"

datatype 'a poll = Ready 'a | Pending

text \<open>
  What a call does: it returns a value, it panics (\<^verbatim>\<open>unwrap\<close> on \<open>None\<close>, \<^verbatim>\<open>assert!\<close>,
  \<^verbatim>\<open>unreachable!\<close>), or a loop used up the fuel of the model.
\<close>

datatype 'a outcome = Ret 'a | Panic string | OutOfFuel

type_synonym ('s, 'a) op = "'s \<Rightarrow> 'a outcome \<times> 's"

definition ret :: "'a \<Rightarrow> ('s, 'a) op" where
  "ret x s = (Ret x, s)"

definition panic :: "string \<Rightarrow> ('s, 'a) op" where
  "panic m s = (Panic m, s)"

definition bnd :: "('s, 'a) op \<Rightarrow> ('a \<Rightarrow> ('s, 'b) op) \<Rightarrow> ('s, 'b) op" where
  "bnd m k s = (case m s of
      (Ret x, s') \<Rightarrow> k x s'
    | (Panic e, s') \<Rightarrow> (Panic e, s')
    | (OutOfFuel, s') \<Rightarrow> (OutOfFuel, s'))"

text \<open>The \<^verbatim>\<open>?\<close> operator on \<^verbatim>\<open>io::Result\<close>, in a function that returns \<^verbatim>\<open>io::Result\<close>.\<close>

definition try_io :: "('s, 'a io_result) op \<Rightarrow> ('a \<Rightarrow> ('s, 'b io_result) op) \<Rightarrow> ('s, 'b io_result) op"
  where "try_io m k = bnd m (\<lambda>r. case r of Inl e \<Rightarrow> ret (Inl e) | Inr x \<Rightarrow> k x)"

text \<open>The same in a function that returns \<^verbatim>\<open>Poll<io::Result<_>>\<close>.\<close>

definition try_pollio ::
  "('s, 'a io_result) op \<Rightarrow> ('a \<Rightarrow> ('s, 'b io_result poll) op) \<Rightarrow> ('s, 'b io_result poll) op"
  where "try_pollio m k = bnd m (\<lambda>r. case r of Inl e \<Rightarrow> ret (Ready (Inl e)) | Inr x \<Rightarrow> k x)"

text \<open>\<^verbatim>\<open>ready!(m?)\<close>: an error and \<^verbatim>\<open>Pending\<close> both leave the function.\<close>

definition ready_try ::
  "('s, 'a io_result poll) op \<Rightarrow> ('a \<Rightarrow> ('s, 'b io_result poll) op) \<Rightarrow> ('s, 'b io_result poll) op"
  where "ready_try m k = bnd m (\<lambda>p. case p of
      Pending \<Rightarrow> ret Pending
    | Ready (Inl e) \<Rightarrow> ret (Ready (Inl e))
    | Ready (Inr x) \<Rightarrow> k x)"

declare try_io_def [op_simps] try_pollio_def [op_simps] ready_try_def [op_simps]

lemma ret_apply [simp]: "ret x s = (Ret x, s)"
  by (simp add: ret_def)

lemma panic_apply [simp]: "panic m s = (Panic m, s)"
  by (simp add: panic_def)

lemma bnd_Ret [simp]: "m s = (Ret x, s') \<Longrightarrow> bnd m k s = k x s'"
  by (simp add: bnd_def)

lemma bnd_Panic [simp]: "m s = (Panic e, s') \<Longrightarrow> bnd m k s = (Panic e, s')"
  by (simp add: bnd_def)

lemma bnd_assoc: "bnd (bnd m k) l = bnd m (\<lambda>x. bnd (k x) l)"
  by (auto simp: fun_eq_iff bnd_def split: prod.splits outcome.splits)

lemma bnd_ret_left [simp]: "bnd (ret x) k = k x"
  by (simp add: fun_eq_iff bnd_def)

lemma bnd_ret_right [simp]: "bnd m ret = m"
  by (auto simp: fun_eq_iff bnd_def split: prod.splits outcome.splits)

lemma bnd_RetE:
  assumes "bnd m k s = (Ret y, t)"
  obtains x s' where "m s = (Ret x, s')" and "k x s' = (Ret y, t)"
  using assms by (auto simp: bnd_def split: prod.splits outcome.splits)

lemma try_io_RetE:
  assumes "try_io m k s = (Ret y, t)"
  obtains (err) e where "m s = (Ret (Inl e), t)" and "y = Inl e"
    | (ok) x s' where "m s = (Ret (Inr x), s')" and "k x s' = (Ret y, t)"
  using assms by (auto simp: try_io_def elim!: bnd_RetE split: sum.splits)

lemma ready_try_RetE:
  assumes "ready_try m k s = (Ret y, t)"
  obtains (pending) "m s = (Ret Pending, t)" and "y = Pending"
    | (err) e where "m s = (Ret (Ready (Inl e)), t)" and "y = Ready (Inl e)"
    | (ok) x s' where "m s = (Ret (Ready (Inr x)), s')" and "k x s' = (Ret y, t)"
  using assms by (auto simp: ready_try_def elim!: bnd_RetE split: sum.splits poll.splits)

section \<open>Total operations\<close>

text \<open>
  \<open>keeps K m\<close>: \<open>m\<close> preserves \<open>K\<close>, however it ends. \<open>total_on K m\<close>: from a state in \<open>K\<close>, \<open>m\<close> returns, in a state in \<open>K\<close>.
  \<open>total_intros\<close> collects the rules for composing total operations.
\<close>

definition keeps :: "('s \<Rightarrow> bool) \<Rightarrow> ('s, 'a) op \<Rightarrow> bool" where
  "keeps K m \<longleftrightarrow> (\<forall>x r x'. K x \<longrightarrow> m x = (r, x') \<longrightarrow> K x')"

definition total_on :: "('s \<Rightarrow> bool) \<Rightarrow> ('s, 'a) op \<Rightarrow> bool" where
  "total_on K m \<longleftrightarrow> (\<forall>x. K x \<longrightarrow> (\<exists>r x'. m x = (Ret r, x') \<and> K x'))"

named_theorems total_intros \<open>composition of total operations\<close>

lemma keepsI: "(\<And>x r x'. K x \<Longrightarrow> m x = (r, x') \<Longrightarrow> K x') \<Longrightarrow> keeps K m"
  by (auto simp: keeps_def)

lemma keepsD: "keeps K m \<Longrightarrow> K x \<Longrightarrow> m x = (r, x') \<Longrightarrow> K x'"
  by (auto simp: keeps_def)

lemma total_onE:
  assumes "total_on K m" and "K x"
  obtains r x' where "m x = (Ret r, x')" and "K x'"
  using assms by (auto simp: total_on_def)

lemma keeps_ret: "keeps K (ret v)"
  by (simp add: keeps_def)

lemma keeps_bnd: "keeps K m \<Longrightarrow> (\<And>v. keeps K (k v)) \<Longrightarrow> keeps K (bnd m k)"
  by (rule keepsI) (auto simp: bnd_def split: prod.splits outcome.splits dest: keepsD)

lemma keeps_ready_try: "keeps K m \<Longrightarrow> (\<And>v. keeps K (k v)) \<Longrightarrow> keeps K (ready_try m k)"
  unfolding ready_try_def by (rule keeps_bnd) (auto split: poll.split sum.split intro: keeps_ret)

lemma keeps_try_pollio: "keeps K m \<Longrightarrow> (\<And>v. keeps K (k v)) \<Longrightarrow> keeps K (try_pollio m k)"
  unfolding try_pollio_def by (rule keeps_bnd) (auto split: sum.split intro: keeps_ret)

lemma total_ret [total_intros]: "total_on K (ret v)"
  by (simp add: total_on_def)

lemma total_Pair [total_intros]: "total_on K (Pair (Ret v))"
  by (simp add: total_on_def)

lemma total_bnd [total_intros]: "total_on K m \<Longrightarrow> (\<And>v. total_on K (k v)) \<Longrightarrow> total_on K (bnd m k)"
  by (fastforce simp: total_on_def)

lemma total_try_pollio [total_intros]: "total_on K m \<Longrightarrow> (\<And>v. total_on K (k v)) \<Longrightarrow> total_on K (try_pollio m k)"
  unfolding try_pollio_def by (rule total_bnd) (auto split: sum.split intro: total_ret)

lemma total_ready_try [total_intros]: "total_on K m \<Longrightarrow> (\<And>v. total_on K (k v)) \<Longrightarrow> total_on K (ready_try m k)"
  unfolding ready_try_def by (rule total_bnd) (auto split: poll.split sum.split intro: total_ret)

section \<open>Atomic cells\<close>

text \<open>\<^verbatim>\<open>compare_and_swap\<close> returns the value found; it stores only when that is the expected one.\<close>

definition compare_and_swap :: "'a \<Rightarrow> 'a \<Rightarrow> 'a \<Rightarrow> 'a \<times> 'a" where
  "compare_and_swap cell expected new = (cell, if cell = expected then new else cell)"

section \<open>Maps\<close>

lemma map_le_at: "f \<subseteq>\<^sub>m g \<Longrightarrow> f p \<noteq> None \<Longrightarrow> g p = f p"
  unfolding map_le_def dom_def by fastforce

section \<open>Bit sets\<close>

lemma and_not_and_self [simp]: "(x AND NOT m) AND m = (0 :: usize)"
  by (rule bit_eqI) (simp add: bit_simps)

lemma and_not_eq_0_iff: "a AND NOT m = 0 \<longleftrightarrow> a AND m = (a :: usize)"
  by (auto simp: bit_eq_iff bit_simps)

section \<open>Transition systems\<close>

inductive reach :: "('s \<Rightarrow> bool) \<Rightarrow> ('s \<Rightarrow> 's \<Rightarrow> bool) \<Rightarrow> 's \<Rightarrow> bool"
  for init :: "'s \<Rightarrow> bool" and step :: "'s \<Rightarrow> 's \<Rightarrow> bool" where
  reach_init [intro]: "init s \<Longrightarrow> reach init step s"
| reach_step [intro]: "reach init step s \<Longrightarrow> step s t \<Longrightarrow> reach init step t"

text \<open>A run of a labelled transition system.\<close>

fun runs :: "('l \<Rightarrow> 's \<Rightarrow> 's \<Rightarrow> bool) \<Rightarrow> 'l list \<Rightarrow> 's \<Rightarrow> 's \<Rightarrow> bool" where
  "runs step [] s t \<longleftrightarrow> s = t"
| "runs step (a # as) s t \<longleftrightarrow> (\<exists>u. step a s u \<and> runs step as u t)"

locale inductive_invariant =
  fixes init :: "'s \<Rightarrow> bool"
    and step :: "'s \<Rightarrow> 's \<Rightarrow> bool"
    and inv :: "'s \<Rightarrow> bool"
  assumes init_inv: "init s \<Longrightarrow> inv s"
    and step_inv: "inv s \<Longrightarrow> step s t \<Longrightarrow> inv t"
begin

lemma reach_inv: "reach init step s \<Longrightarrow> inv s"
  by (induction rule: reach.induct) (auto intro: init_inv step_inv)

lemma steps_inv: "step\<^sup>*\<^sup>* s t \<Longrightarrow> inv s \<Longrightarrow> inv t"
  by (induction rule: rtranclp_induct) (auto intro: step_inv)

lemma reach_steps: "reach init step s \<Longrightarrow> step\<^sup>*\<^sup>* s t \<Longrightarrow> reach init step t"
  by (rotate_tac 1, induction rule: rtranclp_induct) auto

end

text \<open>
  Refinement: every step of the concrete system, from a state its invariant allows, is a step of the abstract
  one or changes nothing there.
\<close>

locale simulation = inductive_invariant init step inv
  for init :: "'s \<Rightarrow> bool" and step :: "'s \<Rightarrow> 's \<Rightarrow> bool" and inv :: "'s \<Rightarrow> bool" +
  fixes ainit :: "'a \<Rightarrow> bool"
    and astep :: "'a \<Rightarrow> 'a \<Rightarrow> bool"
    and abs :: "'s \<Rightarrow> 'a"
  assumes init_sim: "init s \<Longrightarrow> ainit (abs s)"
    and step_sim: "inv s \<Longrightarrow> step s t \<Longrightarrow> astep\<^sup>=\<^sup>= (abs s) (abs t)"
begin

lemma reach_step_sim: "reach init step s \<Longrightarrow> step s t \<Longrightarrow> astep\<^sup>=\<^sup>= (abs s) (abs t)"
  by (rule step_sim [OF reach_inv])

lemma reach_sim: "reach init step s \<Longrightarrow> reach ainit astep (abs s)"
proof (induction rule: reach.induct)
  case (reach_init s)
  show ?case by (rule reach.reach_init) (rule init_sim [OF reach_init])
next
  case (reach_step s t)
  from reach_step_sim [OF reach_step(1,2)] show ?case
  proof (rule sup2E)
    assume "astep (abs s) (abs t)"
    with reach_step(3) show ?thesis ..
  next
    assume "abs s = abs t"
    with reach_step(3) show ?thesis by simp
  qed
qed

end

text \<open>Refinement with labels: every step of the concrete system is a step of the abstract one with the same label.\<close>

locale labelled_simulation = inductive_invariant init "\<lambda>s t. \<exists>a. step a s t" inv
  for init :: "'s \<Rightarrow> bool" and step :: "'l \<Rightarrow> 's \<Rightarrow> 's \<Rightarrow> bool" and inv :: "'s \<Rightarrow> bool" +
  fixes ainit :: "'a \<Rightarrow> bool"
    and astep :: "'l \<Rightarrow> 'a \<Rightarrow> 'a \<Rightarrow> bool"
    and abs :: "'s \<Rightarrow> 'a"
  assumes init_sim: "init s \<Longrightarrow> ainit (abs s)"
    and step_sim: "inv s \<Longrightarrow> step a s t \<Longrightarrow> astep a (abs s) (abs t)"
begin

lemma runs_inv: "runs step as s t \<Longrightarrow> inv s \<Longrightarrow> inv t"
  by (induction as arbitrary: s) (auto dest: step_inv [OF _ exI])

lemma runs_sim: "runs step as s t \<Longrightarrow> inv s \<Longrightarrow> runs astep as (abs s) (abs t)"
proof (induction as arbitrary: s)
  case (Cons a as)
  then obtain u where "step a s u" "runs step as u t" by auto
  with Cons show ?case using step_inv [of s u] step_sim [of s a u] by auto
qed simp

end

end
