(* ===== verification/Dependencies.thy ===== *)
theory Dependencies
  imports Prelude
begin

text \<open>
  The code romio calls but does not contain: \<^verbatim>\<open>mio\<close> (readiness bits, the poll instance, the
  wakeup registration), \<^verbatim>\<open>slab\<close>, the \<^verbatim>\<open>AtomicWaker\<close> of the futures crate and the spawning of
  threads. They are fields of one record, an argument of every definition that calls them; the
  predicates below state the documented behaviour the proofs rely on. The type variables are the
  waker cell \<open>'aw\<close>, the slab \<open>'sl\<close> and the outside world \<open>'w\<close> (kernel and mio state), which
  every I/O call takes and returns. \<open>aw_held\<close> and \<open>sl_slots\<close> are specification-only observers.

  The one record of romio's own here is \<open>scheduled_io\<close>, the element type of the slab.
\<close>

section \<open>The dispatch entry\<close>

record 'aw scheduled_io =
  aba_guard :: usize
  readiness :: usize
  reader :: 'aw
  writer :: 'aw

section \<open>The external operations\<close>

datatype poll_opt = PollOpt_edge | PollOpt_level

type_synonym event = "usize \<times> usize"

record ('aw, 'sl, 'w) ext =
  \<comment> \<open>\<^verbatim>\<open>mio::Ready\<close>: a bit set with these constants and queries; \<open>cfg_unix\<close> is the target family\<close>
  cfg_unix :: bool
  readable :: usize
  writable :: usize
  unix_hup :: usize
  ready_all :: usize
  is_writable :: "usize \<Rightarrow> bool"
  unix_is_hup :: "usize \<Rightarrow> bool"
  \<comment> \<open>\<^verbatim>\<open>futures::task::AtomicWaker\<close>\<close>
  aw_new :: 'aw
  aw_register :: "'aw \<Rightarrow> task \<Rightarrow> 'aw"
  aw_take :: "'aw \<Rightarrow> task option \<times> 'aw"
  aw_wake :: "'aw \<Rightarrow> task option \<times> 'aw"
  aw_held :: "'aw \<Rightarrow> task option"
  \<comment> \<open>\<^verbatim>\<open>slab::Slab<ScheduledIo>\<close>; \<open>sl_set\<close> is a write through the reference \<^verbatim>\<open>get\<close> returned,
     \<open>sl_remove\<close> gives \<open>None\<close> where \<^verbatim>\<open>remove\<close> panics\<close>
  sl_with_capacity :: "nat \<Rightarrow> 'sl"
  sl_len :: "'sl \<Rightarrow> nat"
  sl_is_empty :: "'sl \<Rightarrow> bool"
  sl_get :: "'sl \<Rightarrow> usize \<Rightarrow> 'aw scheduled_io option"
  sl_set :: "'sl \<Rightarrow> usize \<Rightarrow> 'aw scheduled_io \<Rightarrow> 'sl"
  sl_insert :: "'sl \<Rightarrow> 'aw scheduled_io \<Rightarrow> usize \<times> 'sl"
  sl_remove :: "'sl \<Rightarrow> usize \<Rightarrow> 'sl option"
  sl_iter :: "'sl \<Rightarrow> (usize \<times> 'aw scheduled_io) list"
  sl_slots :: "'sl \<Rightarrow> nat"
  \<comment> \<open>\<^verbatim>\<open>mio::Poll\<close>, \<^verbatim>\<open>mio::Registration\<close>, \<^verbatim>\<open>mio::SetReadiness\<close>\<close>
  mio_poll_new :: "'w \<Rightarrow> nat io_result \<times> 'w"
  mio_registration_new2 :: "'w \<Rightarrow> (fd \<times> nat) \<times> 'w"
  mio_register :: "nat \<Rightarrow> fd \<Rightarrow> usize \<Rightarrow> usize \<Rightarrow> poll_opt \<Rightarrow> 'w \<Rightarrow> unit io_result \<times> 'w"
  mio_deregister :: "nat \<Rightarrow> fd \<Rightarrow> 'w \<Rightarrow> unit io_result \<times> 'w"
  mio_poll :: "nat \<Rightarrow> nat option \<Rightarrow> 'w \<Rightarrow> event list io_result \<times> 'w"
  mio_set_readiness :: "nat \<Rightarrow> usize \<Rightarrow> 'w \<Rightarrow> unit io_result \<times> 'w"
  \<comment> \<open>the operating system's answer to \<^verbatim>\<open>thread::Builder::spawn\<close>\<close>
  thread_spawn :: "'w \<Rightarrow> unit io_result \<times> 'w"

section \<open>Documented behaviour\<close>

text \<open>The readiness constants are distinct single bits of \<^verbatim>\<open>Ready::all()\<close>.\<close>

definition ready_ok :: "('aw, 'sl, 'w) ext \<Rightarrow> bool" where
  "ready_ok E \<longleftrightarrow>
     readable E \<noteq> 0 \<and> writable E \<noteq> 0 \<and> unix_hup E \<noteq> 0 \<and>
     readable E AND writable E = 0 \<and> readable E AND unix_hup E = 0 \<and> writable E AND unix_hup E = 0 \<and>
     readable E AND ready_all E = readable E \<and> writable E AND ready_all E = writable E \<and>
     unix_hup E AND ready_all E = unix_hup E \<and>
     (\<forall>r. is_writable E r \<longleftrightarrow> r AND writable E \<noteq> 0) \<and>
     (\<forall>r. unix_is_hup E r \<longleftrightarrow> r AND unix_hup E \<noteq> 0)"

text \<open>\<^verbatim>\<open>AtomicWaker\<close> keeps the last registered waker; \<^verbatim>\<open>take\<close> and \<^verbatim>\<open>wake\<close> remove it.\<close>

definition waker_ok :: "('aw, 'sl, 'w) ext \<Rightarrow> bool" where
  "waker_ok E \<longleftrightarrow>
     aw_held E (aw_new E) = None \<and>
     (\<forall>c t. aw_held E (aw_register E c t) = Some t) \<and>
     (\<forall>c. fst (aw_take E c) = aw_held E c \<and> aw_held E (snd (aw_take E c)) = None) \<and>
     (\<forall>c. fst (aw_wake E c) = aw_held E c \<and> aw_held E (snd (aw_wake E c)) = None)"

text \<open>
  A slab is a vector of slots; insertion fills a vacant slot and adds one only when there is none.
  Everything is stated for slabs below the size limit of a vector (\<^verbatim>\<open>isize::MAX\<close>).
\<close>

definition slab_fits :: "('aw, 'sl, 'w) ext \<Rightarrow> 'sl \<Rightarrow> bool" where
  "slab_fits E s \<longleftrightarrow> sl_slots E s < 2 ^ 63"

definition slab_read_ok :: "('aw, 'sl, 'w) ext \<Rightarrow> bool" where
  "slab_read_ok E \<longleftrightarrow>
     (\<forall>n. sl_slots E (sl_with_capacity E n) = 0) \<and>
     (\<forall>s k v. slab_fits E s \<longrightarrow> sl_get E s k = Some v \<longrightarrow> unat k < sl_slots E s) \<and>
     (\<forall>s. slab_fits E s \<longrightarrow> sl_len E s = card (dom (sl_get E s))) \<and>
     (\<forall>s. slab_fits E s \<longrightarrow> sl_is_empty E s = (dom (sl_get E s) = {})) \<and>
     (\<forall>s. slab_fits E s \<longrightarrow> set (sl_iter E s) = {(k, v). sl_get E s k = Some v})"

definition slab_write_ok :: "('aw, 'sl, 'w) ext \<Rightarrow> bool" where
  "slab_write_ok E \<longleftrightarrow>
     (\<forall>s k v v'. slab_fits E s \<longrightarrow> sl_get E s k = Some v \<longrightarrow>
        sl_get E (sl_set E s k v') = (sl_get E s)(k \<mapsto> v') \<and>
        sl_slots E (sl_set E s k v') = sl_slots E s) \<and>
     (\<forall>s v k s'. slab_fits E s \<longrightarrow> sl_insert E s v = (k, s') \<longrightarrow>
        sl_get E s k = None \<and> sl_get E s' = (sl_get E s)(k \<mapsto> v) \<and>
        sl_slots E s' = (if sl_len E s < sl_slots E s then sl_slots E s else Suc (sl_slots E s)) \<and>
        unat k < sl_slots E s') \<and>
     (\<forall>s k. slab_fits E s \<longrightarrow> sl_get E s k = None \<longrightarrow> sl_remove E s k = None) \<and>
     (\<forall>s k v. slab_fits E s \<longrightarrow> sl_get E s k = Some v \<longrightarrow>
        (\<exists>s'. sl_remove E s k = Some s' \<and> sl_get E s' = (sl_get E s)(k := None) \<and>
              sl_slots E s' = sl_slots E s))"

definition ext_ok :: "('aw, 'sl, 'w) ext \<Rightarrow> bool" where
  "ext_ok E \<longleftrightarrow> ready_ok E \<and> waker_ok E \<and> slab_read_ok E \<and> slab_write_ok E"

section \<open>A concrete instance\<close>

text \<open>
  An instance of all the laws, on which the closed examples of the development run: the waker
  cell is an option, the slab a list of optional entries, the world a number, and the calls of
  mio succeed. \<open>std_ext\<close> takes the events the next poll delivers.
\<close>

type_synonym list_slab = "task option scheduled_io option list"

definition ls_get :: "list_slab \<Rightarrow> usize \<Rightarrow> task option scheduled_io option" where
  "ls_get s k = (if unat k < length s then s ! unat k else None)"

fun first_vacant :: "list_slab \<Rightarrow> nat" where
  "first_vacant [] = 0"
| "first_vacant (None # xs) = 0"
| "first_vacant (Some _ # xs) = Suc (first_vacant xs)"

definition ls_insert :: "list_slab \<Rightarrow> task option scheduled_io \<Rightarrow> usize \<times> list_slab" where
  "ls_insert s v = (let i = first_vacant s in
     (of_nat i, if i < length s then s[i := Some v] else s @ [Some v]))"

definition ls_remove :: "list_slab \<Rightarrow> usize \<Rightarrow> list_slab option" where
  "ls_remove s k = (case ls_get s k of None \<Rightarrow> None | Some _ \<Rightarrow> Some (s[unat k := None]))"

definition ls_iter :: "list_slab \<Rightarrow> (usize \<times> task option scheduled_io) list" where
  "ls_iter s = concat (map (\<lambda>i. case s ! i of None \<Rightarrow> [] | Some v \<Rightarrow> [(of_nat i, v)]) [0..<length s])"

definition std_ext :: "event list \<Rightarrow> (task option, list_slab, nat) ext" where
  "std_ext evs = \<lparr>
     cfg_unix = True, readable = 1, writable = 2, unix_hup = 8, ready_all = 15,
     is_writable = (\<lambda>r. r AND 2 \<noteq> 0), unix_is_hup = (\<lambda>r. r AND 8 \<noteq> 0),
     aw_new = None, aw_register = (\<lambda>c t. Some t), aw_take = (\<lambda>c. (c, None)),
     aw_wake = (\<lambda>c. (c, None)), aw_held = (\<lambda>c. c),
     sl_with_capacity = (\<lambda>n. []), sl_len = (\<lambda>s. length (filter (\<lambda>x. x \<noteq> None) s)),
     sl_is_empty = (\<lambda>s. filter (\<lambda>x. x \<noteq> None) s = []),
     sl_get = ls_get, sl_set = (\<lambda>s k v. s[unat k := Some v]), sl_insert = ls_insert,
     sl_remove = ls_remove, sl_iter = ls_iter, sl_slots = length,
     mio_poll_new = (\<lambda>w. (Inr w, Suc w)), mio_registration_new2 = (\<lambda>w. ((w, Suc w), w + 2)),
     mio_register = (\<lambda>p f t r m w. (Inr (), w)), mio_deregister = (\<lambda>p f w. (Inr (), w)),
     mio_poll = (\<lambda>p d w. (Inr evs, w)), mio_set_readiness = (\<lambda>p r w. (Inr (), w)),
     thread_spawn = (\<lambda>w. (Inr (), w)) \<rparr>"

section \<open>The laws as rules\<close>

lemma ext_ok_ready [simp]: "ext_ok E \<Longrightarrow> ready_ok E"
  by (simp add: ext_ok_def)

lemma ready_okD:
  assumes "ready_ok E"
  shows "readable E \<noteq> 0" "writable E \<noteq> 0" "unix_hup E \<noteq> 0"
    "readable E AND writable E = 0" "readable E AND unix_hup E = 0" "writable E AND unix_hup E = 0"
    "readable E AND ready_all E = readable E" "writable E AND ready_all E = writable E"
    "unix_hup E AND ready_all E = unix_hup E"
    "is_writable E r \<longleftrightarrow> r AND writable E \<noteq> 0" "unix_is_hup E r \<longleftrightarrow> r AND unix_hup E \<noteq> 0"
  using assms unfolding ready_ok_def by blast+

lemma waker_laws [simp]:
  assumes "ext_ok E"
  shows "aw_held E (aw_new E) = None" "aw_held E (aw_register E c t) = Some t"
    "fst (aw_take E c) = aw_held E c" "aw_held E (snd (aw_take E c)) = None"
    "fst (aw_wake E c) = aw_held E c" "aw_held E (snd (aw_wake E c)) = None"
  using assms unfolding ext_ok_def waker_ok_def by blast+

lemma slots_with_capacity [simp]: "ext_ok E \<Longrightarrow> sl_slots E (sl_with_capacity E n) = 0"
  unfolding ext_ok_def slab_read_ok_def by blast

lemma slab_key_bound:
  "ext_ok E \<Longrightarrow> slab_fits E s \<Longrightarrow> sl_get E s k = Some v \<Longrightarrow> unat k < sl_slots E s"
  unfolding ext_ok_def slab_read_ok_def by blast

lemma slab_len: "ext_ok E \<Longrightarrow> slab_fits E s \<Longrightarrow> sl_len E s = card (dom (sl_get E s))"
  unfolding ext_ok_def slab_read_ok_def by blast

lemma slab_is_empty: "ext_ok E \<Longrightarrow> slab_fits E s \<Longrightarrow> sl_is_empty E s \<longleftrightarrow> dom (sl_get E s) = {}"
  unfolding ext_ok_def slab_read_ok_def by blast

lemma slab_iter:
  "ext_ok E \<Longrightarrow> slab_fits E s \<Longrightarrow> (k, v) \<in> set (sl_iter E s) \<longleftrightarrow> sl_get E s k = Some v"
  unfolding ext_ok_def slab_read_ok_def by blast

lemma slab_set:
  assumes "ext_ok E" and "slab_fits E s" and "sl_get E s k = Some v"
  shows "sl_get E (sl_set E s k v') = (sl_get E s)(k \<mapsto> v')"
    and "sl_slots E (sl_set E s k v') = sl_slots E s"
  using assms unfolding ext_ok_def slab_write_ok_def by blast+

lemma slab_insert:
  assumes "ext_ok E" and "slab_fits E s" and "sl_insert E s v = (k, s')"
  shows "sl_get E s k = None" and "sl_get E s' = (sl_get E s)(k \<mapsto> v)"
    and "sl_slots E s' = (if sl_len E s < sl_slots E s then sl_slots E s else Suc (sl_slots E s))"
    and "unat k < sl_slots E s'"
  using assms unfolding ext_ok_def slab_write_ok_def by blast+

lemma slab_remove_vacant:
  "ext_ok E \<Longrightarrow> slab_fits E s \<Longrightarrow> sl_get E s k = None \<Longrightarrow> sl_remove E s k = None"
  unfolding ext_ok_def slab_write_ok_def by blast

lemma slab_remove:
  assumes "ext_ok E" and "slab_fits E s" and "sl_get E s k = Some v"
  obtains s' where "sl_remove E s k = Some s'" and "sl_get E s' = (sl_get E s)(k := None)"
    and "sl_slots E s' = sl_slots E s"
  using assms unfolding ext_ok_def slab_write_ok_def by blast+

lemma empty_slab_get:
  assumes "ext_ok E"
  shows "sl_get E (sl_with_capacity E n) k = None"
  using slab_key_bound [OF assms, of "sl_with_capacity E n" k] assms
  by (cases "sl_get E (sl_with_capacity E n) k") (auto simp: slab_fits_def)

section \<open>The instance satisfies the laws\<close>

lemma first_vacant_le: "first_vacant s \<le> length s"
  by (induction s rule: first_vacant.induct) auto

lemma first_vacant_None: "first_vacant s < length s \<Longrightarrow> s ! first_vacant s = None"
  by (induction s rule: first_vacant.induct) auto

lemma first_vacant_full: "first_vacant s = length s \<longleftrightarrow> (\<forall>x \<in> set s. x \<noteq> None)"
  by (induction s rule: first_vacant.induct) auto

lemma filter_length_less: "length (filter P s) < length s \<longleftrightarrow> (\<exists>x \<in> set s. \<not> P x)"
  by (induction s) (auto simp: le_imp_less_Suc less_Suc_eq_le)

lemma unat_of_nat_small: "i < 2 ^ 63 \<Longrightarrow> unat (of_nat i :: usize) = i"
  by (simp add: unat_of_nat take_bit_nat_eq_self)

lemma dom_ls_get:
  assumes "length s < 2 ^ 63"
  shows "dom (ls_get s) = of_nat ` {i. i < length s \<and> s ! i \<noteq> None}"
proof -
  have "k \<in> dom (ls_get s) \<longleftrightarrow> k \<in> of_nat ` {i. i < length s \<and> s ! i \<noteq> None}" for k
    using assms by (auto simp: ls_get_def dom_def unat_of_nat_small image_iff split: if_splits
        intro!: exI [of _ "unat k"])
  then show ?thesis by blast
qed

lemma inj_of_nat_small: "N \<le> 2 ^ 63 \<Longrightarrow> inj_on (of_nat :: nat \<Rightarrow> usize) {i. i < N \<and> P i}"
  by (rule inj_onI) (metis (mono_tags, lifting) mem_Collect_eq order_less_le_trans unat_of_nat_small)

lemma card_dom_ls_get:
  "length s < 2 ^ 63 \<Longrightarrow> card (dom (ls_get s)) = length (filter (\<lambda>x. x \<noteq> None) s)"
  by (simp add: dom_ls_get card_image inj_of_nat_small length_filter_conv_card)

lemma set_ls_iter:
  assumes "length s < 2 ^ 63"
  shows "set (ls_iter s) = {(k, v). ls_get s k = Some v}"
proof (rule set_eqI)
  fix p :: "usize \<times> task option scheduled_io"
  obtain k v where p: "p = (k, v)" by fastforce
  show "p \<in> set (ls_iter s) \<longleftrightarrow> p \<in> {(k, v). ls_get s k = Some v}"
    using assms unfolding p
    by (auto simp: ls_iter_def ls_get_def unat_of_nat_small split: option.splits if_splits
        intro!: bexI [of _ "unat k"])
qed

lemma ls_insert_ok:
  assumes "length s < 2 ^ 63" and "ls_insert s v = (k, s')"
  shows "ls_get s k = None" and "ls_get s' = (ls_get s)(k \<mapsto> v)"
    and "length s' = (if length (filter (\<lambda>x. x \<noteq> None) s) < length s then length s else Suc (length s))"
    and "unat k < length s'"
proof -
  define i where "i = first_vacant s"
  have i: "i \<le> length s" and k: "unat k = i" "k = of_nat i"
    and s': "s' = (if i < length s then s[i := Some v] else s @ [Some v])"
    using assms first_vacant_le [of s] by (auto simp: ls_insert_def i_def Let_def unat_of_nat_small)
  show "ls_get s k = None"
    using first_vacant_None [of s] by (simp add: ls_get_def k(1) i_def)
  have "unat k' \<noteq> i" if "k' \<noteq> k" for k'
    using that k by (auto simp: word_unat_eq_iff)
  then show "ls_get s' = (ls_get s)(k \<mapsto> v)"
    using i by (auto simp: fun_eq_iff ls_get_def s' k(1) nth_append nth_list_update less_Suc_eq)
  show "length s' = (if length (filter (\<lambda>x. x \<noteq> None) s) < length s then length s else Suc (length s))"
    unfolding filter_length_less
    using i first_vacant_full [of s] by (auto simp: s' i_def)
  show "unat k < length s'" using i by (simp add: s' k(1))
qed

lemma ls_set_get:
  "unat k < length s \<Longrightarrow> ls_get (s[unat k := x]) = (ls_get s)(k := x)"
  by (auto simp: fun_eq_iff ls_get_def nth_list_update word_unat_eq_iff)

lemma std_ext_fits [simp]: "slab_fits (std_ext evs) s \<longleftrightarrow> length s < 2 ^ 63"
  by (simp add: slab_fits_def std_ext_def)

lemma std_ready_ok: "ready_ok (std_ext evs)"
  by (simp add: ready_ok_def std_ext_def)

lemma std_waker_ok: "waker_ok (std_ext evs)"
  by (simp add: waker_ok_def std_ext_def)

lemma std_slab_read_ok: "slab_read_ok (std_ext evs)"
proof -
  have get: "ls_get s k = Some v \<Longrightarrow> unat k < length s" for s k v
    by (auto simp: ls_get_def split: if_splits)
  have empty: "length s < 2 ^ 63 \<Longrightarrow> (filter (\<lambda>x. x \<noteq> None) s = []) = (dom (ls_get s) = {})" for s
    by (auto simp: dom_ls_get filter_empty_conv all_set_conv_all_nth simp del: not_None_eq)
  show ?thesis
    unfolding slab_read_ok_def std_ext_fits
    using get empty set_ls_iter card_dom_ls_get by (simp add: std_ext_def)
qed

lemma std_slab_write_ok: "slab_write_ok (std_ext evs)"
proof -
  have get: "ls_get s k = Some v \<Longrightarrow> unat k < length s" for s k v
    by (auto simp: ls_get_def split: if_splits)
  have set: "ls_get s k = Some v \<Longrightarrow> ls_get (s[unat k := Some v']) = (ls_get s)(k \<mapsto> v')" for s k v v'
    by (rule ls_set_get) (rule get)
  have remove: "ls_get s k = Some v \<Longrightarrow> ls_get (s[unat k := None]) = (ls_get s)(k := None)" for s k v
    by (rule ls_set_get) (rule get)
  have key: "unat k < (if length (filter (\<lambda>x. x \<noteq> None) s) < length s then length s else Suc (length s))"
    if "length s < 2 ^ 63" and "ls_insert s v = (k, s')" for s v k s'
    using ls_insert_ok(3,4) [OF that] by simp
  show ?thesis
    unfolding slab_write_ok_def std_ext_fits
    by (intro conjI allI impI)
      (auto simp: std_ext_def ls_remove_def set remove ls_insert_ok simp del: not_None_eq power_numeral
        dest: key)
qed

lemma std_ext_ok: "ext_ok (std_ext evs)"
  by (simp add: ext_ok_def std_ready_ok std_waker_ok std_slab_read_ok std_slab_write_ok)

end
