(* ===== verification/Reactor_Core.thy ===== *)
theory Reactor_Core
  imports Dependencies
begin

text \<open>
  The reactor of \<^verbatim>\<open>src/reactor/mod.rs\<close>: the state shared between the reactor and its handles
  (\<open>inner\<close>, in Rust \<^verbatim>\<open>Inner\<close>), the registration of sources in the dispatch slab, the dispatch of
  events to the wakers of a source, the event loop's \<^verbatim>\<open>poll\<close>, and the readiness masks.

  \<^verbatim>\<open>Inner\<close>'s methods take \<^verbatim>\<open>&self\<close> and mutate atomics and a lock-protected slab; here they take an
  \<open>inner\<close> and return the new one. \<open>sys\<close> is the process: the live \<^verbatim>\<open>Arc<Inner>\<close>s by address, the
  weak counts, the global and thread-local handle slots, the \<^verbatim>\<open>Waker\<close>s that exist, by address, the log of
  \<^verbatim>\<open>wake\<close> calls and the world.
\<close>

section \<open>Data\<close>

datatype Direction = Read | Write

record 'sl inner =
  inner_io :: nat
  next_aba_guard :: usize
  io_dispatch :: 'sl
  inner_wakeup :: nat

record HandlePriv =
  hp_inner :: usize

record Handle =
  h_inner :: "HandlePriv option"

record Reactor =
  r_events :: "event list"
  r_inner :: usize
  wakeup_registration :: fd

record ('sl, 'w) sys =
  inners :: "usize \<Rightarrow> 'sl inner option"
  weak :: "usize \<Rightarrow> nat"
  HANDLE_FALLBACK :: usize
  CURRENT_REACTOR :: "HandlePriv option"
  wakers :: "usize \<Rightarrow> task option"
  woken :: "task list"
  world :: 'w

definition TOKEN_SHIFT :: nat where
  "TOKEN_SHIFT = 22"

definition MAX_SOURCES :: usize where
  "MAX_SOURCES = push_bit TOKEN_SHIFT 1 - 1"

definition TOKEN_WAKEUP :: usize where
  "TOKEN_WAKEUP = MAX_SOURCES"

section \<open>Platform and readiness masks\<close>

definition platform_hup :: "('aw, 'sl, 'w) ext \<Rightarrow> usize" where
  "platform_hup E = (if cfg_unix E then unix_hup E else 0)"

definition platform_is_hup :: "('aw, 'sl, 'w) ext \<Rightarrow> usize \<Rightarrow> bool" where
  "platform_is_hup E r = (if cfg_unix E then unix_is_hup E r else False)"

definition Direction_mask :: "('aw, 'sl, 'w) ext \<Rightarrow> Direction \<Rightarrow> usize" where
  "Direction_mask E d = (case d of
      Read \<Rightarrow> ready_all E AND NOT (writable E)
    | Write \<Rightarrow> writable E OR platform_hup E)"

section \<open>Sources\<close>

definition add_source ::
  "('aw, 'sl, 'w) ext \<Rightarrow> fd \<Rightarrow> 'sl inner \<Rightarrow> 'w \<Rightarrow> usize io_result \<times> 'sl inner \<times> 'w" where
  "add_source E source inn w =
     (let aba = next_aba_guard inn;
          inn1 = inn\<lparr>next_aba_guard := aba + push_bit TOKEN_SHIFT 1\<rparr>
      in if sl_len E (io_dispatch inn1) = unat MAX_SOURCES
         then (Inl (IoError Other ''reactor at max registered I/O resources''), inn1, w)
         else
           let (key, slab) = sl_insert E (io_dispatch inn1)
                 \<lparr>aba_guard = aba, readiness = 0, reader = aw_new E, writer = aw_new E\<rparr>;
               inn2 = inn1\<lparr>io_dispatch := slab\<rparr>;
               (res, w') = mio_register E (inner_io inn2) source (aba OR key) (ready_all E) PollOpt_edge w
           in case res of Inl e \<Rightarrow> (Inl e, inn2, w') | Inr _ \<Rightarrow> (Inr key, inn2, w'))"

definition deregister_source ::
  "('aw, 'sl, 'w) ext \<Rightarrow> fd \<Rightarrow> 'sl inner \<Rightarrow> 'w \<Rightarrow> unit io_result \<times> 'w" where
  "deregister_source E source inn w = mio_deregister E (inner_io inn) source w"

definition drop_source :: "('aw, 'sl, 'w) ext \<Rightarrow> usize \<Rightarrow> ('sl inner, unit) op" where
  "drop_source E token inn =
     (case sl_remove E (io_dispatch inn) token of
        None \<Rightarrow> (Panic ''invalid key'', inn)
      | Some slab \<Rightarrow> (Ret (), inn\<lparr>io_dispatch := slab\<rparr>))"

text \<open>
  \<^verbatim>\<open>Inner::register\<close>: the waker is stored first, the readiness checked after; the second component
  of the result is the task woken, if any.
\<close>

definition inner_register ::
  "('aw, 'sl, 'w) ext \<Rightarrow> task \<Rightarrow> usize \<Rightarrow> Direction \<Rightarrow> ('sl inner, task option) op" where
  "inner_register E cx token dir inn =
     (case sl_get E (io_dispatch inn) token of
        None \<Rightarrow> (Panic ''called `Option::unwrap()` on a `None` value'', inn)
      | Some sched \<Rightarrow>
          let (cell, ready) = (case dir of
                Read \<Rightarrow> (reader sched, NOT (writable E))
              | Write \<Rightarrow> (writer sched, writable E));
              cell1 = aw_register E cell cx;
              (wk, cell2) = (if readiness sched AND ready \<noteq> 0 then aw_wake E cell1 else (None, cell1));
              sched' = (case dir of Read \<Rightarrow> sched\<lparr>reader := cell2\<rparr> | Write \<Rightarrow> sched\<lparr>writer := cell2\<rparr>)
          in (Ret wk, inn\<lparr>io_dispatch := sl_set E (io_dispatch inn) token sched'\<rparr>))"

text \<open>\<^verbatim>\<open>Drop for Inner\<close>: every waker of every source is woken, the writer before the reader.\<close>

definition inner_drop :: "('aw, 'sl, 'w) ext \<Rightarrow> 'sl inner \<Rightarrow> task list" where
  "inner_drop E inn = concat (map (\<lambda>(_, io).
      (case fst (aw_wake E (writer io)) of None \<Rightarrow> [] | Some t \<Rightarrow> [t]) @
      (case fst (aw_wake E (reader io)) of None \<Rightarrow> [] | Some t \<Rightarrow> [t])) (sl_iter E (io_dispatch inn)))"

section \<open>Dispatch\<close>

text \<open>The tasks to wake, reader first, and the new state.\<close>

definition dispatch ::
  "('aw, 'sl, 'w) ext \<Rightarrow> usize \<Rightarrow> usize \<Rightarrow> 'sl inner \<Rightarrow> task list \<times> 'sl inner" where
  "dispatch E tok ready inn =
     (let aba = tok AND NOT MAX_SOURCES;
          token = tok AND MAX_SOURCES
      in case sl_get E (io_dispatch inn) token of
           None \<Rightarrow> ([], inn)
         | Some io \<Rightarrow>
             if aba \<noteq> aba_guard io then ([], inn)
             else
               let io1 = io\<lparr>readiness := readiness io OR ready\<rparr>;
                   (wr, io2) = (if is_writable E ready \<or> platform_is_hup E ready
                      then (fst (aw_take E (writer io1)), io1\<lparr>writer := snd (aw_take E (writer io1))\<rparr>)
                      else (None, io1));
                   (rd, io3) = (if ready AND NOT (writable E) \<noteq> 0
                      then (fst (aw_take E (reader io2)), io2\<lparr>reader := snd (aw_take E (reader io2))\<rparr>)
                      else (None, io2))
               in ((case rd of None \<Rightarrow> [] | Some t \<Rightarrow> [t]) @ (case wr of None \<Rightarrow> [] | Some t \<Rightarrow> [t]),
                   inn\<lparr>io_dispatch := sl_set E (io_dispatch inn) token io3\<rparr>))"

section \<open>The reactor\<close>

text \<open>\<open>addr\<close> is the address the allocator gives the new \<^verbatim>\<open>Arc<Inner>\<close>.\<close>

definition Reactor_new :: "('aw, 'sl, 'w) ext \<Rightarrow> usize \<Rightarrow> (('sl, 'w) sys, Reactor io_result) op" where
  "Reactor_new E addr s =
     (case mio_poll_new E (world s) of
        (Inl e, w) \<Rightarrow> (Ret (Inl e), s\<lparr>world := w\<rparr>)
      | (Inr io, w) \<Rightarrow>
          let ((registration, set_readiness), w1) = mio_registration_new2 E w;
              (res, w2) = mio_register E io registration TOKEN_WAKEUP (readable E) PollOpt_level w1
          in case res of
               Inl e \<Rightarrow> (Ret (Inl e), s\<lparr>world := w2\<rparr>)
             | Inr _ \<Rightarrow>
                 (Ret (Inr \<lparr>r_events = [], r_inner = addr, wakeup_registration = registration\<rparr>),
                  s\<lparr>world := w2,
                    inners := (inners s)(addr \<mapsto>
                      \<lparr>inner_io = io, next_aba_guard = 0, io_dispatch = sl_with_capacity E 1,
                       inner_wakeup = set_readiness\<rparr>)\<rparr>))"

definition Reactor_handle :: "Reactor \<Rightarrow> (('sl, 'w) sys, Handle) op" where
  "Reactor_handle r s =
     (Ret \<lparr>h_inner = Some \<lparr>hp_inner = r_inner r\<rparr>\<rparr>,
      s\<lparr>weak := (weak s)(r_inner r := Suc (weak s (r_inner r)))\<rparr>)"

definition Reactor_is_idle :: "('aw, 'sl, 'w) ext \<Rightarrow> Reactor \<Rightarrow> (('sl, 'w) sys, bool) op" where
  "Reactor_is_idle E r s =
     (case inners s (r_inner r) of
        None \<Rightarrow> (Panic ''dangling Arc'', s)
      | Some inn \<Rightarrow> (Ret (sl_is_empty E (io_dispatch inn)), s))"

definition Reactor_dispatch ::
  "('aw, 'sl, 'w) ext \<Rightarrow> usize \<Rightarrow> usize \<Rightarrow> usize \<Rightarrow> (('sl, 'w) sys, unit) op" where
  "Reactor_dispatch E a tok ready s =
     (case inners s a of
        None \<Rightarrow> (Panic ''dangling Arc'', s)
      | Some inn \<Rightarrow>
          let (ts, inn') = dispatch E tok ready inn
          in (Ret (), s\<lparr>inners := (inners s)(a \<mapsto> inn'), woken := woken s @ ts\<rparr>))"

fun process_events ::
  "('aw, 'sl, 'w) ext \<Rightarrow> usize \<Rightarrow> event list \<Rightarrow> (('sl, 'w) sys, unit) op" where
  "process_events E a [] s = (Ret (), s)"
| "process_events E a ((token, ready) # es) s =
     (if token = TOKEN_WAKEUP
      then (case inners s a of
              None \<Rightarrow> (Panic ''dangling Arc'', s)
            | Some inn \<Rightarrow>
                (case mio_set_readiness E (inner_wakeup inn) 0 (world s) of
                   (Inl e, w) \<Rightarrow> (Panic ''called `Result::unwrap()` on an `Err` value'', s\<lparr>world := w\<rparr>)
                 | (Inr _, w) \<Rightarrow> process_events E a es (s\<lparr>world := w\<rparr>)))
      else bnd (Reactor_dispatch E a token ready) (\<lambda>_. process_events E a es) s)"

definition Reactor_poll ::
  "('aw, 'sl, 'w) ext \<Rightarrow> nat option \<Rightarrow> (Reactor \<times> ('sl, 'w) sys, unit io_result) op" where
  "Reactor_poll E max_wait = (\<lambda>(r, s).
     (case inners s (r_inner r) of
        None \<Rightarrow> (Panic ''dangling Arc'', (r, s))
      | Some inn \<Rightarrow>
          (case mio_poll E (inner_io inn) max_wait (world s) of
             (Inl e, w) \<Rightarrow> (Ret (Inl e), (r, s\<lparr>world := w\<rparr>))
           | (Inr evs, w) \<Rightarrow>
               (case process_events E (r_inner r) evs (s\<lparr>world := w\<rparr>) of
                  (Ret _, s') \<Rightarrow> (Ret (Inr ()), (r\<lparr>r_events := evs\<rparr>, s'))
                | (Panic m, s') \<Rightarrow> (Panic m, (r\<lparr>r_events := evs\<rparr>, s'))
                | (OutOfFuel, s') \<Rightarrow> (OutOfFuel, (r\<lparr>r_events := evs\<rparr>, s'))))))"

text \<open>\<^verbatim>\<open>Turn\<close> carries no information; its one value is \<open>()\<close>.\<close>

definition Reactor_turn ::
  "('aw, 'sl, 'w) ext \<Rightarrow> nat option \<Rightarrow> (Reactor \<times> ('sl, 'w) sys, unit io_result) op" where
  "Reactor_turn E max_wait = try_io (Reactor_poll E max_wait) (\<lambda>_. ret (Inr ()))"

text \<open>Dropping the reactor drops the only long-lived strong reference, so \<^verbatim>\<open>Inner\<close> is dropped.\<close>

definition Reactor_drop :: "('aw, 'sl, 'w) ext \<Rightarrow> Reactor \<Rightarrow> ('sl, 'w) sys \<Rightarrow> ('sl, 'w) sys" where
  "Reactor_drop E r s =
     (case inners s (r_inner r) of
        None \<Rightarrow> s
      | Some inn \<Rightarrow> s\<lparr>inners := (inners s)(r_inner r := None), woken := woken s @ inner_drop E inn\<rparr>)"

text \<open>The \<^verbatim>\<open>Debug\<close> output, here and below: the text that is printed.\<close>

definition Reactor_fmt :: "Reactor \<Rightarrow> string" where
  "Reactor_fmt r = ''Reactor''"

section \<open>Specification vocabulary\<close>

text \<open>
  \<open>inner_ok\<close> is the invariant of the shared state: the slab never has more than
  \<^verbatim>\<open>MAX_SOURCES\<close> slots, and guards keep their low bits free for the key.
\<close>

definition inner_ok :: "('aw, 'sl, 'w) ext \<Rightarrow> 'sl inner \<Rightarrow> bool" where
  "inner_ok E inn \<longleftrightarrow>
     sl_slots E (io_dispatch inn) \<le> unat MAX_SOURCES \<and>
     next_aba_guard inn AND MAX_SOURCES = 0 \<and>
     (\<forall>k io. sl_get E (io_dispatch inn) k = Some io \<longrightarrow> aba_guard io AND MAX_SOURCES = 0)"

definition wake_of :: "task option \<Rightarrow> task list" where
  "wake_of o_t = (case o_t of None \<Rightarrow> [] | Some t \<Rightarrow> [t])"

text \<open>The effect of an event with readiness \<open>r\<close> on the entry it is for.\<close>

definition deliver :: "('aw, 'sl, 'w) ext \<Rightarrow> usize \<Rightarrow> 'aw scheduled_io \<Rightarrow> 'aw scheduled_io" where
  "deliver E r io = io\<lparr>readiness := readiness io OR r,
     writer := (if r AND Direction_mask E Write \<noteq> 0 then snd (aw_take E (writer io)) else writer io),
     reader := (if r AND NOT (writable E) \<noteq> 0 then snd (aw_take E (reader io)) else reader io)\<rparr>"

text \<open>A shared state with no source, for closed examples.\<close>

definition inner0 :: "list_slab inner" where
  "inner0 = \<lparr>inner_io = 0, next_aba_guard = 0, io_dispatch = [], inner_wakeup = 1\<rparr>"

definition sys0 :: "(list_slab, nat) sys" where
  "sys0 = \<lparr>inners = Map.empty, weak = (\<lambda>_. 0), HANDLE_FALLBACK = 0, CURRENT_REACTOR = None,
     wakers = Map.empty, woken = [], world = 0\<rparr>"

definition inner1 :: "list_slab inner" where
  "inner1 = inner0\<lparr>next_aba_guard := 4194304,
     io_dispatch := [Some \<lparr>aba_guard = 0, readiness = 0, reader = Some 3, writer = Some 4\<rparr>]\<rparr>"

text \<open>The task that waits on an entry, per direction, and the bits of an event that wake it.\<close>

definition waiter :: "('aw, 'sl, 'w) ext \<Rightarrow> Direction \<Rightarrow> 'aw scheduled_io \<Rightarrow> task option" where
  "waiter E d io = aw_held E (case d of Read \<Rightarrow> reader io | Write \<Rightarrow> writer io)"

definition wake_mask :: "('aw, 'sl, 'w) ext \<Rightarrow> Direction \<Rightarrow> usize" where
  "wake_mask E d = (case d of Read \<Rightarrow> NOT (writable E) | Write \<Rightarrow> Direction_mask E Write)"

fun event_bits :: "usize \<Rightarrow> event list \<Rightarrow> usize" where
  "event_bits tok [] = 0"
| "event_bits tok ((t, r) # es) = (if t = tok then r else 0) OR event_bits tok es"

section \<open>Tokens\<close>

lemma MAX_SOURCES_mask: "MAX_SOURCES = mask 22"
  by (simp add: MAX_SOURCES_def TOKEN_SHIFT_def mask_eq_exp_minus_1)

lemma unat_MAX_SOURCES [simp]: "unat MAX_SOURCES = 4194303"
  by (simp add: MAX_SOURCES_def TOKEN_SHIFT_def)

lemma key_and_MAX_SOURCES: "unat k < 4194304 \<Longrightarrow> k AND MAX_SOURCES = k"
  by (simp add: MAX_SOURCES_mask word_unat_eq_iff unsigned_take_bit_eq take_bit_nat_eq_self
      flip: take_bit_eq_mask)

lemma token_split:
  assumes "aba AND m = 0" and "key AND m = key"
  shows "(aba OR key) AND m = (key :: usize)" and "(aba OR key) AND NOT m = aba"
proof -
  have 1: "aba AND NOT m = aba" and 2: "key AND NOT m = 0"
    using assms by (simp_all add: and_not_eq_0_iff) (auto simp: bit_eq_iff bit_simps)
  show "(aba OR key) AND m = key" using assms by (simp add: bit.conj_disj_distrib2)
  show "(aba OR key) AND NOT m = aba" using 1 2 by (simp add: bit.conj_disj_distrib2)
qed

lemma guard_step [simp]: "g AND MAX_SOURCES = 0 \<Longrightarrow> (g + 2 ^ TOKEN_SHIFT) AND MAX_SOURCES = 0"
  by (simp add: MAX_SOURCES_mask TOKEN_SHIFT_def flip: take_bit_eq_mask)
    (simp add: take_bit_eq_0_iff)

section \<open>The invariant of the shared state\<close>

lemma inner_ok_fits: "inner_ok E inn \<Longrightarrow> slab_fits E (io_dispatch inn)"
  by (simp add: inner_ok_def slab_fits_def)

lemma slab_len_le_slots:
  assumes "ext_ok E" and "slab_fits E s"
  shows "sl_len E s \<le> sl_slots E s"
proof -
  have "card (dom (sl_get E s)) \<le> card {..<sl_slots E s}"
  proof (rule card_inj_on_le [of unat])
    show "inj_on unat (dom (sl_get E s))" by (simp add: inj_on_def word_unat_eq_iff)
    show "unat ` dom (sl_get E s) \<subseteq> {..<sl_slots E s}"
      using slab_key_bound [OF assms] by fastforce
  qed simp
  then show ?thesis by (simp add: slab_len [OF assms])
qed

lemma inner_ok_key:
  assumes "ext_ok E" and "inner_ok E inn" and "sl_get E (io_dispatch inn) k = Some io"
  shows "k AND MAX_SOURCES = k" and "unat k < unat MAX_SOURCES"
proof -
  have "unat k < sl_slots E (io_dispatch inn)"
    by (rule slab_key_bound [OF assms(1) inner_ok_fits [OF assms(2)] assms(3)])
  with assms(2) show "unat k < unat MAX_SOURCES" by (simp add: inner_ok_def)
  then show "k AND MAX_SOURCES = k" by (simp add: key_and_MAX_SOURCES)
qed

text \<open>What one successful or failed \<^verbatim>\<open>add_source\<close> does to the state.\<close>

lemma add_source_cases:
  assumes "add_source E src inn w = (res, inn', w')"
  obtains (full) "sl_len E (io_dispatch inn) = unat MAX_SOURCES"
      "res = Inl (IoError Other ''reactor at max registered I/O resources'')"
      "inn' = inn\<lparr>next_aba_guard := next_aba_guard inn + push_bit TOKEN_SHIFT 1\<rparr>" "w' = w"
    | (inserted) key slab r where "sl_len E (io_dispatch inn) \<noteq> unat MAX_SOURCES"
      "sl_insert E (io_dispatch inn) \<lparr>aba_guard = next_aba_guard inn, readiness = 0,
         reader = aw_new E, writer = aw_new E\<rparr> = (key, slab)"
      "inn' = inn\<lparr>next_aba_guard := next_aba_guard inn + push_bit TOKEN_SHIFT 1, io_dispatch := slab\<rparr>"
      "mio_register E (inner_io inn) src (next_aba_guard inn OR key) (ready_all E) PollOpt_edge w = (r, w')"
      "res = (case r of Inl e \<Rightarrow> Inl e | Inr _ \<Rightarrow> Inr key)"
proof (cases "sl_len E (io_dispatch inn) = unat MAX_SOURCES")
  case True
  with assms show ?thesis by (intro full) (auto simp: add_source_def Let_def)
next
  case False
  obtain key slab where ins: "sl_insert E (io_dispatch inn) \<lparr>aba_guard = next_aba_guard inn,
      readiness = 0, reader = aw_new E, writer = aw_new E\<rparr> = (key, slab)" by fastforce
  obtain r w1 where reg: "mio_register E (inner_io inn) src (next_aba_guard inn OR key) (ready_all E)
      PollOpt_edge w = (r, w1)" by fastforce
  from assms False ins reg show ?thesis
    by (intro inserted [of key slab r]) (auto simp: add_source_def Let_def split: sum.splits)
qed

lemma insert_slots:
  assumes "ext_ok E" and "inner_ok E inn" and "sl_len E (io_dispatch inn) \<noteq> unat MAX_SOURCES"
    and "sl_insert E (io_dispatch inn) v = (key, slab)"
  shows "sl_slots E slab \<le> unat MAX_SOURCES" and "unat key < unat MAX_SOURCES"
proof -
  note fits = inner_ok_fits [OF assms(2)]
  have "sl_slots E (io_dispatch inn) \<le> unat MAX_SOURCES"
    using assms(2) by (simp add: inner_ok_def)
  moreover have "sl_slots E slab =
      (if sl_len E (io_dispatch inn) < sl_slots E (io_dispatch inn)
       then sl_slots E (io_dispatch inn) else Suc (sl_slots E (io_dispatch inn)))"
    by (rule slab_insert(3) [OF assms(1) fits assms(4)])
  ultimately show le: "sl_slots E slab \<le> unat MAX_SOURCES"
    using slab_len_le_slots [OF assms(1) fits] assms(3) by (auto split: if_splits)
  have "unat key < sl_slots E slab" by (rule slab_insert(4) [OF assms(1) fits assms(4)])
  with le show "unat key < unat MAX_SOURCES" by simp
qed

lemma add_source_ok:
  assumes "ext_ok E" and "inner_ok E inn" and "add_source E src inn w = (res, inn', w')"
  shows "inner_ok E inn'"
  using assms(3)
proof (cases rule: add_source_cases)
  case full
  with assms(2) show ?thesis by (simp add: inner_ok_def guard_step)
next
  case (inserted key slab r)
  note ins = slab_insert [OF assms(1) inner_ok_fits [OF assms(2)] inserted(2)]
  from insert_slots(1) [OF assms(1,2) inserted(1,2)] assms(2) show ?thesis
    by (auto simp: inner_ok_def guard_step inserted(3) ins(2) split: if_splits)
qed

lemma inner_ok_set:
  assumes "ext_ok E" and "inner_ok E inn" and "sl_get E (io_dispatch inn) k = Some io"
    and "aba_guard io' = aba_guard io"
  shows "inner_ok E (inn\<lparr>io_dispatch := sl_set E (io_dispatch inn) k io'\<rparr>)"
  using assms(2-4) slab_set [OF assms(1) inner_ok_fits [OF assms(2)] assms(3)]
  by (auto simp: inner_ok_def)

lemma drop_source_ok:
  assumes "ext_ok E" and "inner_ok E inn" and "sl_get E (io_dispatch inn) k = Some io"
  obtains inn' where "drop_source E k inn = (Ret (), inn')" and "inner_ok E inn'"
    and "sl_get E (io_dispatch inn') = (sl_get E (io_dispatch inn))(k := None)"
    and "next_aba_guard inn' = next_aba_guard inn"
proof -
  obtain s' where s': "sl_remove E (io_dispatch inn) k = Some s'"
    "sl_get E s' = (sl_get E (io_dispatch inn))(k := None)"
    "sl_slots E s' = sl_slots E (io_dispatch inn)"
    by (rule slab_remove [OF assms(1) inner_ok_fits [OF assms(2)] assms(3)])
  show ?thesis
    by (rule that [of "inn\<lparr>io_dispatch := s'\<rparr>"])
      (use s' assms(2) in \<open>auto simp: drop_source_def inner_ok_def\<close>)
qed

section \<open>Dispatch on an entry\<close>

lemma and_or_nonzero: "r AND (a OR b) \<noteq> 0 \<longleftrightarrow> r AND a \<noteq> 0 \<or> r AND b \<noteq> (0 :: usize)"
  by (auto simp: bit_eq_iff bit_simps)

lemma platform_is_hup_iff: "ready_ok E \<Longrightarrow> platform_is_hup E r \<longleftrightarrow> r AND platform_hup E \<noteq> 0"
  by (simp add: platform_is_hup_def platform_hup_def ready_okD)

lemma write_mask_hit:
  "ready_ok E \<Longrightarrow> is_writable E r \<or> platform_is_hup E r \<longleftrightarrow> r AND Direction_mask E Write \<noteq> 0"
  by (simp add: Direction_mask_def and_or_nonzero platform_is_hup_iff ready_okD)

lemma aba_guard_deliver [simp]: "aba_guard (deliver E r io) = aba_guard io"
  by (simp add: deliver_def)

lemma set_wake_of [simp]: "t \<in> set (wake_of x) \<longleftrightarrow> x = Some t"
  by (auto simp: wake_of_def split: option.splits)

lemma dispatch_hit:
  assumes "ready_ok E" and "sl_get E (io_dispatch inn) (tok AND MAX_SOURCES) = Some io"
    and "aba_guard io = tok AND NOT MAX_SOURCES"
  shows "dispatch E tok r inn =
     (wake_of (if r AND NOT (writable E) \<noteq> 0 then fst (aw_take E (reader io)) else None) @
      wake_of (if r AND Direction_mask E Write \<noteq> 0 then fst (aw_take E (writer io)) else None),
      inn\<lparr>io_dispatch := sl_set E (io_dispatch inn) (tok AND MAX_SOURCES) (deliver E r io)\<rparr>)"
  using assms(2,3)
  by (simp add: dispatch_def Let_def write_mask_hit [OF assms(1)] deliver_def wake_of_def)

lemma dispatch_miss:
  "sl_get E (io_dispatch inn) (tok AND MAX_SOURCES) = None \<Longrightarrow> dispatch E tok r inn = ([], inn)"
  by (simp add: dispatch_def)

lemma dispatch_stale:
  "sl_get E (io_dispatch inn) (tok AND MAX_SOURCES) = Some io \<Longrightarrow>
   aba_guard io \<noteq> tok AND NOT MAX_SOURCES \<Longrightarrow> dispatch E tok r inn = ([], inn)"
  by (simp add: dispatch_def)

lemma dispatch_ok:
  assumes "ext_ok E" and "inner_ok E inn"
  shows "inner_ok E (snd (dispatch E tok r inn))"
proof (cases "sl_get E (io_dispatch inn) (tok AND MAX_SOURCES)")
  case None
  with assms show ?thesis by (simp add: dispatch_miss)
next
  case (Some io)
  show ?thesis
  proof (cases "aba_guard io = tok AND NOT MAX_SOURCES")
    case True
    then show ?thesis
      by (simp add: dispatch_hit [OF ext_ok_ready [OF assms(1)] Some] inner_ok_set [OF assms Some])
  next
    case False
    with Some assms show ?thesis by (simp add: dispatch_stale)
  qed
qed

lemma inner_register_eq:
  assumes "sl_get E (io_dispatch inn) token = Some io"
  shows "inner_register E cx token dir inn =
     (let hit = readiness io AND (case dir of Read \<Rightarrow> NOT (writable E) | Write \<Rightarrow> writable E) \<noteq> 0;
          cell = aw_register E (case dir of Read \<Rightarrow> reader io | Write \<Rightarrow> writer io) cx;
          cell' = (if hit then snd (aw_wake E cell) else cell)
      in (Ret (if hit then fst (aw_wake E cell) else None),
          inn\<lparr>io_dispatch := sl_set E (io_dispatch inn) token
            (case dir of Read \<Rightarrow> io\<lparr>reader := cell'\<rparr> | Write \<Rightarrow> io\<lparr>writer := cell'\<rparr>)\<rparr>))"
  using assms
  by (cases dir) (simp_all add: inner_register_def Let_def split: prod.splits)

lemma inner_register_ok:
  assumes "ext_ok E" and "inner_ok E inn" and "sl_get E (io_dispatch inn) token = Some io"
  shows "inner_ok E (snd (inner_register E cx token dir inn))"
  by (cases dir)
    (simp_all add: inner_register_eq [OF assms(3)] Let_def inner_ok_set [OF assms])

lemma set_inner_drop:
  assumes "ext_ok E" and "slab_fits E (io_dispatch inn)"
  shows "t \<in> set (inner_drop E inn) \<longleftrightarrow>
    (\<exists>k io. sl_get E (io_dispatch inn) k = Some io \<and>
       (aw_held E (reader io) = Some t \<or> aw_held E (writer io) = Some t))"
proof -
  have "inner_drop E inn = concat (map (\<lambda>(_, io).
      wake_of (aw_held E (writer io)) @ wake_of (aw_held E (reader io))) (sl_iter E (io_dispatch inn)))"
    using assms(1) by (simp add: inner_drop_def wake_of_def)
  then show ?thesis using slab_iter [OF assms] by (auto split: prod.splits)
qed

section \<open>Properties\<close>

lemma inner0_ok: "inner_ok (std_ext evs) inner0"
  by (simp add: inner_ok_def inner0_def std_ext_def ls_get_def)

lemma add_source_InrE:
  assumes "add_source E src inn w = (Inr key, inn', w')"
  obtains slab where "sl_len E (io_dispatch inn) \<noteq> unat MAX_SOURCES"
    and "sl_insert E (io_dispatch inn) \<lparr>aba_guard = next_aba_guard inn, readiness = 0,
         reader = aw_new E, writer = aw_new E\<rparr> = (key, slab)"
    and "inn' = inn\<lparr>next_aba_guard := next_aba_guard inn + push_bit TOKEN_SHIFT 1, io_dispatch := slab\<rparr>"
    and "mio_register E (inner_io inn) src (next_aba_guard inn OR key) (ready_all E) PollOpt_edge w
         = (Inr (), w')"
  using assms by (cases rule: add_source_cases) (auto split: sum.splits)

lemma entry_token:
  assumes "ext_ok E" and "inner_ok E inn" and "sl_get E (io_dispatch inn) k = Some io"
  shows "(aba_guard io OR k) AND MAX_SOURCES = k"
    and "(aba_guard io OR k) AND NOT MAX_SOURCES = aba_guard io"
  using token_split [of "aba_guard io" MAX_SOURCES k] inner_ok_key [OF assms] assms(2,3)
  by (auto simp: inner_ok_def)

lemma key_not_reserved:
  assumes "unat key < unat MAX_SOURCES"
  shows "key \<noteq> TOKEN_WAKEUP" and "key \<noteq> - 1"
  using assms by (auto simp: TOKEN_WAKEUP_def unsigned_minus_1_eq_mask mask_eq_exp_minus_1)

text \<open>C1: a source that \<^verbatim>\<open>add_source\<close> accepts gets a vacant key, an entry of its own and a mio token
  from which \<^verbatim>\<open>dispatch\<close> recovers exactly that key and guard; the token is never
  \<^verbatim>\<open>TOKEN_WAKEUP\<close> and the key never the \<^verbatim>\<open>ERROR\<close> token \<^verbatim>\<open>usize::MAX\<close>.\<close>

theorem add_source_token_roundtrip:
  assumes "ext_ok E" and "inner_ok E inn" and "add_source E src inn w = (Inr key, inn', w')"
  shows "(next_aba_guard inn OR key) AND MAX_SOURCES = key \<and>
    (next_aba_guard inn OR key) AND NOT MAX_SOURCES = next_aba_guard inn \<and>
    next_aba_guard inn OR key \<noteq> TOKEN_WAKEUP \<and> key \<noteq> - 1 \<and>
    mio_register E (inner_io inn) src (next_aba_guard inn OR key) (ready_all E) PollOpt_edge w
      = (Inr (), w') \<and>
    sl_get E (io_dispatch inn) key = None \<and>
    sl_get E (io_dispatch inn') = (sl_get E (io_dispatch inn))(key \<mapsto>
      \<lparr>aba_guard = next_aba_guard inn, readiness = 0, reader = aw_new E, writer = aw_new E\<rparr>)"
proof -
  obtain slab where slab: "sl_len E (io_dispatch inn) \<noteq> unat MAX_SOURCES"
    "sl_insert E (io_dispatch inn) \<lparr>aba_guard = next_aba_guard inn, readiness = 0,
         reader = aw_new E, writer = aw_new E\<rparr> = (key, slab)"
    "inn' = inn\<lparr>next_aba_guard := next_aba_guard inn + push_bit TOKEN_SHIFT 1, io_dispatch := slab\<rparr>"
    "mio_register E (inner_io inn) src (next_aba_guard inn OR key) (ready_all E) PollOpt_edge w
         = (Inr (), w')"
    using assms(3) by (rule add_source_InrE)
  have key: "unat key < unat MAX_SOURCES" by (rule insert_slots(2) [OF assms(1,2) slab(1,2)])
  note split = token_split [of "next_aba_guard inn" MAX_SOURCES key]
  have "key AND MAX_SOURCES = key" using key by (simp add: key_and_MAX_SOURCES)
  moreover have "next_aba_guard inn AND MAX_SOURCES = 0" using assms(2) by (simp add: inner_ok_def)
  moreover have "TOKEN_WAKEUP AND MAX_SOURCES = MAX_SOURCES" by (simp add: TOKEN_WAKEUP_def)
  ultimately show ?thesis
    using split slab key_not_reserved [OF key]
      slab_insert(1,2) [OF assms(1) inner_ok_fits [OF assms(2)] slab(2)]
    by (auto simp: TOKEN_WAKEUP_def)
qed

theorem add_source_token_roundtrip_witness:
  "\<exists>inn'. add_source (std_ext []) 7 inner0 5 = (Inr 0, inn', 5) \<and> ext_ok (std_ext []) \<and>
     inner_ok (std_ext []) inner0 \<and> sl_get (std_ext []) (io_dispatch inner0) 0 = None"
proof -
  have run: "add_source (std_ext []) 7 inner0 5 = (Inr 0, snd3, 5)"
    if "snd3 = fst (snd (add_source (std_ext []) 7 inner0 5))" for snd3
    unfolding that by (simp add: add_source_def std_ext_def inner0_def ls_insert_def Let_def)
  show ?thesis
    using add_source_token_roundtrip [OF std_ext_ok inner0_ok run [OF refl]] run [OF refl]
      std_ext_ok [of "[]"] inner0_ok [of "[]"] by blast
qed

lemma dispatch_live:
  assumes "ext_ok E" and "inner_ok E inn" and "sl_get E (io_dispatch inn) k = Some io"
  shows "dispatch E (aba_guard io OR k) r inn =
     (wake_of (if r AND NOT (writable E) \<noteq> 0 then aw_held E (reader io) else None) @
      wake_of (if r AND Direction_mask E Write \<noteq> 0 then aw_held E (writer io) else None),
      inn\<lparr>io_dispatch := sl_set E (io_dispatch inn) k (deliver E r io)\<rparr>)"
proof -
  note tok = entry_token [OF assms]
  have "sl_get E (io_dispatch inn) ((aba_guard io OR k) AND MAX_SOURCES) = Some io"
    using assms(3) by (simp add: tok)
  from dispatch_hit [OF ext_ok_ready [OF assms(1)] this, of r, unfolded tok, OF refl] show ?thesis
    by (simp add: assms(1))
qed

text \<open>C2: an event delivered with the token of a live source accumulates in that source's readiness,
  wakes its reader if any bit but \<^verbatim>\<open>writable\<close> is set and its writer if \<^verbatim>\<open>writable\<close> or \<^verbatim>\<open>hup\<close> is,
  empties the waker cells it woke, and changes no other source.\<close>

theorem dispatch_delivers:
  assumes "ext_ok E" and "inner_ok E inn" and "sl_get E (io_dispatch inn) k = Some io"
    and "dispatch E (aba_guard io OR k) r inn = (ts, inn')"
  shows "\<exists>io'. sl_get E (io_dispatch inn') = (sl_get E (io_dispatch inn))(k \<mapsto> io') \<and>
    aba_guard io' = aba_guard io \<and> readiness io' = readiness io OR r \<and>
    (let rd = r AND NOT (writable E) \<noteq> 0; wr = r AND (writable E OR platform_hup E) \<noteq> 0 in
      aw_held E (reader io') = (if rd then None else aw_held E (reader io)) \<and>
      aw_held E (writer io') = (if wr then None else aw_held E (writer io)) \<and>
      ts = (if rd then wake_of (aw_held E (reader io)) else []) @
           (if wr then wake_of (aw_held E (writer io)) else []))"
proof -
  have "wake_of None = []" by (simp add: wake_of_def)
  then show ?thesis
    using dispatch_live [OF assms(1-3), of r] assms(4)
      slab_set(1) [OF assms(1) inner_ok_fits [OF assms(2)] assms(3), of "deliver E r io"]
    by (intro exI [of _ "deliver E r io"]) (auto simp: deliver_def Direction_mask_def Let_def assms(1))
qed

lemma inner1_ok: "inner_ok (std_ext evs) inner1"
  by (auto simp: inner_ok_def inner1_def inner0_def std_ext_def ls_get_def MAX_SOURCES_def
      TOKEN_SHIFT_def split: if_splits)

theorem dispatch_delivers_witness:
  "fst (dispatch (std_ext []) 0 1 inner1) = [3] \<and> ext_ok (std_ext [])"
proof -
  have get: "sl_get (std_ext []) (io_dispatch inner1) 0 =
      Some \<lparr>aba_guard = 0, readiness = 0, reader = Some 3, writer = Some 4\<rparr>"
    by (simp add: inner1_def std_ext_def ls_get_def)
  have "dispatch (std_ext []) (aba_guard (the (sl_get (std_ext []) (io_dispatch inner1) 0)) OR 0) 1 inner1 =
      (fst (dispatch (std_ext []) 0 1 inner1), snd (dispatch (std_ext []) 0 1 inner1))"
    unfolding get by simp
  from dispatch_delivers [OF std_ext_ok inner1_ok get this [unfolded get option.sel]]
  show ?thesis by (auto simp: Let_def std_ext_ok) (auto simp: std_ext_def platform_hup_def wake_of_def)
qed

text \<open>C3: every outcome of \<^verbatim>\<open>add_source\<close>. At the limit it reports the documented error, makes no call to mio and leaves
  every entry as it was. Below the limit it never reports that error: it fills one vacant key, below \<^verbatim>\<open>MAX_SOURCES\<close>, with
  a fresh entry and registers the source with mio under guard and key. If mio refuses, mio's error is returned and
  the new entry is in the slab all the same: the failed call has used up a slot. The invariant is kept in every case.\<close>

theorem add_source_outcomes:
  assumes "ext_ok E" and "inner_ok E inn" and "add_source E src inn w = (res, inn', w')"
  shows "inner_ok E inn' \<and>
    (if card (dom (sl_get E (io_dispatch inn))) = unat MAX_SOURCES
     then res = Inl (IoError Other ''reactor at max registered I/O resources'') \<and> w' = w \<and>
       io_dispatch inn' = io_dispatch inn
     else \<exists>key r. unat key < unat MAX_SOURCES \<and> key \<notin> dom (sl_get E (io_dispatch inn)) \<and>
       sl_get E (io_dispatch inn') = (sl_get E (io_dispatch inn))(key \<mapsto>
         \<lparr>aba_guard = next_aba_guard inn, readiness = 0, reader = aw_new E, writer = aw_new E\<rparr>) \<and>
       mio_register E (inner_io inn) src (next_aba_guard inn OR key) (ready_all E) PollOpt_edge w = (r, w') \<and>
       res = (case r of Inl e \<Rightarrow> Inl e | Inr _ \<Rightarrow> Inr key))"
  using assms(3)
proof (cases rule: add_source_cases)
  case full
  with add_source_ok [OF assms] slab_len [OF assms(1) inner_ok_fits [OF assms(2)]]
  show ?thesis by simp
next
  case (inserted key slab r)
  note ins = slab_insert(1,2) [OF assms(1) inner_ok_fits [OF assms(2)] inserted(2)]
  have "card (dom (sl_get E (io_dispatch inn))) \<noteq> unat MAX_SOURCES"
    using slab_len [OF assms(1) inner_ok_fits [OF assms(2)]] inserted(1) by simp
  with add_source_ok [OF assms] ins inserted(3-5) insert_slots(2) [OF assms(1,2) inserted(1,2)]
  show ?thesis by (auto intro!: exI [of _ key] exI [of _ r])
qed

lemma refusing_ext_ok: "ext_ok ((std_ext evs)\<lparr>mio_register := f\<rparr>)"
proof -
  let ?E = "(std_ext evs)\<lparr>mio_register := f\<rparr>"
  have "ready_ok ?E = ready_ok (std_ext evs)" by (simp add: ready_ok_def)
  moreover have "waker_ok ?E = waker_ok (std_ext evs)" by (simp add: waker_ok_def)
  moreover have "slab_read_ok ?E = slab_read_ok (std_ext evs)"
    by (simp add: slab_read_ok_def slab_fits_def)
  moreover have "slab_write_ok ?E = slab_write_ok (std_ext evs)"
    by (simp add: slab_write_ok_def slab_fits_def)
  ultimately show ?thesis using std_ext_ok [of evs] by (simp add: ext_ok_def)
qed

theorem add_source_outcomes_witness:
  "\<exists>inn' w' key.
     add_source ((std_ext [])\<lparr>mio_register := (\<lambda>p f t r m w. (Inl (IoError Other ''x''), w))\<rparr>) 7 inner0 (5::nat)
       = (Inl (IoError Other ''x''), inn', w') \<and> key \<in> dom (ls_get (io_dispatch inn'))"
proof -
  let ?E = "(std_ext [])\<lparr>mio_register := (\<lambda>p f t r m w. (Inl (IoError Other ''x''), w))\<rparr>"
  obtain res inn' w' where run: "add_source ?E 7 inner0 5 = (res, inn', w')" by (metis prod.collapse)
  have "inner_ok ?E inner0" using inner0_ok [of "[]"] by (simp add: inner_ok_def)
  moreover have "card (dom (sl_get ?E (io_dispatch inner0))) \<noteq> unat MAX_SOURCES"
    by (simp add: std_ext_def inner0_def ls_get_def dom_def MAX_SOURCES_def TOKEN_SHIFT_def)
  ultimately have "res = Inl (IoError Other ''x'') \<and> (\<exists>key v. sl_get ?E (io_dispatch inn') key = Some v)"
    using add_source_outcomes [OF refusing_ext_ok _ run] by auto
  then obtain key v where "res = Inl (IoError Other ''x'')" "sl_get ?E (io_dispatch inn') key = Some v" by blast
  with run show ?thesis by (intro exI [of _ inn'] exI [of _ w'] exI [of _ key]) (simp add: std_ext_def domIff)
qed

text \<open>C5: dropping the reactor wakes every task that waits on any of its sources, in either
  direction, and nobody else, and leaves no live shared state behind the handles.\<close>

theorem Reactor_drop_wakes_waiters:
  assumes "ext_ok E" and "inners s (r_inner r) = Some inn" and "inner_ok E inn"
  shows "inners (Reactor_drop E r s) = (inners s)(r_inner r := None) \<and>
    (\<exists>ts. woken (Reactor_drop E r s) = woken s @ ts \<and>
      set ts = {t. \<exists>k io. sl_get E (io_dispatch inn) k = Some io \<and>
        (aw_held E (reader io) = Some t \<or> aw_held E (writer io) = Some t)})"
  using assms(2) set_inner_drop [OF assms(1) inner_ok_fits [OF assms(3)]]
  by (auto simp: Reactor_drop_def)

theorem Reactor_drop_wakes_waiters_witness:
  "3 \<in> set (woken (Reactor_drop (std_ext []) \<lparr>r_events = [], r_inner = 16, wakeup_registration = 0\<rparr>
      (sys0\<lparr>inners := [16 \<mapsto> inner1]\<rparr>)))"
proof -
  let ?s = "sys0\<lparr>inners := [16 \<mapsto> inner1]\<rparr>"
  let ?r = "\<lparr>r_events = [], r_inner = 16, wakeup_registration = 0\<rparr>"
  have "inners ?s (r_inner ?r) = Some inner1" by simp
  from Reactor_drop_wakes_waiters [OF std_ext_ok this inner1_ok]
  obtain ts where ts: "woken (Reactor_drop (std_ext []) ?r ?s) = woken ?s @ ts"
    "set ts = {t. \<exists>k io. sl_get (std_ext []) (io_dispatch inner1) k = Some io \<and>
        (aw_held (std_ext []) (reader io) = Some t \<or> aw_held (std_ext []) (writer io) = Some t)}"
    by blast
  have "sl_get (std_ext []) (io_dispatch inner1) 0 =
      Some \<lparr>aba_guard = 0, readiness = 0, reader = Some 3, writer = Some 4\<rparr>"
    by (simp add: inner1_def std_ext_def ls_get_def)
  moreover have "aw_held (std_ext []) (Some 3) = Some 3" by (simp add: std_ext_def)
  ultimately have "3 \<in> set ts" unfolding ts(2) by force
  then show ?thesis unfolding ts(1) by simp
qed

text \<open>C6: \<^verbatim>\<open>Inner::register\<close> on a live source stores the task and looks at the readiness afterwards: the task is
  then held by the cell of its direction or has been woken, and nothing else changes. For reading it is woken whenever
  \<^verbatim>\<open>poll_ready\<close> would report readiness, so no wakeup is lost. For writing it is woken exactly if the source is
  writable: on a source that has hung up without being writable, the task is parked and not woken, although the mask of
  the write direction includes \<^verbatim>\<open>hup\<close> and \<^verbatim>\<open>poll_ready\<close> would report it.\<close>

theorem inner_register_outcomes:
  assumes "ext_ok E" and "inner_ok E inn" and "sl_get E (io_dispatch inn) k = Some io"
  shows "\<exists>wk inn' io'. inner_register E cx k d inn = (Ret wk, inn') \<and> inner_ok E inn' \<and>
    sl_get E (io_dispatch inn') = (sl_get E (io_dispatch inn))(k \<mapsto> io') \<and>
    readiness io' = readiness io \<and> aba_guard io' = aba_guard io \<and>
    (case d of Read \<Rightarrow> writer io' = writer io | Write \<Rightarrow> reader io' = reader io) \<and>
    (if wk = Some cx then waiter E d io' = None else wk = None \<and> waiter E d io' = Some cx) \<and>
    (d = Read \<and> readiness io AND Direction_mask E Read \<noteq> 0 \<longrightarrow> wk = Some cx) \<and>
    (d = Write \<longrightarrow> (wk = Some cx \<longleftrightarrow> readiness io AND writable E \<noteq> 0) \<and>
      (cfg_unix E \<and> readiness io AND unix_hup E \<noteq> 0 \<longrightarrow> readiness io AND Direction_mask E Write \<noteq> 0))"
proof -
  let ?hit = "readiness io AND (case d of Read \<Rightarrow> NOT (writable E) | Write \<Rightarrow> writable E) \<noteq> 0"
  let ?cell = "aw_register E (case d of Read \<Rightarrow> reader io | Write \<Rightarrow> writer io) cx"
  let ?cell' = "if ?hit then snd (aw_wake E ?cell) else ?cell"
  let ?io' = "case d of Read \<Rightarrow> io\<lparr>reader := ?cell'\<rparr> | Write \<Rightarrow> io\<lparr>writer := ?cell'\<rparr>"
  let ?inn' = "inn\<lparr>io_dispatch := sl_set E (io_dispatch inn) k ?io'\<rparr>"
  have run: "inner_register E cx k d inn = (Ret (if ?hit then Some cx else None), ?inn')"
    by (cases d) (simp_all add: inner_register_eq [OF assms(3)] Let_def assms(1))
  have ok: "inner_ok E ?inn'" by (rule inner_ok_set [OF assms]) (simp split: Direction.split)
  have rd: "readiness io AND Direction_mask E Read \<noteq> 0 \<longrightarrow> readiness io AND NOT (writable E) \<noteq> 0"
    by (auto simp: Direction_mask_def bit_eq_iff bit_simps)
  have wr: "readiness io AND Direction_mask E Write \<noteq> 0" if "cfg_unix E" "readiness io AND unix_hup E \<noteq> 0"
    using that by (simp add: Direction_mask_def platform_hup_def and_or_nonzero)
  have held: "waiter E d ?io' = (if ?hit then None else Some cx)" using assms(1) by (cases d) (simp_all add: waiter_def)
  show ?thesis
    using run ok rd wr held slab_set(1) [OF assms(1) inner_ok_fits [OF assms(2)] assms(3), of ?io']
    by (intro exI [of _ "if ?hit then Some cx else None"] exI [of _ ?inn'] exI [of _ ?io']) (cases d; simp)
qed

theorem inner_register_outcomes_witness:
  "\<exists>inn'. inner_register (std_ext []) 9 0 Write
     (inner0\<lparr>io_dispatch := [Some \<lparr>aba_guard = 0, readiness = 8, reader = None, writer = None\<rparr>]\<rparr>) = (Ret None, inn')"
proof -
  let ?io = "\<lparr>aba_guard = 0, readiness = 8, reader = None, writer = None\<rparr>"
  let ?inn = "inner0\<lparr>io_dispatch := [Some ?io]\<rparr>"
  have get: "sl_get (std_ext []) (io_dispatch ?inn) 0 = Some ?io" by (simp add: std_ext_def ls_get_def)
  have ok: "inner_ok (std_ext []) ?inn"
    by (auto simp: inner_ok_def inner0_def std_ext_def ls_get_def MAX_SOURCES_def TOKEN_SHIFT_def split: if_splits)
  have "readiness ?io AND writable (std_ext []) = 0" by (simp add: std_ext_def)
  with inner_register_outcomes [OF std_ext_ok ok get, of 9 Write] show ?thesis by (auto split: if_splits)
qed

lemma token_join: "(tok AND NOT m) OR (tok AND m) = (tok :: usize)"
  by (auto simp: bit_eq_iff bit_simps)

lemma deliver_waiter:
  assumes "ext_ok E"
  shows "waiter E d (deliver E r io) = (if r AND wake_mask E d \<noteq> 0 then None else waiter E d io)"
  using assms by (simp add: waiter_def wake_mask_def deliver_def split: Direction.split)

lemma dispatch_live_wakes:
  assumes "ext_ok E" and "inner_ok E inn" and "sl_get E (io_dispatch inn) k = Some io"
    and "waiter E d io = Some t" and "r AND wake_mask E d \<noteq> 0"
  shows "t \<in> set (fst (dispatch E (aba_guard io OR k) r inn))"
  using assms(4,5) by (cases d) (auto simp: dispatch_live [OF assms(1-3)] waiter_def wake_mask_def)

text \<open>What one dispatch does to a given entry: its own events arrive, all others pass it by.\<close>

lemma dispatch_entry:
  assumes "ext_ok E" and "inner_ok E inn" and "sl_get E (io_dispatch inn) k = Some io"
  shows "sl_get E (io_dispatch (snd (dispatch E tok r inn))) k =
    Some (if tok = aba_guard io OR k then deliver E r io else io)"
proof (cases "tok = aba_guard io OR k")
  case True
  then show ?thesis
    by (simp add: dispatch_live [OF assms] slab_set(1) [OF assms(1) inner_ok_fits [OF assms(2)] assms(3)])
next
  case tok: False
  show ?thesis
  proof (cases "\<exists>io2. sl_get E (io_dispatch inn) (tok AND MAX_SOURCES) = Some io2 \<and>
      aba_guard io2 = tok AND NOT MAX_SOURCES")
    case True
    then obtain io2 where io2: "sl_get E (io_dispatch inn) (tok AND MAX_SOURCES) = Some io2"
      "aba_guard io2 = tok AND NOT MAX_SOURCES" by blast
    moreover have "tok AND MAX_SOURCES \<noteq> k"
      using io2 assms(3) tok token_join [of tok MAX_SOURCES] by auto
    ultimately show ?thesis
      using tok assms(3) by (simp add: dispatch_hit [OF ext_ok_ready [OF assms(1)]]
          slab_set(1) [OF assms(1) inner_ok_fits [OF assms(2)]])
  next
    case False
    then have "dispatch E tok r inn = ([], inn)"
      by (cases "sl_get E (io_dispatch inn) (tok AND MAX_SOURCES)") (auto simp: dispatch_miss dispatch_stale)
    with tok assms(3) show ?thesis by simp
  qed
qed

text \<open>A task that an event or the rest \<open>b\<close> of the events concerns is woken now or still waits for the rest.\<close>

lemma woken_or_waiting:
  assumes "ext_ok E" and "inner_ok E inn" and "sl_get E (io_dispatch inn) k = Some io"
    and "waiter E d io = Some t" and "((if tok = aba_guard io OR k then r else 0) OR b) AND wake_mask E d \<noteq> 0"
  shows "t \<in> set (fst (dispatch E tok r inn)) \<or>
    waiter E d (if tok = aba_guard io OR k then deliver E r io else io) = Some t \<and> b AND wake_mask E d \<noteq> 0"
proof (cases "tok = aba_guard io OR k \<and> r AND wake_mask E d \<noteq> 0")
  case True
  with dispatch_live_wakes [OF assms(1-4), of r] show ?thesis by auto
next
  case False
  then have "waiter E d (if tok = aba_guard io OR k then deliver E r io else io) = Some t"
    using assms(4) deliver_waiter [OF assms(1), of d r io] by auto
  moreover have "b AND wake_mask E d \<noteq> 0"
    using assms(5) False by (auto simp: bit_eq_iff bit_simps split: if_splits)
  ultimately show ?thesis by blast
qed

text \<open>Processing events, step by step: what every dispatch and every call to the operating system preserves.\<close>

lemma process_events_steps:
  assumes "ext_ok E" and "inners s a = Some inn" and "inner_ok E inn" and "process_events E a evs s = (q, s')"
    and refl: "\<And>s. R s s" and trans: "\<And>s t u. R s t \<Longrightarrow> R t u \<Longrightarrow> R s u" and os: "\<And>s w. R s (s\<lparr>world := w\<rparr>)"
    and disp: "\<And>s inn tok r ts inn'. inners s a = Some inn \<Longrightarrow> inner_ok E inn \<Longrightarrow> dispatch E tok r inn = (ts, inn') \<Longrightarrow>
      R s (s\<lparr>inners := (inners s)(a \<mapsto> inn'), woken := woken s @ ts\<rparr>)"
  shows "R s s'"
  using assms(2-4)
proof (induction evs arbitrary: s inn)
  case Nil
  then show ?case using refl by simp
next
  case (Cons ev evs)
  obtain tok ready where ev: "ev = (tok, ready)" by fastforce
  show ?case
  proof (cases "tok = TOKEN_WAKEUP")
    case True
    obtain v w where v: "mio_set_readiness E (inner_wakeup inn) 0 (world s) = (v, w)" by fastforce
    show ?thesis
    proof (cases v)
      case (Inl e)
      with Cons.prems True v have "s' = s\<lparr>world := w\<rparr>" by (simp add: ev)
      with os show ?thesis by simp
    next
      case (Inr u)
      with Cons.prems True v have "process_events E a evs (s\<lparr>world := w\<rparr>) = (q, s')" by (simp add: ev)
      from Cons.IH [OF _ Cons.prems(2) this] Cons.prems(1) have "R (s\<lparr>world := w\<rparr>) s'" by simp
      with os show ?thesis by (rule trans)
    qed
  next
    case False
    obtain ts inn' where d: "dispatch E tok ready inn = (ts, inn')" by fastforce
    let ?s = "s\<lparr>inners := (inners s)(a \<mapsto> inn'), woken := woken s @ ts\<rparr>"
    have "inner_ok E inn'" using dispatch_ok [OF assms(1) Cons.prems(2), of tok ready] d by simp
    moreover have "process_events E a evs ?s = (q, s')"
      using Cons.prems False d by (simp add: ev Reactor_dispatch_def)
    ultimately have "R ?s s'" using Cons.IH [of ?s inn'] by simp
    with disp [OF Cons.prems(1,2) d] show ?thesis by (rule trans)
  qed
qed

text \<open>
  Processing events, seen from one entry: the readiness it gains, and who is woken. \<open>ts\<close> are the tasks woken.
\<close>

lemma process_events_accumulates:
  assumes "ext_ok E" and "\<And>p r w. fst (mio_set_readiness E p r w) = Inr ()"
    and "inners s a = Some inn" and "inner_ok E inn" and "sl_get E (io_dispatch inn) k = Some io"
  shows "\<exists>s' inn' io' ts. process_events E a evs s = (Ret (), s') \<and> inners s' a = Some inn' \<and>
    inner_ok E inn' \<and> sl_get E (io_dispatch inn') k = Some io' \<and> aba_guard io' = aba_guard io \<and>
    readiness io' = readiness io OR event_bits (aba_guard io OR k) evs \<and> woken s' = woken s @ ts \<and>
    (\<forall>d t. waiter E d io = Some t \<and> event_bits (aba_guard io OR k) evs AND wake_mask E d \<noteq> 0 \<longrightarrow> t \<in> set ts)"
  using assms(3-5)
proof (induction evs arbitrary: s inn io)
  case Nil
  then show ?case by simp
next
  case (Cons ev evs)
  obtain tok r where ev: "ev = (tok, r)" by fastforce
  show ?case
  proof (cases "tok = TOKEN_WAKEUP")
    case True
    have "aba_guard io OR k \<noteq> TOKEN_WAKEUP"
      using entry_token [OF assms(1) Cons.prems(2,3)] inner_ok_key [OF assms(1) Cons.prems(2,3)]
      by (auto simp: TOKEN_WAKEUP_def)
    moreover obtain w where "mio_set_readiness E (inner_wakeup inn) 0 (world s) = (Inr (), w)"
      using assms(2) by (metis (full_types) prod.collapse)
    ultimately show ?thesis
      using Cons.IH [of "s\<lparr>world := w\<rparr>" inn io] Cons.prems True by (auto simp: ev)
  next
    case False
    let ?tok = "aba_guard io OR k" and ?io1 = "if tok = aba_guard io OR k then deliver E r io else io"
    obtain ts inn1 where d: "dispatch E tok r inn = (ts, inn1)" by fastforce
    let ?s1 = "s\<lparr>inners := (inners s)(a \<mapsto> inn1), woken := woken s @ ts\<rparr>"
    have io1: "sl_get E (io_dispatch inn1) k = Some ?io1" "aba_guard ?io1 = aba_guard io"
      "readiness ?io1 = readiness io OR (if tok = ?tok then r else 0)"
      using dispatch_entry [OF assms(1) Cons.prems(2,3), of tok r] d by (auto simp: deliver_def)
    have "inner_ok E inn1" using dispatch_ok [OF assms(1) Cons.prems(2), of tok r] d by simp
    from Cons.IH [OF _ this io1(1), of ?s1] obtain s' inn' io' ts' where
      IH: "process_events E a evs ?s1 = (Ret (), s')" "inners s' a = Some inn'" "inner_ok E inn'"
      "sl_get E (io_dispatch inn') k = Some io'" "aba_guard io' = aba_guard io"
      "readiness io' = readiness io OR event_bits ?tok (ev # evs)" "woken s' = woken s @ ts @ ts'"
      "\<And>d t. waiter E d ?io1 = Some t \<Longrightarrow> event_bits ?tok evs AND wake_mask E d \<noteq> 0 \<Longrightarrow> t \<in> set ts'"
      unfolding io1(2,3) ev by (auto simp: or.assoc)
    have "t \<in> set (ts @ ts')"
      if "waiter E e io = Some t" "event_bits ?tok (ev # evs) AND wake_mask E e \<noteq> 0" for e t
      using woken_or_waiting [OF assms(1) Cons.prems(2,3) that(1), of tok r "event_bits ?tok evs"] that(2) d IH(8)
      by (auto simp: ev)
    moreover have "process_events E a (ev # evs) s = (Ret (), s')"
      using IH(1) Cons.prems(1) False d by (simp add: ev Reactor_dispatch_def)
    ultimately show ?thesis using IH(2-7) by blast
  qed
qed

lemma turn_runs:
  assumes "inners s (r_inner r) = Some inn" and "mio_poll E (inner_io inn) max_wait (world s) = (Inr evs, w)"
    and "process_events E (r_inner r) evs (s\<lparr>world := w\<rparr>) = (Ret (), s')"
  shows "Reactor_turn E max_wait (r, s) = (Ret (Inr ()), (r\<lparr>r_events := evs\<rparr>, s'))"
  using assms by (simp add: Reactor_turn_def Reactor_poll_def op_simps bnd_def)

text \<open>C8: one turn of the event loop that receives \<open>evs\<close> from mio returns \<^verbatim>\<open>Ok\<close>, and afterwards every live
  source has, on top of what it had, the union of the readiness of exactly the events that carried
  its token; wakeup events and stale tokens contribute nothing. A task waiting on the source is woken
  if any of these events concerns its direction.\<close>

theorem Reactor_turn_accumulates:
  assumes "ext_ok E" and "\<And>p r w. fst (mio_set_readiness E p r w) = Inr ()"
    and "inners s (r_inner r) = Some inn" and "inner_ok E inn"
    and "sl_get E (io_dispatch inn) k = Some io"
    and "mio_poll E (inner_io inn) max_wait (world s) = (Inr evs, w)"
  shows "\<exists>s' inn' io' ts.
    Reactor_turn E max_wait (r, s) = (Ret (Inr ()), (r\<lparr>r_events := evs\<rparr>, s')) \<and>
    inners s' (r_inner r) = Some inn' \<and> inner_ok E inn' \<and>
    sl_get E (io_dispatch inn') k = Some io' \<and> aba_guard io' = aba_guard io \<and>
    readiness io' = readiness io OR event_bits (aba_guard io OR k) evs \<and> woken s' = woken s @ ts \<and>
    (\<forall>d t. waiter E d io = Some t \<and> event_bits (aba_guard io OR k) evs AND wake_mask E d \<noteq> 0 \<longrightarrow> t \<in> set ts)"
proof -
  have live: "inners (s\<lparr>world := w\<rparr>) (r_inner r) = Some inn" using assms(3) by simp
  from process_events_accumulates [OF assms(1,2) live assms(4,5), of evs]
  obtain s' where "process_events E (r_inner r) evs (s\<lparr>world := w\<rparr>) = (Ret (), s')"
    "\<exists>inn' io' ts. inners s' (r_inner r) = Some inn' \<and> inner_ok E inn' \<and>
      sl_get E (io_dispatch inn') k = Some io' \<and> aba_guard io' = aba_guard io \<and>
      readiness io' = readiness io OR event_bits (aba_guard io OR k) evs \<and> woken s' = woken s @ ts \<and>
      (\<forall>d t. waiter E d io = Some t \<and> event_bits (aba_guard io OR k) evs AND wake_mask E d \<noteq> 0 \<longrightarrow> t \<in> set ts)"
    by auto
  with turn_runs [OF assms(3,6)] show ?thesis by blast
qed

theorem Reactor_turn_accumulates_witness:
  "\<exists>s'. Reactor_turn (std_ext [(0, 1), (4194303, 1), (4194304, 2)]) None
       (\<lparr>r_events = [], r_inner = 16, wakeup_registration = 0\<rparr>, sys0\<lparr>inners := [16 \<mapsto> inner1]\<rparr>) =
     (Ret (Inr ()), (\<lparr>r_events = [(0, 1), (4194303, 1), (4194304, 2)], r_inner = 16, wakeup_registration = 0\<rparr>, s'))"
proof -
  let ?evs = "[(0, 1), (4194303, 1), (4194304, 2)] :: event list"
  let ?s = "sys0\<lparr>inners := [16 \<mapsto> inner1]\<rparr>"
  let ?r = "\<lparr>r_events = [], r_inner = 16, wakeup_registration = 0\<rparr>"
  have "inners ?s (r_inner ?r) = Some inner1" by simp
  moreover have "sl_get (std_ext ?evs) (io_dispatch inner1) 0 =
      Some \<lparr>aba_guard = 0, readiness = 0, reader = Some 3, writer = Some 4\<rparr>"
    by (simp add: inner1_def std_ext_def ls_get_def)
  moreover have "fst (mio_set_readiness (std_ext ?evs) p r w) = Inr ()" for p r w
    by (simp add: std_ext_def)
  moreover have "mio_poll (std_ext ?evs) (inner_io inner1) None (world ?s) = (Inr ?evs, 0)"
    by (simp add: std_ext_def sys0_def)
  ultimately show ?thesis
    using Reactor_turn_accumulates [OF std_ext_ok _ _ inner1_ok, of ?evs ?s ?r 0] by fastforce
qed

end
