(* ===== verification/Background_Thread.thy ===== *)
theory Background_Thread
  imports Reactor_Core
begin

text \<open>
  \<^verbatim>\<open>src/reactor/background.rs\<close>: the reactor on a thread of its own. The first part has the operations
  one by one; the second is the shutdown handshake between the thread that drops the
  \<^verbatim>\<open>Background\<close> handle and the reactor thread, as a step relation in which every atomic access of
  either thread is a step of its own.
\<close>

section \<open>Data\<close>

record 'aw Shared =
  shutdown :: usize
  shutdown_task :: 'aw

text \<open>
  \<^verbatim>\<open>Inner\<close> is the reactor's handle and a reference to the \<^verbatim>\<open>Shared\<close> cell; the cell itself is owned by
  both threads and passed to the operations beside it.
\<close>

record Background =
  bg_inner :: "Handle option"

record Shutdown =
  sd_inner :: Handle

definition SHUTDOWN_IDLE :: usize where "SHUTDOWN_IDLE = 1"
definition SHUTDOWN_NOW :: usize where "SHUTDOWN_NOW = 2"
definition SHUTDOWN :: usize where "SHUTDOWN = 3"

section \<open>Handles of a reactor\<close>

definition Handle_as_priv :: "Handle \<Rightarrow> HandlePriv option" where
  "Handle_as_priv h = h_inner h"

definition Handle_into_priv :: "Handle \<Rightarrow> HandlePriv option" where
  "Handle_into_priv h = h_inner h"

definition Handle_default :: Handle where
  "Handle_default = \<lparr>h_inner = None\<rparr>"

text \<open>\<^verbatim>\<open>Weak::upgrade\<close>: the shared state, if the reactor is still alive.\<close>

definition HandlePriv_inner :: "HandlePriv \<Rightarrow> ('sl, 'w) sys \<Rightarrow> 'sl inner option" where
  "HandlePriv_inner h s = inners s (hp_inner h)"

definition HandlePriv_clone :: "HandlePriv \<Rightarrow> (('sl, 'w) sys, HandlePriv) op" where
  "HandlePriv_clone h s = (Ret h, s\<lparr>weak := (weak s)(hp_inner h := Suc (weak s (hp_inner h)))\<rparr>)"

definition HandlePriv_drop :: "HandlePriv \<Rightarrow> ('sl, 'w) sys \<Rightarrow> ('sl, 'w) sys" where
  "HandlePriv_drop h s = s\<lparr>weak := (weak s)(hp_inner h := weak s (hp_inner h) - 1)\<rparr>"

definition Handle_drop :: "Handle \<Rightarrow> ('sl, 'w) sys \<Rightarrow> ('sl, 'w) sys" where
  "Handle_drop h s = (case h_inner h of None \<Rightarrow> s | Some p \<Rightarrow> HandlePriv_drop p s)"

definition Handle_clone :: "Handle \<Rightarrow> (('sl, 'w) sys, Handle) op" where
  "Handle_clone h = (case h_inner h of
      None \<Rightarrow> ret h
    | Some p \<Rightarrow> bnd (HandlePriv_clone p) (\<lambda>q. ret \<lparr>h_inner = Some q\<rparr>))"

definition HandlePriv_wakeup :: "('aw, 'sl, 'w) ext \<Rightarrow> HandlePriv \<Rightarrow> (('sl, 'w) sys, unit) op" where
  "HandlePriv_wakeup E h s =
     (case HandlePriv_inner h s of
        None \<Rightarrow> (Ret (), s)
      | Some inn \<Rightarrow>
          (case mio_set_readiness E (inner_wakeup inn) (readable E) (world s) of
             (Inl e, w) \<Rightarrow> (Panic ''called `Result::unwrap()` on an `Err` value'', s\<lparr>world := w\<rparr>)
           | (Inr _, w) \<Rightarrow> (Ret (), s\<lparr>world := w\<rparr>)))"

definition Handle_wakeup :: "('aw, 'sl, 'w) ext \<Rightarrow> Handle \<Rightarrow> (('sl, 'w) sys, unit) op" where
  "Handle_wakeup E h = (case Handle_as_priv h of
      None \<Rightarrow> ret ()
    | Some p \<Rightarrow> HandlePriv_wakeup E p)"

definition Handle_fmt :: "Handle \<Rightarrow> string" where
  "Handle_fmt h = ''Handle''"

definition HandlePriv_fmt :: "HandlePriv \<Rightarrow> string" where
  "HandlePriv_fmt h = ''HandlePriv''"

section \<open>Operations of the background handle\<close>

text \<open>
  \<^verbatim>\<open>Background::new\<close>: when the thread cannot be spawned the closure is dropped, and the reactor with
  it. On success the reactor belongs to the new thread, which executes \<open>run\<close> on the returned cell.
\<close>

definition Background_new ::
  "('aw, 'sl, 'w) ext \<Rightarrow> Reactor \<Rightarrow> (('sl, 'w) sys, (Background \<times> 'aw Shared) io_result) op" where
  "Background_new E r =
     bnd (Reactor_handle r) (\<lambda>h.
     bnd (Handle_clone h) (\<lambda>handle s.
       (let s1 = Handle_drop h s;
            shared = \<lparr>shutdown = 0, shutdown_task = aw_new E\<rparr>
        in case thread_spawn E (world s1) of
             (Inl e, w) \<Rightarrow> (Ret (Inl e), Handle_drop handle (Reactor_drop E r (s1\<lparr>world := w\<rparr>)))
           | (Inr _, w) \<Rightarrow> (Ret (Inr (\<lparr>bg_inner = Some handle\<rparr>, shared)), s1\<lparr>world := w\<rparr>))))"

definition Reactor_background ::
  "('aw, 'sl, 'w) ext \<Rightarrow> Reactor \<Rightarrow> (('sl, 'w) sys, (Background \<times> 'aw Shared) io_result) op" where
  "Reactor_background E r = Background_new E r"

text \<open>\<^verbatim>\<open>forget\<close> drops the handle; the drop of the emptied \<^verbatim>\<open>Background\<close> that follows does nothing.\<close>

definition Background_forget :: "Background \<Rightarrow> ('sl, 'w) sys \<Rightarrow> ('sl, 'w) sys" where
  "Background_forget b s = (case bg_inner b of None \<Rightarrow> s | Some h \<Rightarrow> Handle_drop h s)"

definition is_shutdown :: "'aw Shared \<Rightarrow> bool" where
  "is_shutdown sh = (shutdown sh = SHUTDOWN)"

text \<open>
  \<^verbatim>\<open>shutdown_now\<close>. \<open>acts\<close> are the values the compare-and-swap finds, one per iteration; without
  interference there is one, the current value. The loop ends at the latest when they are used up.
\<close>

fun shutdown_now_loop ::
  "('aw, 'sl, 'w) ext \<Rightarrow> Handle \<Rightarrow> usize list \<Rightarrow> usize \<Rightarrow> ('aw Shared \<times> ('sl, 'w) sys, unit) op" where
  "shutdown_now_loop E h [] cur x = (if SHUTDOWN_NOW \<le> cur then (Ret (), x) else (OutOfFuel, x))"
| "shutdown_now_loop E h (act # acts) cur x =
     (if SHUTDOWN_NOW \<le> cur then (Ret (), x)
      else if act = cur
      then (case Handle_wakeup E h (snd x) of (r, s') \<Rightarrow> (r, ((fst x)\<lparr>shutdown := SHUTDOWN_NOW\<rparr>, s')))
      else shutdown_now_loop E h acts act ((fst x)\<lparr>shutdown := act\<rparr>, snd x))"

definition shutdown_now :: "('aw, 'sl, 'w) ext \<Rightarrow> Handle \<Rightarrow> ('aw Shared \<times> ('sl, 'w) sys, unit) op" where
  "shutdown_now E h = (\<lambda>(sh, s). shutdown_now_loop E h [shutdown sh] (shutdown sh) (sh, s))"

text \<open>The \<^verbatim>\<open>Future\<close> of \<^verbatim>\<open>Shutdown\<close>: the waker is registered before the state is read.\<close>

definition Shutdown_poll ::
  "('aw, 'sl, 'w) ext \<Rightarrow> task \<Rightarrow> 'aw Shared \<Rightarrow> (unit + unit) poll \<times> 'aw Shared" where
  "Shutdown_poll E cx sh =
     (let sh1 = sh\<lparr>shutdown_task := aw_register E (shutdown_task sh) cx\<rparr>
      in if \<not> is_shutdown sh1 then (Pending, sh1) else (Ready (Inr ()), sh1))"

text \<open>One pass of the loop of \<^verbatim>\<open>run\<close>: \<open>Inl ()\<close> is \<^verbatim>\<open>break\<close>, \<open>Inr ()\<close> another pass.\<close>

definition run_pass ::
  "('aw, 'sl, 'w) ext \<Rightarrow> 'aw Shared \<Rightarrow> (Reactor \<times> ('sl, 'w) sys, unit + unit) op" where
  "run_pass E sh = (\<lambda>(r, s).
     (if shutdown sh = SHUTDOWN_NOW then (Ret (Inl ()), (r, s))
      else if shutdown sh = SHUTDOWN_IDLE \<and> fst (Reactor_is_idle E r s) = Ret True
           then (Ret (Inl ()), (r, s))
      else bnd (Reactor_turn E None) (\<lambda>res. case res of
             Inl e \<Rightarrow> panic ''called `Result::unwrap()` on an `Err` value''
           | Inr _ \<Rightarrow> ret (Inr ())) (r, s)))"

text \<open>What \<^verbatim>\<open>run\<close> does after the loop.\<close>

definition run_finish ::
  "('aw, 'sl, 'w) ext \<Rightarrow> Reactor \<Rightarrow> 'aw Shared \<Rightarrow> ('sl, 'w) sys \<Rightarrow> 'aw Shared \<times> ('sl, 'w) sys" where
  "run_finish E r sh s =
     (let s1 = Reactor_drop E r s;
          sh1 = sh\<lparr>shutdown := SHUTDOWN\<rparr>;
          (wk, cell) = aw_wake E (shutdown_task sh1)
      in (sh1\<lparr>shutdown_task := cell\<rparr>, s1\<lparr>woken := woken s1 @ wake_of wk\<rparr>))"

text \<open>
  The whole of \<^verbatim>\<open>run\<close>, for as many passes as there is fuel; \<open>obs\<close> gives the \<^verbatim>\<open>Shared\<close> cell as the
  \<open>n\<close>-th pass finds it, since other threads write it.
\<close>

fun run :: "('aw, 'sl, 'w) ext \<Rightarrow> nat \<Rightarrow> (nat \<Rightarrow> 'aw Shared) \<Rightarrow> nat \<Rightarrow> Reactor \<Rightarrow> ('sl, 'w) sys \<Rightarrow>
    ('aw Shared outcome \<times> ('sl, 'w) sys)" where
  "run E 0 obs n r s = (OutOfFuel, s)"
| "run E (Suc fuel) obs n r s =
     (case run_pass E (obs n) (r, s) of
        (Ret (Inl _), (r', s')) \<Rightarrow> (case run_finish E r' (obs n) s' of (sh, s'') \<Rightarrow> (Ret sh, s''))
      | (Ret (Inr _), (r', s')) \<Rightarrow> run E fuel obs (Suc n) r' s'
      | (Panic m, (r', s')) \<Rightarrow> (Panic m, s')
      | (OutOfFuel, (r', s')) \<Rightarrow> (OutOfFuel, s'))"

section \<open>The shutdown handshake\<close>

datatype run_pc = RTop | RCheck usize | RTurn | RDrop | RStore | RWake | RDone | RPanicked

datatype drop_pc = MStart | MLoop usize | MWakeup | MPoll | MCheck | MParked | MDone

text \<open>
  \<open>wake_pending\<close> is the level-triggered readiness of the reactor's wakeup registration, \<open>alive\<close>
  whether the reactor exists, \<open>notified\<close> whether the dropping thread, which is blocked in
  \<^verbatim>\<open>executor::block_on\<close>, has been woken. \<open>main\<close> is its waker.
\<close>

record 'aw hs =
  hs_shared :: "'aw Shared"
  run_at :: run_pc
  drop_at :: drop_pc
  wake_pending :: bool
  alive :: bool
  notified :: bool

abbreviation (input) main :: task where "main \<equiv> 0"

definition hs_init :: "('aw, 'sl, 'w) ext \<Rightarrow> 'aw hs \<Rightarrow> bool" where
  "hs_init E x \<longleftrightarrow> x = \<lparr>hs_shared = \<lparr>shutdown = 0, shutdown_task = aw_new E\<rparr>, run_at = RTop,
      drop_at = MStart, wake_pending = False, alive = True, notified = False\<rparr>"

text \<open>\<open>errs\<close> says whether \<^verbatim>\<open>Poll::poll\<close> may fail, in which case \<^verbatim>\<open>turn(None).unwrap()\<close> panics.\<close>

inductive hs_step :: "('aw, 'sl, 'w) ext \<Rightarrow> bool \<Rightarrow> 'aw hs \<Rightarrow> 'aw hs \<Rightarrow> bool" for E errs where
  run_load: "run_at x = RTop \<Longrightarrow> hs_step E errs x (x\<lparr>run_at := RCheck (shutdown (hs_shared x))\<rparr>)"
| run_now: "run_at x = RCheck SHUTDOWN_NOW \<Longrightarrow> hs_step E errs x (x\<lparr>run_at := RDrop\<rparr>)"
| run_idle: "run_at x = RCheck SHUTDOWN_IDLE \<Longrightarrow> hs_step E errs x (x\<lparr>run_at := RDrop\<rparr>)"
| run_turn: "run_at x = RCheck v \<Longrightarrow> v \<noteq> SHUTDOWN_NOW \<Longrightarrow> hs_step E errs x (x\<lparr>run_at := RTurn\<rparr>)"
| turn_wakeup: "run_at x = RTurn \<Longrightarrow> wake_pending x \<Longrightarrow>
     hs_step E errs x (x\<lparr>run_at := RTop, wake_pending := False\<rparr>)"
| turn_event: "run_at x = RTurn \<Longrightarrow> hs_step E errs x (x\<lparr>run_at := RTop\<rparr>)"
| turn_error: "run_at x = RTurn \<Longrightarrow> errs \<Longrightarrow> hs_step E errs x (x\<lparr>run_at := RPanicked, alive := False\<rparr>)"
| run_drop: "run_at x = RDrop \<Longrightarrow> hs_step E errs x (x\<lparr>run_at := RStore, alive := False\<rparr>)"
| run_store: "run_at x = RStore \<Longrightarrow>
     hs_step E errs x (x\<lparr>run_at := RWake, hs_shared := (hs_shared x)\<lparr>shutdown := SHUTDOWN\<rparr>\<rparr>)"
| run_wake: "run_at x = RWake \<Longrightarrow> aw_wake E (shutdown_task (hs_shared x)) = (wk, cell) \<Longrightarrow>
     hs_step E errs x (x\<lparr>run_at := RDone, hs_shared := (hs_shared x)\<lparr>shutdown_task := cell\<rparr>,
       notified := notified x \<or> wk = Some main\<rparr>)"
| drop_load: "drop_at x = MStart \<Longrightarrow> hs_step E errs x (x\<lparr>drop_at := MLoop (shutdown (hs_shared x))\<rparr>)"
| drop_seen: "drop_at x = MLoop c \<Longrightarrow> SHUTDOWN_NOW \<le> c \<Longrightarrow> hs_step E errs x (x\<lparr>drop_at := MPoll\<rparr>)"
| drop_cas: "drop_at x = MLoop c \<Longrightarrow> \<not> SHUTDOWN_NOW \<le> c \<Longrightarrow>
     compare_and_swap (shutdown (hs_shared x)) c SHUTDOWN_NOW = (act, v) \<Longrightarrow>
     hs_step E errs x (x\<lparr>hs_shared := (hs_shared x)\<lparr>shutdown := v\<rparr>,
       drop_at := (if act = c then MWakeup else MLoop act)\<rparr>)"
| drop_wakeup: "drop_at x = MWakeup \<Longrightarrow>
     hs_step E errs x (x\<lparr>drop_at := MPoll, wake_pending := wake_pending x \<or> alive x\<rparr>)"
| drop_register: "drop_at x = MPoll \<Longrightarrow>
     hs_step E errs x (x\<lparr>drop_at := MCheck,
       hs_shared := (hs_shared x)\<lparr>shutdown_task := aw_register E (shutdown_task (hs_shared x)) main\<rparr>\<rparr>)"
| drop_ready: "drop_at x = MCheck \<Longrightarrow> is_shutdown (hs_shared x) \<Longrightarrow>
     hs_step E errs x (x\<lparr>drop_at := MDone\<rparr>)"
| drop_pending: "drop_at x = MCheck \<Longrightarrow> \<not> is_shutdown (hs_shared x) \<Longrightarrow>
     hs_step E errs x (x\<lparr>drop_at := MParked\<rparr>)"
| drop_resume: "drop_at x = MParked \<Longrightarrow> notified x \<Longrightarrow>
     hs_step E errs x (x\<lparr>drop_at := MPoll, notified := False\<rparr>)"

definition run_gone :: "run_pc \<Rightarrow> bool" where
  "run_gone p \<longleftrightarrow> p \<in> {RStore, RWake, RDone, RPanicked}"

text \<open>
  The invariant of the handshake. Only the dropping thread leaves state 0; the two conditions
  on \<open>RTurn\<close> and \<open>MParked\<close> say that no wakeup is lost in either direction.
\<close>

definition hs_inv :: "('aw, 'sl, 'w) ext \<Rightarrow> 'aw hs \<Rightarrow> bool" where
  "hs_inv E x \<longleftrightarrow>
     (let v = shutdown (hs_shared x); held = aw_held E (shutdown_task (hs_shared x)) in
     v \<in> {0, 2, 3} \<and>
     (v = 3 \<longleftrightarrow> run_at x = RWake \<or> run_at x = RDone) \<and>
     (run_at x = RDrop \<or> run_at x = RStore \<longrightarrow> v = 2) \<and>
     (\<forall>u. run_at x = RCheck u \<longrightarrow> u = 0 \<or> u = 2 \<and> v = 2) \<and>
     (drop_at x = MStart \<longrightarrow> v = 0) \<and>
     (\<forall>c. drop_at x = MLoop c \<longrightarrow> c = 0 \<and> v = 0) \<and>
     (drop_at x \<in> {MWakeup, MPoll, MCheck, MParked, MDone} \<longrightarrow> v \<noteq> 0) \<and>
     (alive x \<longleftrightarrow> \<not> run_gone (run_at x)) \<and>
     (v = 2 \<and> (run_at x = RTurn \<or> run_at x = RCheck 0) \<longrightarrow> wake_pending x \<or> drop_at x = MWakeup) \<and>
     (drop_at x = MCheck \<and> run_at x \<noteq> RDone \<longrightarrow> held = Some main) \<and>
     (drop_at x = MParked \<longrightarrow> notified x \<or> held = Some main \<and> run_at x \<noteq> RDone) \<and>
     (drop_at x = MDone \<longrightarrow> v = 3))"

text \<open>A schedule that completes the shutdown: the dropping thread up to its wakeup, then the reactor
  thread to its end, then the dropping thread. Every step of it decreases \<open>hs_rank\<close>.\<close>

fun run_rank :: "run_pc \<Rightarrow> nat" where
  "run_rank (RCheck v) = (if v = 0 then 9 else 6)"
| "run_rank RTurn = 8"
| "run_rank RTop = 7"
| "run_rank RDrop = 5"
| "run_rank RStore = 4"
| "run_rank RWake = 3"
| "run_rank _ = 0"

fun drop_rank :: "drop_pc \<Rightarrow> nat" where
  "drop_rank MStart = 300"
| "drop_rank (MLoop _) = 200"
| "drop_rank MWakeup = 100"
| "drop_rank MParked = 3"
| "drop_rank MPoll = 2"
| "drop_rank MCheck = 1"
| "drop_rank MDone = 0"

definition hs_rank :: "'aw hs \<Rightarrow> nat" where
  "hs_rank x = drop_rank (drop_at x) + 10 * run_rank (run_at x)"

abbreviation hs_reach :: "('aw, 'sl, 'w) ext \<Rightarrow> bool \<Rightarrow> 'aw hs \<Rightarrow> bool" where
  "hs_reach E errs \<equiv> reach (\<lambda>x. ext_ok E \<and> hs_init E x) (hs_step E errs)"

definition hs0 :: "task option hs" where
  "hs0 = \<lparr>hs_shared = \<lparr>shutdown = 0, shutdown_task = None\<rparr>, run_at = RTop,
      drop_at = MStart, wake_pending = False, alive = True, notified = False\<rparr>"

definition hs1 :: "task option hs" where
  "hs1 = hs0\<lparr>run_at := RTurn, drop_at := MPoll, wake_pending := True,
     hs_shared := \<lparr>shutdown = 2, shutdown_task = None\<rparr>\<rparr>"

section \<open>Correctness of the handshake\<close>

lemmas shutdown_consts = SHUTDOWN_IDLE_def SHUTDOWN_NOW_def SHUTDOWN_def

lemmas hs_inv_simps = hs_inv_def Let_def run_gone_def shutdown_consts compare_and_swap_def is_shutdown_def

lemma hs_init_inv: "ext_ok E \<Longrightarrow> hs_init E x \<Longrightarrow> hs_inv E x"
  by (simp add: hs_init_def hs_inv_def run_gone_def)

lemma hs_step_inv:
  assumes "hs_step E errs x y" and "ext_ok E" and "hs_inv E x"
  shows "hs_inv E y"
  using assms(1)
proof cases
  case (run_wake wk cell)
  note y = run_wake(1) and pc = run_wake(2)
  have "aw_held E cell = None" and wk: "wk = aw_held E (shutdown_task (hs_shared x))"
    using run_wake(3) waker_laws(5,6) [OF assms(2), of "shutdown_task (hs_shared x)"] by simp_all
  note inv = assms(3) [unfolded hs_inv_def Let_def]
  have v: "shutdown (hs_shared x) = 3" using inv pc by blast
  moreover have "\<not> alive x" using inv pc by (simp add: run_gone_def)
  moreover have "drop_at x \<noteq> MStart" using inv v by force
  moreover have "drop_at x \<noteq> MLoop c" for c using inv v by force
  moreover have "drop_at x = MParked \<Longrightarrow> notified x \<or> wk = Some main" using inv wk by blast
  ultimately show ?thesis unfolding y by (auto simp: hs_inv_def run_gone_def)
next
  case run_load
  with assms(2,3) show ?thesis by (cases "drop_at x") (auto simp: hs_inv_simps)
next
  case run_now
  with assms(2,3) show ?thesis by (cases "drop_at x") (auto simp: hs_inv_simps)
next
  case run_idle
  with assms(2,3) show ?thesis by (cases "drop_at x") (auto simp: hs_inv_simps)
next
  case run_turn
  with assms(2,3) show ?thesis by (cases "drop_at x") (auto simp: hs_inv_simps)
next
  case turn_wakeup
  with assms(2,3) show ?thesis by (cases "drop_at x") (auto simp: hs_inv_simps)
next
  case turn_event
  with assms(2,3) show ?thesis by (cases "drop_at x") (auto simp: hs_inv_simps)
next
  case turn_error
  with assms(2,3) show ?thesis by (cases "drop_at x") (auto simp: hs_inv_simps)
next
  case run_drop
  with assms(2,3) show ?thesis by (cases "drop_at x") (auto simp: hs_inv_simps)
next
  case run_store
  with assms(2,3) show ?thesis by (cases "drop_at x") (auto simp: hs_inv_simps)
qed (use assms(2,3) in \<open>(cases "run_at x"; auto simp: hs_inv_simps split: if_splits)+\<close>)

interpretation handshake: inductive_invariant
  "\<lambda>x. ext_ok E \<and> hs_init E x" "hs_step E errs" "\<lambda>x. ext_ok E \<and> hs_inv E x" for E errs
  by unfold_locales (auto intro: hs_init_inv hs_step_inv)

lemma hs_invD:
  assumes "hs_inv E x"
  shows "drop_at x = MLoop c \<Longrightarrow> c = 0 \<and> shutdown (hs_shared x) = 0"
    and "drop_at x \<in> {MPoll, MCheck, MParked} \<Longrightarrow> shutdown (hs_shared x) \<noteq> 0"
    and "run_at x = RCheck u \<Longrightarrow> u = 0 \<or> u = 2 \<and> shutdown (hs_shared x) = 2"
    and "run_at x = RTurn \<Longrightarrow> drop_at x \<in> {MPoll, MCheck, MParked} \<Longrightarrow> wake_pending x"
    and "run_at x = RTop \<Longrightarrow> drop_at x \<in> {MPoll, MCheck, MParked} \<Longrightarrow> shutdown (hs_shared x) = 2"
    and "run_at x = RDone \<Longrightarrow> shutdown (hs_shared x) = 3"
    and "run_at x = RDone \<Longrightarrow> drop_at x = MParked \<Longrightarrow> notified x"
proof -
  note inv = assms [unfolded hs_inv_def Let_def]
  show "drop_at x = MLoop c \<Longrightarrow> c = 0 \<and> shutdown (hs_shared x) = 0" using inv by blast
  show 2: "drop_at x \<in> {MPoll, MCheck, MParked} \<Longrightarrow> shutdown (hs_shared x) \<noteq> 0" using inv by blast
  show "run_at x = RCheck u \<Longrightarrow> u = 0 \<or> u = 2 \<and> shutdown (hs_shared x) = 2" using inv by blast
  show "run_at x = RDone \<Longrightarrow> shutdown (hs_shared x) = 3" using inv by blast
  show "run_at x = RDone \<Longrightarrow> drop_at x = MParked \<Longrightarrow> notified x" using inv by blast
  have v: "shutdown (hs_shared x) = 2"
    if "drop_at x \<in> {MPoll, MCheck, MParked}" "run_at x \<noteq> RWake" "run_at x \<noteq> RDone"
    using inv 2 [OF that(1)] that(2,3) by blast
  show "run_at x = RTop \<Longrightarrow> drop_at x \<in> {MPoll, MCheck, MParked} \<Longrightarrow> shutdown (hs_shared x) = 2"
    using v by simp
  show "run_at x = RTurn \<Longrightarrow> drop_at x \<in> {MPoll, MCheck, MParked} \<Longrightarrow> wake_pending x"
    using v inv by auto
qed

lemma drop_progress:
  assumes "hs_inv E x" and "drop_at x = MStart \<or> drop_at x = MLoop c \<or> drop_at x = MWakeup"
  shows "\<exists>y. hs_step E errs x y \<and> run_at y = run_at x \<and> hs_rank y < hs_rank x"
  using assms(2)
proof (elim disjE)
  assume "drop_at x = MStart"
  from drop_load [OF this, of E errs] this show ?thesis by (force simp: hs_rank_def)
next
  assume pc: "drop_at x = MLoop c"
  then have "c = 0" "shutdown (hs_shared x) = 0" using hs_invD(1) [OF assms(1)] by blast+
  moreover have "\<not> SHUTDOWN_NOW \<le> (0 :: usize)" by (simp add: shutdown_consts)
  ultimately have "hs_step E errs x (x\<lparr>hs_shared := (hs_shared x)\<lparr>shutdown := SHUTDOWN_NOW\<rparr>, drop_at := MWakeup\<rparr>)"
    using drop_cas [of x c 0 SHUTDOWN_NOW E errs] pc by (simp add: compare_and_swap_def)
  with pc show ?thesis by (force simp: hs_rank_def)
next
  assume "drop_at x = MWakeup"
  from drop_wakeup [OF this, of E errs] this show ?thesis by (force simp: hs_rank_def)
qed

lemma run_progress:
  assumes "hs_inv E x" and "drop_at x \<in> {MPoll, MCheck, MParked}"
    and "run_at x \<noteq> RDone" and "run_at x \<noteq> RPanicked"
  shows "\<exists>y. hs_step E errs x y \<and> run_at y \<noteq> RPanicked \<and> hs_rank y < hs_rank x"
proof (cases "run_at x")
  case RTop
  from run_load [OF this, of E errs] this hs_invD(5) [OF assms(1) RTop assms(2)] show ?thesis
    by (force simp: hs_rank_def)
next
  case (RCheck u)
  consider "u = 0" | "u = SHUTDOWN_NOW" using hs_invD(3) [OF assms(1) RCheck] by (auto simp: shutdown_consts)
  then show ?thesis
  proof cases
    case 1
    with run_turn [OF RCheck, of E errs] RCheck show ?thesis by (force simp: hs_rank_def shutdown_consts)
  next
    case 2
    with run_now [of x E errs] RCheck show ?thesis by (force simp: hs_rank_def shutdown_consts)
  qed
next
  case RTurn
  from turn_wakeup [OF RTurn hs_invD(4) [OF assms(1) RTurn assms(2)], of E errs] RTurn show ?thesis
    by (force simp: hs_rank_def)
next
  case RDrop
  from run_drop [OF this, of E errs] this show ?thesis by (force simp: hs_rank_def)
next
  case RStore
  from run_store [OF this, of E errs] this show ?thesis by (force simp: hs_rank_def)
next
  case RWake
  obtain wk cell where "aw_wake E (shutdown_task (hs_shared x)) = (wk, cell)" by fastforce
  from run_wake [OF RWake this, of errs] RWake show ?thesis by (force simp: hs_rank_def)
qed (use assms in auto)

lemma end_progress:
  assumes "hs_inv E x" and "drop_at x \<in> {MPoll, MCheck, MParked}" and "run_at x = RDone"
  shows "\<exists>y. hs_step E errs x y \<and> run_at y = run_at x \<and> hs_rank y < hs_rank x"
proof -
  have sd: "is_shutdown (hs_shared x)"
    using hs_invD(6) [OF assms(1,3)] by (simp add: is_shutdown_def shutdown_consts)
  consider "drop_at x = MPoll" | "drop_at x = MCheck" | "drop_at x = MParked"
    using assms(2) by blast
  then show ?thesis
  proof cases
    case 1
    from drop_register [OF this, of E errs] this show ?thesis by (force simp: hs_rank_def)
  next
    case 2
    from drop_ready [OF 2 sd, of E errs] 2 show ?thesis
      by (force simp: hs_rank_def)
  next
    case 3
    from drop_resume [OF 3 hs_invD(7) [OF assms(1,3) 3], of E errs] 3 show ?thesis
      by (force simp: hs_rank_def)
  qed
qed

lemma hs_completes:
  assumes "ext_ok E" and "hs_inv E x" and "run_at x \<noteq> RPanicked"
  shows "\<exists>y. (hs_step E errs)\<^sup>*\<^sup>* x y \<and> drop_at y = MDone"
  using assms(2,3)
proof (induction "hs_rank x" arbitrary: x rule: less_induct)
  case less
  show ?case
  proof (cases "drop_at x = MDone")
    case True
    then show ?thesis by blast
  next
    case False
    then have "\<exists>y. hs_step E errs x y \<and> run_at y \<noteq> RPanicked \<and> hs_rank y < hs_rank x"
      using drop_progress [OF less.prems(1)] run_progress [OF less.prems(1)] end_progress [OF less.prems(1)]
        less.prems(2) by (cases "drop_at x") (metis insertCI)+
    then obtain y where y: "hs_step E errs x y" "run_at y \<noteq> RPanicked" "hs_rank y < hs_rank x" by blast
    from less.hyps [OF y(3) hs_step_inv [OF y(1) assms(1) less.prems(1)] y(2)]
    obtain z where "(hs_step E errs)\<^sup>*\<^sup>* y z" "drop_at z = MDone" by blast
    with y(1) show ?thesis by (meson converse_rtranclp_into_rtranclp)
  qed
qed

section \<open>Properties\<close>

lemma panic_only_by_error:
  "hs_step E False x y \<Longrightarrow> run_at x \<noteq> RPanicked \<Longrightarrow> run_at y \<noteq> RPanicked"
  by (erule hs_step.cases) auto

interpretation no_panic: inductive_invariant
  "\<lambda>x. ext_ok E \<and> hs_init E x" "hs_step E False" "\<lambda>x. run_at x \<noteq> RPanicked" for E
  by unfold_locales (auto simp: hs_init_def dest: panic_only_by_error)

text \<open>C9: dropping a \<^verbatim>\<open>Background\<close> can always complete: from every state the two threads can reach, as long
  as \<^verbatim>\<open>Poll::poll\<close> does not fail, some continuation ends \<^verbatim>\<open>block_on\<close> of the dropping thread.\<close>

theorem shutdown_can_complete:
  assumes "hs_reach E False x"
  shows "\<exists>y. (hs_step E False)\<^sup>*\<^sup>* x y \<and> drop_at y = MDone"
  using handshake.reach_inv [OF assms] no_panic.reach_inv [OF assms]
  by (auto intro: hs_completes)

lemma hs0_reach: "hs_reach (std_ext []) errs hs0"
  by (rule reach_init) (simp add: std_ext_ok hs_init_def hs0_def, simp add: std_ext_def)

theorem shutdown_can_complete_witness:
  "\<exists>y. (hs_step (std_ext []) False)\<^sup>*\<^sup>* hs0 y \<and> drop_at y = MDone"
  by (rule shutdown_can_complete) (rule hs0_reach)


lemma hs1_reach: "hs_reach (std_ext []) errs hs1"
proof -
  let ?S = "hs_step (std_ext []) errs"
  let ?a = "hs0\<lparr>run_at := RCheck 0\<rparr>"
  let ?b = "hs0\<lparr>run_at := RTurn\<rparr>"
  let ?c = "hs0\<lparr>run_at := RTurn, drop_at := MLoop 0\<rparr>"
  let ?d = "hs0\<lparr>run_at := RTurn, drop_at := MWakeup, hs_shared := \<lparr>shutdown = 2, shutdown_task = None\<rparr>\<rparr>"
  have "?S hs0 ?a" using run_load [of hs0 "std_ext []" errs] by (simp add: hs0_def)
  moreover have "?S ?a ?b" using run_turn [of ?a 0 "std_ext []" errs] by (simp add: hs0_def shutdown_consts)
  moreover have "?S ?b ?c" using drop_load [of ?b "std_ext []" errs] by (simp add: hs0_def)
  moreover have "?S ?c ?d"
    using drop_cas [of ?c 0 0 SHUTDOWN_NOW "std_ext []" errs]
    by (simp add: hs0_def shutdown_consts compare_and_swap_def)
  moreover have "?S ?d hs1" using drop_wakeup [of ?d "std_ext []" errs] by (simp add: hs0_def hs1_def)
  ultimately show ?thesis using hs0_reach [of errs] by (meson reach_step)
qed


text \<open>C11: if \<^verbatim>\<open>turn\<close> ever fails, \<^verbatim>\<open>unwrap\<close> kills the reactor thread without storing \<^verbatim>\<open>SHUTDOWN\<close>, and a
  dropping thread then waits forever: a reachable state has it parked with no step left.\<close>

theorem shutdown_hangs_after_panic:
  "\<exists>x. hs_reach (std_ext []) True x \<and> drop_at x = MParked \<and> (\<forall>y. \<not> hs_step (std_ext []) True x y)"
proof -
  let ?S = "hs_step (std_ext []) True"
  let ?a = "hs1\<lparr>run_at := RPanicked, alive := False\<rparr>"
  let ?b = "?a\<lparr>drop_at := MCheck, hs_shared := \<lparr>shutdown = 2, shutdown_task = Some main\<rparr>\<rparr>"
  let ?c = "?b\<lparr>drop_at := MParked\<rparr>"
  have "?S hs1 ?a" using turn_error [of hs1 True "std_ext []"] by (simp add: hs1_def)
  moreover have "?S ?a ?b"
    using drop_register [of ?a "std_ext []" True] by (simp add: hs1_def) (simp add: std_ext_def)
  moreover have "?S ?b ?c"
    using drop_pending [of ?b "std_ext []" True] by (simp add: is_shutdown_def shutdown_consts)
  ultimately have "hs_reach (std_ext []) True ?c" using hs1_reach [of True] by (meson reach_step)
  moreover have "\<not> ?S ?c y" for y
    by (auto elim!: hs_step.cases simp: hs1_def hs0_def)
  ultimately show ?thesis by (intro exI [of _ ?c]) simp
qed

lemma process_events_total:
  assumes "ext_ok E" and "\<And>p r w. fst (mio_set_readiness E p r w) = Inr ()"
    and "inners s a = Some inn" and "inner_ok E inn"
  shows "\<exists>s' inn'. process_events E a evs s = (Ret (), s') \<and> inners s' a = Some inn' \<and> inner_ok E inn'"
  using assms(3,4)
proof (induction evs arbitrary: s inn)
  case Nil
  then show ?case by simp
next
  case (Cons ev evs)
  obtain tok r where ev: "ev = (tok, r)" by fastforce
  obtain w where w: "mio_set_readiness E (inner_wakeup inn) 0 (world s) = (Inr (), w)"
    using assms(2) by (metis (full_types) prod.collapse)
  obtain ts inn1 where d: "dispatch E tok r inn = (ts, inn1)" by fastforce
  have "inner_ok E inn1" using dispatch_ok [OF assms(1) Cons.prems(2), of tok r] d by simp
  then show ?case
    using Cons.IH [of "s\<lparr>world := w\<rparr>" inn] Cons.prems w
      Cons.IH [of "s\<lparr>inners := (inners s)(a \<mapsto> inn1), woken := woken s @ ts\<rparr>" inn1]
    by (auto simp: ev d Reactor_dispatch_def)
qed

lemma Reactor_turn_total:
  assumes "ext_ok E" and "\<And>p r w. fst (mio_set_readiness E p r w) = Inr ()"
    and "inners s (r_inner r) = Some inn" and "inner_ok E inn"
    and "mio_poll E (inner_io inn) d (world s) = (Inr evs, w)"
  shows "\<exists>s' inn'. Reactor_turn E d (r, s) = (Ret (Inr ()), (r\<lparr>r_events := evs\<rparr>, s')) \<and>
    inners s' (r_inner r) = Some inn' \<and> inner_ok E inn'"
proof -
  have "inners (s\<lparr>world := w\<rparr>) (r_inner r) = Some inn" using assms(3) by simp
  from process_events_total [OF assms(1,2) this assms(4), of evs]
  obtain s' inn' where P: "process_events E (r_inner r) evs (s\<lparr>world := w\<rparr>) = (Ret (), s')"
    "inners s' (r_inner r) = Some inn'" "inner_ok E inn'" by blast
  then have "Reactor_poll E d (r, s) = (Ret (Inr ()), (r\<lparr>r_events := evs\<rparr>, s'))"
    by (simp add: Reactor_poll_def assms(3,5))
  with P show ?thesis by (auto simp: Reactor_turn_def op_simps)
qed

lemma run_finish_done:
  assumes "ext_ok E"
  shows "is_shutdown (fst (run_finish E r sh s)) \<and> inners (snd (run_finish E r sh s)) (r_inner r) = None
    \<and> aw_held E (shutdown_task (fst (run_finish E r sh s))) = None
    \<and> (\<exists>ts. woken (snd (run_finish E r sh s)) = ts @ wake_of (aw_held E (shutdown_task sh)))"
proof -
  obtain wk cell where c: "aw_wake E (shutdown_task sh) = (wk, cell)" by fastforce
  then have "wk = aw_held E (shutdown_task sh)" "aw_held E cell = None"
    using waker_laws(5,6) [OF assms, of "shutdown_task sh"] by simp_all
  with c show ?thesis
    by (auto simp: run_finish_def Let_def Reactor_drop_def is_shutdown_def split: option.splits)
qed

lemma run_stops:
  assumes "ext_ok E" and "\<And>p r w. fst (mio_set_readiness E p r w) = Inr ()"
    and "\<And>p d w. \<exists>evs. fst (mio_poll E p d w) = Inr evs"
    and "\<And>m. m < k \<Longrightarrow> shutdown (obs (n + m)) = 0" and "shutdown (obs (n + k)) = SHUTDOWN_NOW"
    and "k < fuel" and "inners s (r_inner r) = Some inn" and "inner_ok E inn"
  shows "\<exists>s1 r1. run E fuel obs n r s =
      (case run_finish E r1 (obs (n + k)) s1 of (sh, s') \<Rightarrow> (Ret sh, s')) \<and> r_inner r1 = r_inner r"
  using assms(4-8)
proof (induction k arbitrary: n fuel r s inn)
  case 0
  then obtain f where "fuel = Suc f" by (cases fuel) auto
  with 0 show ?case by (auto simp: run_pass_def)
next
  case (Suc k)
  then obtain f where f: "fuel = Suc f" "k < f" by (cases fuel) auto
  obtain evs w where "mio_poll E (inner_io inn) None (world s) = (Inr evs, w)"
    using assms(3) by (metis prod.collapse)
  from Reactor_turn_total [OF assms(1,2) Suc.prems(4,5) this] obtain s' inn' where
    turn: "Reactor_turn E None (r, s) = (Ret (Inr ()), (r\<lparr>r_events := evs\<rparr>, s'))"
    and s': "inners s' (r_inner r) = Some inn'" "inner_ok E inn'" by blast
  have "shutdown (obs n) = 0" using Suc.prems(1) [of 0] by simp
  then have "run E fuel obs n r s = run E f obs (Suc n) (r\<lparr>r_events := evs\<rparr>) s'"
    using turn by (simp add: f(1) run_pass_def shutdown_consts)
  moreover have "shutdown (obs (Suc n + m)) = 0" if "m < k" for m
    using Suc.prems(1) [of "Suc m"] that by simp
  ultimately show ?case
    using Suc.IH [of "Suc n" f s' "r\<lparr>r_events := evs\<rparr>" inn'] f(2) s' Suc.prems(2) by simp
qed

text \<open>C12: the reactor thread terminates: if mio's calls succeed and the \<open>k\<close>-th pass is the first to find
  \<^verbatim>\<open>SHUTDOWN_NOW\<close>, then \<^verbatim>\<open>run\<close> returns after \<open>k\<close> turns (any fuel above \<open>k\<close> suffices); by then the reactor is
  gone, the state is \<^verbatim>\<open>SHUTDOWN\<close> and the task that waits for the shutdown was the last one woken.\<close>

theorem run_shuts_down:
  assumes "ext_ok E" and "\<And>p r w. fst (mio_set_readiness E p r w) = Inr ()"
    and "\<And>p d w. \<exists>evs. fst (mio_poll E p d w) = Inr evs"
    and "\<And>m. m < k \<Longrightarrow> shutdown (obs m) = 0" and "shutdown (obs k) = SHUTDOWN_NOW"
    and "k < fuel" and "inners s (r_inner r) = Some inn" and "inner_ok E inn"
  shows "\<exists>sh s'. run E fuel obs 0 r s = (Ret sh, s') \<and> is_shutdown sh \<and>
    inners s' (r_inner r) = None \<and> aw_held E (shutdown_task sh) = None \<and>
    (\<exists>ts. woken s' = ts @ wake_of (aw_held E (shutdown_task (obs k))))"
proof -
  have "\<And>m. m < k \<Longrightarrow> shutdown (obs (0 + m)) = 0" and "shutdown (obs (0 + k)) = SHUTDOWN_NOW"
    using assms(4,5) by simp_all
  from run_stops [where obs = obs and n = 0 and k = k, OF assms(1-3) this assms(6-8)] obtain s1 r1 where
    "run E fuel obs 0 r s = (case run_finish E r1 (obs k) s1 of (sh, s') \<Rightarrow> (Ret sh, s'))"
    and "r_inner r1 = r_inner r" by auto
  with run_finish_done [OF assms(1), of r1 "obs k" s1] show ?thesis by (auto split: prod.splits)
qed

theorem run_shuts_down_witness:
  "\<exists>sh s'. run (std_ext [(0, 1)]) 9 (\<lambda>m. \<lparr>shutdown = (if m < 3 then 0 else 2), shutdown_task = Some 5\<rparr>) 0
      \<lparr>r_events = [], r_inner = 16, wakeup_registration = 0\<rparr> (sys0\<lparr>inners := [16 \<mapsto> inner1]\<rparr>)
    = (Ret sh, s') \<and> is_shutdown sh"
proof -
  let ?E = "std_ext [(0, 1)]"
  let ?obs = "\<lambda>m::nat. \<lparr>shutdown = (if m < 3 then 0 else 2 :: usize), shutdown_task = Some (5::task)\<rparr>"
  let ?s = "sys0\<lparr>inners := [16 \<mapsto> inner1]\<rparr>"
  let ?r = "\<lparr>r_events = [], r_inner = 16, wakeup_registration = 0\<rparr>"
  have 1: "fst (mio_set_readiness ?E p r w) = Inr ()" for p r w by (simp add: std_ext_def)
  have 2: "\<exists>evs. fst (mio_poll ?E p d w) = Inr evs" for p d w by (simp add: std_ext_def)
  have 3: "m < 3 \<Longrightarrow> shutdown (?obs m) = 0" for m by simp
  have 4: "shutdown (?obs 3) = SHUTDOWN_NOW" by (simp add: shutdown_consts)
  have 5: "3 < (9::nat)" by simp
  have 6: "inners ?s (r_inner ?r) = Some inner1" by simp
  from run_shuts_down [where obs = ?obs and k = 3, OF std_ext_ok 1 2 3 4 5 6 inner1_ok] show ?thesis by blast
qed

end
