(* ===== verification/Handle_Global.thy ===== *)
theory Handle_Global
  imports Background_Thread
begin

text \<open>
  The process-wide fallback reactor of \<^verbatim>\<open>src/reactor/mod.rs\<close>: \<^verbatim>\<open>set_fallback\<close>,
  \<^verbatim>\<open>HandlePriv::{into_usize, from_usize, fallback, try_current}\<close>. \<^verbatim>\<open>HANDLE_FALLBACK\<close> stores the address
  behind a \<^verbatim>\<open>Weak\<close> pointer, so the model tracks weak counts: a handle turned into a number keeps its
  count, one rebuilt from a number does not add to it. The last part lets any number of threads race
  through \<^verbatim>\<open>fallback\<close>.
\<close>

section \<open>Handles as numbers\<close>

text \<open>\<^verbatim>\<open>mem::transmute\<close> of the weak pointer, in both directions.\<close>

definition HandlePriv_into_usize :: "HandlePriv \<Rightarrow> usize" where
  "HandlePriv_into_usize h = hp_inner h"

definition HandlePriv_from_usize :: "usize \<Rightarrow> HandlePriv" where
  "HandlePriv_from_usize val = \<lparr>hp_inner = val\<rparr>"

definition set_fallback :: "HandlePriv \<Rightarrow> (('sl, 'w) sys, unit + unit) op" where
  "set_fallback handle s =
     (let val = HandlePriv_into_usize handle;
          (actual, new) = compare_and_swap (HANDLE_FALLBACK s) 0 val
      in if actual = 0 then (Ret (Inr ()), s\<lparr>HANDLE_FALLBACK := new\<rparr>)
         else (Ret (Inl ()), HandlePriv_drop (HandlePriv_from_usize val) s))"

section \<open>The fallback reactor\<close>

text \<open>
  \<^verbatim>\<open>fallback\<close> after \<^verbatim>\<open>Reactor::new\<close> succeeded: \<open>Inr h\<close> when this call published its reactor, \<open>Inl v\<close>
  when another thread had won and \<open>v\<close> was reloaded; the loser's reactor is dropped at the end of the
  block.
\<close>

definition fallback_init ::
  "('aw, 'sl, 'w) ext \<Rightarrow> Reactor \<Rightarrow> (('sl, 'w) sys, usize + HandlePriv) op" where
  "fallback_init E reactor =
     bnd (Reactor_handle reactor) (\<lambda>h. case Handle_into_priv h of
       None \<Rightarrow> panic ''called `Option::unwrap()` on a `None` value''
     | Some p \<Rightarrow> bnd (set_fallback p) (\<lambda>set_ok. case set_ok of
         Inr _ \<Rightarrow> bnd (Reactor_handle reactor) (\<lambda>h2. case Handle_into_priv h2 of
             None \<Rightarrow> panic ''called `Option::unwrap()` on a `None` value''
           | Some ret_handle \<Rightarrow> bnd (Reactor_background E reactor) (\<lambda>res. case res of
               Inr (bg, _) \<Rightarrow> (\<lambda>s. (Ret (Inr ret_handle), Background_forget bg s))
             | Inl _ \<Rightarrow> ret (Inr ret_handle)))
       | Inl _ \<Rightarrow> (\<lambda>s. (Ret (Inl (HANDLE_FALLBACK s)), Reactor_drop E reactor s))))"

text \<open>\<^verbatim>\<open>fallback\<close> once the global is set: rebuild a handle, clone it, forget the rebuilt one.\<close>

definition fallback_reify :: "usize \<Rightarrow> (('sl, 'w) sys, HandlePriv io_result) op" where
  "fallback_reify v =
     (if v = 0 then panic ''assertion failed: fallback != 0''
      else bnd (HandlePriv_clone (HandlePriv_from_usize v)) (\<lambda>h. ret (Inr h)))"

definition HandlePriv_fallback ::
  "('aw, 'sl, 'w) ext \<Rightarrow> usize \<Rightarrow> (('sl, 'w) sys, HandlePriv io_result) op" where
  "HandlePriv_fallback E addr s =
     (if HANDLE_FALLBACK s = 0
      then bnd (Reactor_new E addr) (\<lambda>res. case res of
             Inl _ \<Rightarrow> ret (Inl (IoError Other ''failed to create reactor''))
           | Inr reactor \<Rightarrow> bnd (fallback_init E reactor) (\<lambda>x. case x of
               Inr h \<Rightarrow> ret (Inr h)
             | Inl v \<Rightarrow> fallback_reify v)) s
      else fallback_reify (HANDLE_FALLBACK s) s)"

definition try_current ::
  "('aw, 'sl, 'w) ext \<Rightarrow> usize \<Rightarrow> (('sl, 'w) sys, HandlePriv io_result) op" where
  "try_current E addr s = (case CURRENT_REACTOR s of
      Some handle \<Rightarrow> bnd (HandlePriv_clone handle) (\<lambda>h. ret (Inr h)) s
    | None \<Rightarrow> HandlePriv_fallback E addr s)"

section \<open>Racing threads\<close>

text \<open>
  Where a thread stands in \<^verbatim>\<open>fallback\<close>. Every access to \<^verbatim>\<open>HANDLE_FALLBACK\<close> on the way to the decision
  is a step of its own; the allocator gives addresses no live or weakly referenced reactor has.
\<close>

datatype fb_pc = FStart | FNew | FInit Reactor | FReify usize | FDone "HandlePriv io_result"

record ('sl, 'w) fb =
  fb_sys :: "('sl, 'w) sys"
  fb_at :: "nat \<Rightarrow> fb_pc"

definition fb_init :: "('sl, 'w) fb \<Rightarrow> bool" where
  "fb_init x \<longleftrightarrow> HANDLE_FALLBACK (fb_sys x) = 0 \<and> inners (fb_sys x) = Map.empty \<and>
     (\<forall>a. weak (fb_sys x) a = 0) \<and> (\<forall>i. fb_at x i = FStart)"

inductive fb_step :: "('aw, 'sl, 'w) ext \<Rightarrow> ('sl, 'w) fb \<Rightarrow> ('sl, 'w) fb \<Rightarrow> bool" for E where
  fb_load: "fb_at x i = FStart \<Longrightarrow> v = HANDLE_FALLBACK (fb_sys x) \<Longrightarrow>
     fb_step E x (x\<lparr>fb_at := (fb_at x)(i := (if v = 0 then FNew else FReify v))\<rparr>)"
| fb_new_ok: "fb_at x i = FNew \<Longrightarrow> addr \<noteq> 0 \<Longrightarrow> inners (fb_sys x) addr = None \<Longrightarrow>
     weak (fb_sys x) addr = 0 \<Longrightarrow> Reactor_new E addr (fb_sys x) = (Ret (Inr r), s) \<Longrightarrow>
     fb_step E x (x\<lparr>fb_sys := s, fb_at := (fb_at x)(i := FInit r)\<rparr>)"
| fb_new_err: "fb_at x i = FNew \<Longrightarrow> Reactor_new E addr (fb_sys x) = (Ret (Inl e), s) \<Longrightarrow>
     fb_step E x (x\<lparr>fb_sys := s,
       fb_at := (fb_at x)(i := FDone (Inl (IoError Other ''failed to create reactor'')))\<rparr>)"
| fb_won: "fb_at x i = FInit r \<Longrightarrow> fallback_init E r (fb_sys x) = (Ret (Inr h), s) \<Longrightarrow>
     fb_step E x (x\<lparr>fb_sys := s, fb_at := (fb_at x)(i := FDone (Inr h))\<rparr>)"
| fb_lost: "fb_at x i = FInit r \<Longrightarrow> fallback_init E r (fb_sys x) = (Ret (Inl v), s) \<Longrightarrow>
     fb_step E x (x\<lparr>fb_sys := s, fb_at := (fb_at x)(i := FReify v)\<rparr>)"
| fb_reify: "fb_at x i = FReify v \<Longrightarrow> fallback_reify v (fb_sys x) = (Ret res, s) \<Longrightarrow>
     fb_step E x (x\<lparr>fb_sys := s, fb_at := (fb_at x)(i := FDone res)\<rparr>)"

definition unpublished :: "(nat \<Rightarrow> fb_pc) \<Rightarrow> usize set" where
  "unpublished at_pc = {a. \<exists>i r. at_pc i = FInit r \<and> r_inner r = a}"

text \<open>
  The invariant: a published address stays, all results are that address, the addresses of
  unpublished reactors are distinct and unreferenced, and nothing else is alive.
\<close>

definition fb_inv :: "('sl, 'w) fb \<Rightarrow> bool" where
  "fb_inv x \<longleftrightarrow>
     (let g = HANDLE_FALLBACK (fb_sys x) in
     (\<forall>i v. fb_at x i = FReify v \<longrightarrow> v = g \<and> g \<noteq> 0) \<and>
     (\<forall>i h. fb_at x i = FDone (Inr h) \<longrightarrow> hp_inner h = g \<and> g \<noteq> 0) \<and>
     (\<forall>i r. fb_at x i = FInit r \<longrightarrow> r_inner r \<noteq> 0 \<and> r_inner r \<noteq> g \<and>
        weak (fb_sys x) (r_inner r) = 0 \<and> inners (fb_sys x) (r_inner r) \<noteq> None) \<and>
     (\<forall>i j r r'. fb_at x i = FInit r \<longrightarrow> fb_at x j = FInit r' \<longrightarrow> r_inner r = r_inner r' \<longrightarrow> i = j) \<and>
     (\<forall>a. inners (fb_sys x) a \<noteq> None \<longrightarrow> a \<noteq> 0 \<and> (a = g \<or> a \<in> unpublished (fb_at x))) \<and>
     (g \<noteq> 0 \<longrightarrow> weak (fb_sys x) g \<noteq> 0))"

definition fb0 :: "(list_slab, nat) fb" where
  "fb0 = \<lparr>fb_sys = sys0, fb_at = (\<lambda>_. FStart)\<rparr>"

section \<open>Evaluation\<close>

lemma Reactor_new_cases:
  assumes "Reactor_new E addr s = (res, t)"
  obtains (err) e where "res = Ret (Inl e)" and "inners t = inners s" and "weak t = weak s"
      and "HANDLE_FALLBACK t = HANDLE_FALLBACK s"
    | (ok) r inn where "res = Ret (Inr r)" and "r_inner r = addr" and "inners t = (inners s)(addr \<mapsto> inn)"
      and "weak t = weak s" and "HANDLE_FALLBACK t = HANDLE_FALLBACK s"
  using assms unfolding Reactor_new_def Let_def
  by (auto split: prod.splits sum.splits)

text \<open>What \<^verbatim>\<open>fallback_init\<close> amounts to: losing gives back the temporary weak count, winning leaves two.\<close>

lemma fallback_init_lost:
  assumes "HANDLE_FALLBACK s \<noteq> 0"
  shows "\<exists>t. fallback_init E r s = (Ret (Inl (HANDLE_FALLBACK s)), t) \<and>
    HANDLE_FALLBACK t = HANDLE_FALLBACK s \<and> inners t = (inners s)(r_inner r := None) \<and> weak t = weak s"
  using assms
  by (auto simp: fallback_init_def Reactor_handle_def Handle_into_priv_def set_fallback_def Let_def
      compare_and_swap_def HandlePriv_drop_def HandlePriv_from_usize_def HandlePriv_into_usize_def
      Reactor_drop_def bnd_def fun_eq_iff split: option.splits)

lemma fallback_init_won:
  assumes "HANDLE_FALLBACK s = 0"
  shows "\<exists>t. fallback_init E r s = (Ret (Inr \<lparr>hp_inner = r_inner r\<rparr>), t) \<and>
    HANDLE_FALLBACK t = r_inner r \<and>
    inners t = (case fst (thread_spawn E (world s)) of
      Inl _ \<Rightarrow> (inners s)(r_inner r := None) | Inr _ \<Rightarrow> inners s) \<and>
    weak t = (weak s)(r_inner r := weak s (r_inner r) + 2)"
proof (cases "thread_spawn E (world s)")
  case (Pair res w)
  then show ?thesis
    using assms
    by (cases res; cases "inners s (r_inner r)")
      (auto simp: fallback_init_def Reactor_handle_def Handle_into_priv_def set_fallback_def Let_def
      compare_and_swap_def HandlePriv_drop_def HandlePriv_from_usize_def HandlePriv_into_usize_def
      Reactor_drop_def bnd_def fun_eq_iff Reactor_background_def Background_new_def Handle_clone_def HandlePriv_clone_def
      Handle_drop_def Background_forget_def)
qed

lemma fallback_reify_eq:
  "v \<noteq> 0 \<Longrightarrow> fallback_reify v s = (Ret (Inr \<lparr>hp_inner = v\<rparr>), s\<lparr>weak := (weak s)(v := Suc (weak s v))\<rparr>)"
  by (simp add: fallback_reify_def HandlePriv_clone_def HandlePriv_from_usize_def bnd_def)

section \<open>The race\<close>

lemma fb_invD:
  assumes "fb_inv x"
  shows "fb_at x i = FReify v \<Longrightarrow> v = HANDLE_FALLBACK (fb_sys x) \<and> HANDLE_FALLBACK (fb_sys x) \<noteq> 0"
    and "fb_at x i = FDone (Inr h) \<Longrightarrow> hp_inner h = HANDLE_FALLBACK (fb_sys x) \<and> HANDLE_FALLBACK (fb_sys x) \<noteq> 0"
    and "fb_at x i = FInit r \<Longrightarrow> r_inner r \<noteq> 0 \<and> r_inner r \<noteq> HANDLE_FALLBACK (fb_sys x) \<and>
        weak (fb_sys x) (r_inner r) = 0 \<and> inners (fb_sys x) (r_inner r) \<noteq> None"
    and "fb_at x i = FInit r \<Longrightarrow> fb_at x j = FInit r' \<Longrightarrow> r_inner r = r_inner r' \<Longrightarrow> i = j"
    and "inners (fb_sys x) a \<noteq> None \<Longrightarrow> a \<noteq> 0 \<and>
      (a = HANDLE_FALLBACK (fb_sys x) \<or> a \<in> unpublished (fb_at x))"
    and "HANDLE_FALLBACK (fb_sys x) \<noteq> 0 \<Longrightarrow> weak (fb_sys x) (HANDLE_FALLBACK (fb_sys x)) \<noteq> 0"
    and "fb_at x i \<noteq> FReify 0"
  using assms unfolding fb_inv_def Let_def by metis+

lemma fb_invI:
  assumes "\<And>i v. fb_at x i = FReify v \<Longrightarrow> v = HANDLE_FALLBACK (fb_sys x) \<and> HANDLE_FALLBACK (fb_sys x) \<noteq> 0"
    and "\<And>i h. fb_at x i = FDone (Inr h) \<Longrightarrow> hp_inner h = HANDLE_FALLBACK (fb_sys x) \<and> HANDLE_FALLBACK (fb_sys x) \<noteq> 0"
    and "\<And>i r. fb_at x i = FInit r \<Longrightarrow> r_inner r \<noteq> 0 \<and> r_inner r \<noteq> HANDLE_FALLBACK (fb_sys x) \<and>
        weak (fb_sys x) (r_inner r) = 0 \<and> inners (fb_sys x) (r_inner r) \<noteq> None"
    and "\<And>i j r r'. fb_at x i = FInit r \<Longrightarrow> fb_at x j = FInit r' \<Longrightarrow> r_inner r = r_inner r' \<Longrightarrow> i = j"
    and "\<And>a. inners (fb_sys x) a \<noteq> None \<Longrightarrow> a \<noteq> 0 \<and>
      (a = HANDLE_FALLBACK (fb_sys x) \<or> a \<in> unpublished (fb_at x))"
    and "HANDLE_FALLBACK (fb_sys x) \<noteq> 0 \<Longrightarrow> weak (fb_sys x) (HANDLE_FALLBACK (fb_sys x)) \<noteq> 0"
  shows "fb_inv x"
  unfolding fb_inv_def Let_def by (intro conjI allI impI) (use assms in blast)+

lemma init_frame:
  assumes "a \<in> unpublished at_pc" and "\<And>r. at_pc i = FInit r \<Longrightarrow> r_inner r \<noteq> a"
  shows "a \<in> unpublished (at_pc(i := p))"
  using assms unfolding unpublished_def mem_Collect_eq by (metis fun_upd_other)

lemma init_new: "r_inner r \<in> unpublished (at_pc(i := FInit r))"
  unfolding unpublished_def mem_Collect_eq by (metis fun_upd_same)

lemma fb_init_inv: "fb_init x \<Longrightarrow> fb_inv x"
  by (rule fb_invI) (auto simp: fb_init_def)

lemma fb_inv_load:
  assumes "fb_inv x" and fb_load: "y = x\<lparr>fb_at := (fb_at x)(i := (if v = 0 then FNew else FReify v))\<rparr>"
    "fb_at x i = FStart"
    "v = HANDLE_FALLBACK (fb_sys x)"
  shows "fb_inv y"
proof -
  note inv = fb_invD [OF assms(1)]
  have "inners (fb_sys y) a \<noteq> None \<Longrightarrow> a \<noteq> 0 \<and>
      (a = HANDLE_FALLBACK (fb_sys y) \<or> a \<in> unpublished (fb_at y))" for a
    using inv(5) [of a] init_frame [of a "fb_at x" i] fb_load(1,2) by (cases "v = 0") auto
  note live = this
  show ?thesis
  proof (cases "v = 0")
    case True
    then have "fb_at x j \<noteq> FReify w" "fb_at x j \<noteq> FDone (Inr h)" for j w h
      using inv(1,2) fb_load(3) by metis+
    then show ?thesis
      by (intro fb_invI live) (use inv(3,4) fb_load True in \<open>auto split: if_splits\<close>)
  next
    case False
    then show ?thesis
      by (intro fb_invI live) (use inv(1-4,6,7) fb_load in \<open>auto split: if_splits\<close>)
  qed
qed

lemma fb_inv_new_ok:
  assumes "fb_inv x" and fb_new_ok: "y = x\<lparr>fb_sys := s, fb_at := (fb_at x)(i := FInit r)\<rparr>"
    "fb_at x i = FNew"
    "addr \<noteq> 0"
    "inners (fb_sys x) addr = None"
    "weak (fb_sys x) addr = 0"
    "Reactor_new E addr (fb_sys x) = (Ret (Inr r), s)"
  shows "fb_inv y"
proof -
  note inv = fb_invD [OF assms(1)]
  from fb_new_ok(6) show ?thesis
  proof (cases rule: Reactor_new_cases)
    case (ok r2 inn)
    then have s: "r_inner r = addr" "inners s = (inners (fb_sys x))(addr \<mapsto> inn)"
      "weak s = weak (fb_sys x)" "HANDLE_FALLBACK s = HANDLE_FALLBACK (fb_sys x)" by auto
    have g: "addr \<noteq> HANDLE_FALLBACK (fb_sys x)" using inv(6) fb_new_ok(3,5) by metis
    have new: "fb_at x j = FInit r' \<Longrightarrow> r_inner r' \<noteq> addr" for j r'
      using inv(3) fb_new_ok(4) by metis
    have "inners (fb_sys y) a \<noteq> None \<Longrightarrow> a \<noteq> 0 \<and>
      (a = HANDLE_FALLBACK (fb_sys y) \<or> a \<in> unpublished (fb_at y))" for a
      using inv(5) [of a] init_frame [of a "fb_at x" i "FInit r"] init_new [of r "fb_at x" i] fb_new_ok(1-3) s
      by (cases "a = addr") auto
    then show ?thesis
      by (intro fb_invI) (use inv(1-4,6,7) fb_new_ok(1-5) s g new in \<open>auto split: if_splits\<close>)
  qed simp
qed

lemma fb_inv_new_err:
  assumes "fb_inv x" and fb_new_err: "y = x\<lparr>fb_sys := s, fb_at := (fb_at x)(i := FDone (Inl (IoError Other ''failed to create reactor'')))\<rparr>"
    "fb_at x i = FNew"
    "Reactor_new E addr (fb_sys x) = (Ret (Inl e), s)"
  shows "fb_inv y"
proof -
  note inv = fb_invD [OF assms(1)]
  from fb_new_err(3) show ?thesis
  proof (cases rule: Reactor_new_cases)
    case err
    then have "inners (fb_sys y) a \<noteq> None \<Longrightarrow> a \<noteq> 0 \<and>
      (a = HANDLE_FALLBACK (fb_sys y) \<or> a \<in> unpublished (fb_at y))" for a
      using inv(5) [of a] init_frame [of a "fb_at x" i] fb_new_err(1,2) by auto
    then show ?thesis
      by (intro fb_invI) (use inv(1-4,6,7) fb_new_err(1,2) err in \<open>auto split: if_splits\<close>)
  qed simp
qed

lemma fb_inv_won:
  assumes "fb_inv x" and fb_won: "y = x\<lparr>fb_sys := s, fb_at := (fb_at x)(i := FDone (Inr h))\<rparr>"
    "fb_at x i = FInit r"
    "fallback_init E r (fb_sys x) = (Ret (Inr h), s)"
  shows "fb_inv y"
proof -
  note inv = fb_invD [OF assms(1)]
  have g: "HANDLE_FALLBACK (fb_sys x) = 0"
    using fallback_init_lost [of "fb_sys x" E r] fb_won(3) by fastforce
  from fallback_init_won [OF this, of E r] fb_won(3) have s: "h = \<lparr>hp_inner = r_inner r\<rparr>"
    "HANDLE_FALLBACK s = r_inner r" "weak s = (weak (fb_sys x))(r_inner r := weak (fb_sys x) (r_inner r) + 2)"
    "\<And>a. a \<noteq> r_inner r \<Longrightarrow> inners s a = inners (fb_sys x) a"
    by (auto split: sum.splits)
  have idle: "fb_at x j \<noteq> FReify v" "fb_at x j \<noteq> FDone (Inr h')" for j v h'
    using inv(1,2) g by metis+
  have other: "fb_at x j = FInit r' \<Longrightarrow> j \<noteq> i \<Longrightarrow> r_inner r' \<noteq> r_inner r" for j r'
    using inv(4) fb_won(2) by metis
  have zero: "inners (fb_sys x) 0 = None"
    using inv(5) [of 0] by blast
  have "inners (fb_sys y) a \<noteq> None \<Longrightarrow> a \<noteq> 0 \<and>
      (a = HANDLE_FALLBACK (fb_sys y) \<or> a \<in> unpublished (fb_at y))" for a
    using inv(5) [of a] init_frame [of a "fb_at x" i] fb_won(1,2) s zero g inv(3) [OF fb_won(2)]
    by (cases "a = r_inner r") auto
  then show ?thesis
    by (intro fb_invI) (use inv(3,4) fb_won(1,2) s idle other in \<open>auto split: if_splits\<close>)
qed

lemma fb_inv_lost:
  assumes "fb_inv x" and fb_lost: "y = x\<lparr>fb_sys := s, fb_at := (fb_at x)(i := FReify v)\<rparr>"
    "fb_at x i = FInit r"
    "fallback_init E r (fb_sys x) = (Ret (Inl v), s)"
  shows "fb_inv y"
proof -
  note inv = fb_invD [OF assms(1)]
  have g: "HANDLE_FALLBACK (fb_sys x) \<noteq> 0"
    using fallback_init_won [of "fb_sys x" E r] fb_lost(3) by fastforce
  from fallback_init_lost [OF this, of E r] fb_lost(3) have s: "v = HANDLE_FALLBACK (fb_sys x)"
    "HANDLE_FALLBACK s = HANDLE_FALLBACK (fb_sys x)" "weak s = weak (fb_sys x)"
    "inners s = (inners (fb_sys x))(r_inner r := None)"
    by auto
  have other: "fb_at x j = FInit r' \<Longrightarrow> j \<noteq> i \<Longrightarrow> r_inner r' \<noteq> r_inner r" for j r'
    using inv(4) fb_lost(2) by metis
  have "inners (fb_sys y) a \<noteq> None \<Longrightarrow> a \<noteq> 0 \<and>
      (a = HANDLE_FALLBACK (fb_sys y) \<or> a \<in> unpublished (fb_at y))" for a
    using inv(5) [of a] init_frame [of a "fb_at x" i] fb_lost(1,2) s
    by (cases "a = r_inner r") auto
  then show ?thesis
    by (intro fb_invI) (use inv(1-4,6,7) fb_lost(1,2) g s other in \<open>auto split: if_splits\<close>)
qed

lemma fb_inv_reify:
  assumes "fb_inv x" and fb_reify: "y = x\<lparr>fb_sys := s, fb_at := (fb_at x)(i := FDone res)\<rparr>"
    "fb_at x i = FReify v"
    "fallback_reify v (fb_sys x) = (Ret res, s)"
  shows "fb_inv y"
proof -
  note inv = fb_invD [OF assms(1)]
  have v: "v = HANDLE_FALLBACK (fb_sys x)" "v \<noteq> 0" using inv(1) fb_reify(2) by metis+
  with fallback_reify_eq [OF v(2), of "fb_sys x"] fb_reify(3)
  have r: "res = Inr \<lparr>hp_inner = v\<rparr>" "s = (fb_sys x)\<lparr>weak := (weak (fb_sys x))(v := Suc (weak (fb_sys x) v))\<rparr>"
    by auto
  then have "inners (fb_sys y) a \<noteq> None \<Longrightarrow> a \<noteq> 0 \<and>
      (a = HANDLE_FALLBACK (fb_sys y) \<or> a \<in> unpublished (fb_at y))" for a
    using inv(5) [of a] init_frame [of a "fb_at x" i] fb_reify(1,2) by auto
  moreover have "HANDLE_FALLBACK (fb_sys y) = HANDLE_FALLBACK (fb_sys x)" "HANDLE_FALLBACK (fb_sys x) \<noteq> 0"
    "inners (fb_sys y) = inners (fb_sys x)" "fb_at y = (fb_at x)(i := FDone (Inr \<lparr>hp_inner = HANDLE_FALLBACK (fb_sys x)\<rparr>))"
    "weak (fb_sys y) = (weak (fb_sys x))(HANDLE_FALLBACK (fb_sys x) := Suc (weak (fb_sys x) (HANDLE_FALLBACK (fb_sys x))))"
    unfolding fb_reify(1) r using v by simp_all
  ultimately show ?thesis
    by (intro fb_invI) (use inv(1-4) in \<open>auto split: if_splits\<close>)
qed

lemma fb_step_inv:
  assumes "fb_step E x y" and "fb_inv x"
  shows "fb_inv y"
  using assms(1) by cases (use assms(2) in \<open>blast intro: fb_inv_load fb_inv_new_ok fb_inv_new_err fb_inv_won fb_inv_lost fb_inv_reify\<close>)+

interpretation fallback_race: inductive_invariant fb_init "fb_step E" fb_inv for E
  by unfold_locales (auto intro: fb_init_inv fb_step_inv)

section \<open>Properties\<close>

lemma fallback_fresh:
  assumes "HANDLE_FALLBACK s = 0" and "Reactor_new E a s = (Ret (Inr r), s1)"
  shows "\<exists>t. HandlePriv_fallback E a s = (Ret (Inr \<lparr>hp_inner = a\<rparr>), t) \<and> HANDLE_FALLBACK t = a \<and>
    weak t = (weak s)(a := weak s a + 2) \<and>
    (case fst (thread_spawn E (world s1)) of Inl _ \<Rightarrow> inners t a = None | Inr _ \<Rightarrow> inners t a \<noteq> None)"
  using assms(2)
proof (cases rule: Reactor_new_cases)
  case (ok r2 inn)
  then have s1: "r_inner r = a" "inners s1 a = Some inn" "weak s1 = weak s" "HANDLE_FALLBACK s1 = 0"
    using assms(1) by auto
  from fallback_init_won [OF s1(4), of E r] s1 show ?thesis
    unfolding HandlePriv_fallback_def using assms
    by (cases "fst (thread_spawn E (world s1))") auto
qed simp

text \<open>C13: whatever the interleaving, every thread that gets a handle from \<^verbatim>\<open>fallback\<close> gets one to the
  same reactor, the \<^verbatim>\<open>assert!\<close> on the reloaded global cannot fire, and once no thread is between
  creating and publishing a reactor at most one reactor is alive.\<close>

theorem fallback_race_agrees:
  assumes "reach fb_init (fb_step E) x"
  shows "(\<forall>i j h h'. fb_at x i = FDone (Inr h) \<and> fb_at x j = FDone (Inr h') \<longrightarrow> h = h') \<and>
    (\<forall>i v. fb_at x i = FReify v \<longrightarrow> fst (fallback_reify v (fb_sys x)) = Ret (Inr \<lparr>hp_inner = v\<rparr>)) \<and>
    ((\<forall>i r. fb_at x i \<noteq> FInit r) \<longrightarrow>
      (\<forall>a b. inners (fb_sys x) a \<noteq> None \<and> inners (fb_sys x) b \<noteq> None \<longrightarrow> a = b))"
proof -
  note inv = fb_invD [OF fallback_race.reach_inv [OF assms]]
  have 1: "h = h'" if "fb_at x i = FDone (Inr h)" "fb_at x j = FDone (Inr h')" for i j h h'
    using inv(2) [OF that(1)] inv(2) [OF that(2)] by (cases h; cases h') simp
  have 2: "fst (fallback_reify v (fb_sys x)) = Ret (Inr \<lparr>hp_inner = v\<rparr>)" if "fb_at x i = FReify v" for i v
    using inv(1) [OF that] by (simp add: fallback_reify_eq)
  have "unpublished (fb_at x) = {}" if "\<forall>i r. fb_at x i \<noteq> FInit r"
    using that by (simp add: unpublished_def)
  then have "inners (fb_sys x) a \<noteq> None \<Longrightarrow> a = HANDLE_FALLBACK (fb_sys x)"
    if "\<forall>i r. fb_at x i \<noteq> FInit r" for a using inv(5) that by blast
  with 1 2 show ?thesis by (intro conjI) (blast, blast, metis)
qed

lemma sys0_Reactor_new: "Reactor_new (std_ext []) 16 sys0 =
   (Ret (Inr \<lparr>r_events = [], r_inner = 16, wakeup_registration = 1\<rparr>),
    sys0\<lparr>world := 3, inners := [16 \<mapsto>
      \<lparr>inner_io = 0, next_aba_guard = 0, io_dispatch = [], inner_wakeup = 2\<rparr>]\<rparr>)"
  by (simp add: Reactor_new_def std_ext_def sys0_def numeral_2_eq_2)

text \<open>Two threads that both find the global empty: thread 0 publishes, thread 1 takes over its reactor.\<close>

lemma fb_race_example:
  "\<exists>x. reach fb_init (fb_step (std_ext [])) x \<and> fb_at x 0 = FDone (Inr \<lparr>hp_inner = 16\<rparr>) \<and>
     (\<exists>h. fb_at x 1 = FDone (Inr h))"
proof -
  let ?E = "std_ext []"
  let ?R = "reach fb_init (fb_step ?E)"
  let ?p0 = "(\<lambda>_. FStart)(0 := FNew, 1 := FNew)"
  let ?r0 = "\<lparr>r_events = [], r_inner = 16, wakeup_registration = 1\<rparr>"
  have "?R fb0" by (rule reach_init) (simp add: fb_init_def fb0_def sys0_def)
  then have "?R (fb0\<lparr>fb_at := (\<lambda>_. FStart)(0 := FNew)\<rparr>)"
    by (rule reach_step) (use fb_load [of fb0 0 0 ?E] in \<open>simp add: fb0_def sys0_def\<close>)
  then have "?R (fb0\<lparr>fb_at := ?p0\<rparr>)"
    by (rule reach_step)
      (use fb_load [of "fb0\<lparr>fb_at := (\<lambda>_. FStart)(0 := FNew)\<rparr>" 1 0 ?E] in \<open>simp add: fb0_def sys0_def\<close>)
  moreover obtain s1 where s1: "Reactor_new ?E 16 sys0 = (Ret (Inr ?r0), s1)" "weak s1 = weak sys0"
    "HANDLE_FALLBACK s1 = 0" "inners s1 32 = None" "thread_spawn ?E (world s1) = (Inr (), 3)" "world s1 = 3"
    using sys0_Reactor_new by (auto simp: sys0_def std_ext_def)
  ultimately have a: "?R \<lparr>fb_sys = s1, fb_at = ?p0(0 := FInit ?r0)\<rparr>"
    using fb_new_ok [of "fb0\<lparr>fb_at := ?p0\<rparr>" 0 16 ?E ?r0 s1]
    by (elim reach_step) (simp add: fb0_def sys0_def)
  obtain r1 s2 where s2: "Reactor_new ?E 32 s1 = (Ret (Inr r1), s2)"
    by (simp add: Reactor_new_def std_ext_def)
  from s2 have s2': "HANDLE_FALLBACK s2 = 0" by (cases rule: Reactor_new_cases) (use s1(3) in auto)
  from a have b: "?R \<lparr>fb_sys = s2, fb_at = ?p0(0 := FInit ?r0, 1 := FInit r1)\<rparr>"
    using fb_new_ok [of "\<lparr>fb_sys = s1, fb_at = ?p0(0 := FInit ?r0)\<rparr>" 1 32 ?E r1 s2] s1(2,4) s2
    by (elim reach_step) (simp add: sys0_def)
  from fallback_init_won [OF s2', of ?E ?r0] obtain s3 where
    s3: "fallback_init ?E ?r0 s2 = (Ret (Inr \<lparr>hp_inner = 16\<rparr>), s3)" "HANDLE_FALLBACK s3 = 16" by auto
  from b have c: "?R \<lparr>fb_sys = s3, fb_at = ?p0(0 := FDone (Inr \<lparr>hp_inner = 16\<rparr>), 1 := FInit r1)\<rparr>"
    using fb_won [of "\<lparr>fb_sys = s2, fb_at = ?p0(0 := FInit ?r0, 1 := FInit r1)\<rparr>" 0 ?r0 ?E _ s3] s3
    by (elim reach_step) (simp add: fun_upd_twist)
  from fallback_init_lost [of s3 ?E r1] s3(2) obtain s4 where
    s4: "fallback_init ?E r1 s3 = (Ret (Inl 16), s4)" by auto
  from c have d: "?R \<lparr>fb_sys = s4, fb_at = ?p0(0 := FDone (Inr \<lparr>hp_inner = 16\<rparr>), 1 := FReify 16)\<rparr>"
    using fb_lost [of "\<lparr>fb_sys = s3, fb_at = ?p0(0 := FDone (Inr \<lparr>hp_inner = 16\<rparr>), 1 := FInit r1)\<rparr>" 1 r1 ?E _ s4] s4
    by (elim reach_step) simp
  obtain s5 where s5: "fallback_reify 16 s4 = (Ret (Inr \<lparr>hp_inner = 16\<rparr>), s5)"
    by (simp add: fallback_reify_eq)
  from d have "?R \<lparr>fb_sys = s5, fb_at = ?p0(0 := FDone (Inr \<lparr>hp_inner = 16\<rparr>), 1 := FDone (Inr \<lparr>hp_inner = 16\<rparr>))\<rparr>"
    using fb_reify [of "\<lparr>fb_sys = s4, fb_at = ?p0(0 := FDone (Inr \<lparr>hp_inner = 16\<rparr>), 1 := FReify 16)\<rparr>" 1 16 _ s5 ?E] s5
    by (elim reach_step) simp
  then show ?thesis by (intro exI conjI) (assumption, simp_all)
qed

theorem fallback_race_agrees_witness:
  "\<exists>x. reach fb_init (fb_step (std_ext [])) x \<and> fb_at x 1 = FDone (Inr \<lparr>hp_inner = 16\<rparr>)"
  using fb_race_example fallback_race_agrees [of "std_ext []"] by metis

text \<open>C14: the fallback reactor is created once, and what happens when something fails on the way. If the reactor
  cannot be created, the error is returned and nothing is published. Otherwise the first call of \<^verbatim>\<open>fallback\<close> publishes
  its reactor, and the global keeps one weak reference and the caller one; the handle is dead exactly if the reactor
  thread could not be spawned, which is not reported as an error. A second call creates nothing and returns the same
  handle, alive or dead, with one more reference.\<close>

theorem fallback_outcomes:
  assumes "HANDLE_FALLBACK s = 0" and "a \<noteq> 0" and "Reactor_new E a s = (Ret res, s1)"
    and "thread_spawn E (world s1) = (spawned, w)"
  shows "\<exists>t. (case res of
      Inl _ \<Rightarrow> HandlePriv_fallback E a s = (Ret (Inl (IoError Other ''failed to create reactor'')), t) \<and>
        HANDLE_FALLBACK t = 0 \<and> inners t = inners s \<and> weak t = weak s
    | Inr _ \<Rightarrow> HandlePriv_fallback E a s = (Ret (Inr \<lparr>hp_inner = a\<rparr>), t) \<and> HANDLE_FALLBACK t = a \<and>
        weak t a = weak s a + 2 \<and> (HandlePriv_inner \<lparr>hp_inner = a\<rparr> t = None \<longleftrightarrow> (\<exists>e. spawned = Inl e)) \<and>
        (\<exists>u. HandlePriv_fallback E b t = (Ret (Inr \<lparr>hp_inner = a\<rparr>), u) \<and> inners u = inners t \<and>
          weak u a = weak s a + 3 \<and> HANDLE_FALLBACK u = a))"
proof (cases res)
  case (Inl e)
  have "inners s1 = inners s \<and> weak s1 = weak s \<and> HANDLE_FALLBACK s1 = 0"
    using assms(3) by (cases rule: Reactor_new_cases) (use assms(1) Inl in auto)
  then show ?thesis using assms(1,3) Inl by (simp add: HandlePriv_fallback_def)
next
  case (Inr r)
  then have "Reactor_new E a s = (Ret (Inr r), s1)" using assms(3) by simp
  from fallback_fresh [OF assms(1) this] assms(4) obtain t where
    t: "HandlePriv_fallback E a s = (Ret (Inr \<lparr>hp_inner = a\<rparr>), t)" "HANDLE_FALLBACK t = a"
    "weak t = (weak s)(a := weak s a + 2)" "inners t a = None \<longleftrightarrow> (\<exists>e. spawned = Inl e)"
    by (cases spawned) auto
  have "\<exists>u. HandlePriv_fallback E b t = (Ret (Inr \<lparr>hp_inner = a\<rparr>), u) \<and> inners u = inners t \<and>
      weak u a = weak s a + 3 \<and> HANDLE_FALLBACK u = a"
    using assms(2) t(2,3) by (simp add: HandlePriv_fallback_def fallback_reify_eq)
  with t Inr show ?thesis by (intro exI [of _ t]) (simp add: HandlePriv_inner_def)
qed

theorem fallback_outcomes_witness:
  "\<exists>t u. HandlePriv_fallback (std_ext []) 16 sys0 = (Ret (Inr \<lparr>hp_inner = 16\<rparr>), t) \<and>
     HandlePriv_inner \<lparr>hp_inner = 16\<rparr> t \<noteq> None \<and>
     HandlePriv_fallback (std_ext []) 32 t = (Ret (Inr \<lparr>hp_inner = 16\<rparr>), u) \<and> weak u 16 = 3"
proof -
  have "HANDLE_FALLBACK sys0 = 0" "(16::usize) \<noteq> 0" "weak sys0 16 = 0" by (simp_all add: sys0_def)
  moreover have "thread_spawn (std_ext []) 3 = (Inr (), 3)" by (simp add: std_ext_def)
  ultimately show ?thesis using fallback_outcomes [OF _ _ sys0_Reactor_new, of "Inr ()" 3 32] by auto
qed

end
