(* ===== verification/Registration_Cell.thy ===== *)
theory Registration_Cell
  imports Handle_Global
begin

text \<open>
  \<^verbatim>\<open>src/reactor/registration.rs\<close>: the association of one I/O resource with a reactor. The cell has a
  lifecycle word whose low two bits are the state and whose other bits point to a stack of nodes, the
  tasks that polled while another thread was associating the cell.

  The operations are state transformers on the cell and the process. Boxed nodes live in an association
  list from addresses to nodes, \<open>boxes\<close>; freeing a box removes it. A node holds the address of a \<^verbatim>\<open>Waker\<close>, which
  the process may or may not still have when the node is taken from the stack (\<open>wakers\<close>). Following a dangling
  pointer, undefined in the code, panics in the model. Where other threads can act in the middle of an operation, the
  definition takes what they do at that point, to the cell and to the process, as an argument.
\<close>

section \<open>Data\<close>

record RegInner =
  handle :: HandlePriv
  token :: usize

record Node =
  node_direction :: Direction
  node_waker :: usize
  node_next :: usize

record Registration =
  reg_inner :: "RegInner option"
  reg_state :: usize
  boxes :: "(usize \<times> Node) list"

definition INIT :: usize where "INIT = 0"
definition LOCKED :: usize where "LOCKED = 1"
definition READY :: usize where "READY = 2"
definition LIFECYCLE_MASK :: usize where "LIFECYCLE_MASK = 3"
definition ERROR :: usize where "ERROR = - 1"

section \<open>The associated part\<close>

definition RegInner_new ::
  "('aw, 'sl, 'w) ext \<Rightarrow> fd \<Rightarrow> HandlePriv \<Rightarrow> (('sl, 'w) sys, RegInner \<times> unit io_result) op" where
  "RegInner_new E io h s =
     (case HandlePriv_inner h s of
        Some inn \<Rightarrow>
          (case add_source E io inn (world s) of
             (Inr tok, inn', w) \<Rightarrow>
               (Ret (\<lparr>handle = h, token = tok\<rparr>, Inr ()),
                s\<lparr>inners := (inners s)(hp_inner h \<mapsto> inn'), world := w\<rparr>)
           | (Inl e, inn', w) \<Rightarrow>
               (Ret (\<lparr>handle = h, token = ERROR\<rparr>, Inl e),
                s\<lparr>inners := (inners s)(hp_inner h \<mapsto> inn'), world := w\<rparr>))
      | None \<Rightarrow> (Ret (\<lparr>handle = h, token = ERROR\<rparr>, Inl (IoError Other ''event loop gone'')), s))"

definition RegInner_register ::
  "('aw, 'sl, 'w) ext \<Rightarrow> task \<Rightarrow> Direction \<Rightarrow> RegInner \<Rightarrow> (('sl, 'w) sys, unit) op" where
  "RegInner_register E cx dir i s =
     (if token i = ERROR then (Ret (), s\<lparr>woken := woken s @ [cx]\<rparr>)
      else case HandlePriv_inner (handle i) s of
        None \<Rightarrow> (Ret (), s\<lparr>woken := woken s @ [cx]\<rparr>)
      | Some inn \<Rightarrow>
          (case inner_register E cx (token i) dir inn of
             (Ret wk, inn') \<Rightarrow> (Ret (), s\<lparr>inners := (inners s)(hp_inner (handle i) \<mapsto> inn'),
                                         woken := woken s @ wake_of wk\<rparr>)
           | (Panic m, _) \<Rightarrow> (Panic m, s)
           | (OutOfFuel, _) \<Rightarrow> (OutOfFuel, s)))"

definition RegInner_deregister ::
  "('aw, 'sl, 'w) ext \<Rightarrow> fd \<Rightarrow> RegInner \<Rightarrow> (('sl, 'w) sys, unit io_result) op" where
  "RegInner_deregister E io i s =
     (if token i = ERROR then (Ret (Inl (IoError Other ''failed to associate with reactor'')), s)
      else case HandlePriv_inner (handle i) s of
        None \<Rightarrow> (Ret (Inl (IoError Other ''reactor gone'')), s)
      | Some inn \<Rightarrow>
          (case deregister_source E io inn (world s) of (res, w) \<Rightarrow> (Ret res, s\<lparr>world := w\<rparr>)))"

text \<open>One \<^verbatim>\<open>fetch_and\<close> on the readiness: what the direction sees, and all of its bits but \<^verbatim>\<open>hup\<close> cleared.\<close>

definition fetch_ready ::
  "('aw, 'sl, 'w) ext \<Rightarrow> Direction \<Rightarrow> 'aw scheduled_io \<Rightarrow> usize \<times> 'aw scheduled_io" where
  "fetch_ready E dir sched =
     (let mask_no_hup = Direction_mask E dir AND NOT (platform_hup E)
      in (Direction_mask E dir AND readiness sched, sched\<lparr>readiness := readiness sched AND NOT mask_no_hup\<rparr>))"

definition set_waker ::
  "('aw, 'sl, 'w) ext \<Rightarrow> Direction \<Rightarrow> task \<Rightarrow> 'aw scheduled_io \<Rightarrow> 'aw scheduled_io" where
  "set_waker E dir cx sched = (case dir of
      Read \<Rightarrow> sched\<lparr>reader := aw_register E (reader sched) cx\<rparr>
    | Write \<Rightarrow> sched\<lparr>writer := aw_register E (writer sched) cx\<rparr>)"

definition poll_entry ::
  "('aw, 'sl, 'w) ext \<Rightarrow> task option \<Rightarrow> Direction \<Rightarrow> 'aw scheduled_io \<Rightarrow> usize option \<times> 'aw scheduled_io" where
  "poll_entry E cx dir sched =
     (let (r1, sched1) = fetch_ready E dir sched;
          (ready, sched2) = (case cx of
              Some t \<Rightarrow> if r1 = 0 then fetch_ready E dir (set_waker E dir t sched1) else (r1, sched1)
            | None \<Rightarrow> (r1, sched1))
      in (if ready = 0 then None else Some ready, sched2))"

definition RegInner_poll_ready ::
  "('aw, 'sl, 'w) ext \<Rightarrow> task option \<Rightarrow> Direction \<Rightarrow> RegInner \<Rightarrow> (('sl, 'w) sys, usize option io_result) op" where
  "RegInner_poll_ready E cx dir i s =
     (if token i = ERROR then (Ret (Inl (IoError Other ''failed to associate with reactor'')), s)
      else case HandlePriv_inner (handle i) s of
        None \<Rightarrow> (Ret (Inl (IoError Other ''reactor gone'')), s)
      | Some inn \<Rightarrow>
          (case sl_get E (io_dispatch inn) (token i) of
             None \<Rightarrow> (Panic ''invalid key'', s)
           | Some sched \<Rightarrow>
               (case poll_entry E cx dir sched of (ready, sched') \<Rightarrow>
                  (Ret (Inr ready), s\<lparr>inners := (inners s)(hp_inner (handle i) \<mapsto>
                     inn\<lparr>io_dispatch := sl_set E (io_dispatch inn) (token i) sched'\<rparr>)\<rparr>))))"

definition RegInner_drop :: "('aw, 'sl, 'w) ext \<Rightarrow> RegInner \<Rightarrow> (('sl, 'w) sys, unit) op" where
  "RegInner_drop E i s =
     (if token i = ERROR then (Ret (), HandlePriv_drop (handle i) s)
      else case HandlePriv_inner (handle i) s of
        None \<Rightarrow> (Ret (), HandlePriv_drop (handle i) s)
      | Some inn \<Rightarrow>
          (case drop_source E (token i) inn of
             (Ret _, inn') \<Rightarrow> (Ret (), HandlePriv_drop (handle i)
                 (s\<lparr>inners := (inners s)(hp_inner (handle i) \<mapsto> inn')\<rparr>))
           | (Panic m, _) \<Rightarrow> (Panic m, s)
           | (OutOfFuel, _) \<Rightarrow> (OutOfFuel, s)))"

section \<open>Registering\<close>

definition Registration_new :: Registration where
  "Registration_new = \<lparr>reg_inner = None, reg_state = INIT, boxes = []\<rparr>"

definition free_box :: "usize \<Rightarrow> (usize \<times> Node) list \<Rightarrow> (usize \<times> Node) list" where
  "free_box p bs = filter (\<lambda>b. fst b \<noteq> p) bs"

lemma free_box_length: "map_of bs p = Some n \<Longrightarrow> length (free_box p bs) < length bs"
  by (induction bs) (auto simp: free_box_def less_Suc_eq_le)

text \<open>
  The loop that consumes the stack of nodes: each is freed, and the first of either direction has its
  waker registered. It ends because every pass frees a box.
\<close>

function consume_nodes ::
  "('aw, 'sl, 'w) ext \<Rightarrow> RegInner \<Rightarrow> usize \<Rightarrow> bool \<Rightarrow> bool \<Rightarrow> (usize \<times> Node) list \<Rightarrow> ('sl, 'w) sys \<Rightarrow>
     unit outcome \<times> (usize \<times> Node) list \<times> ('sl, 'w) sys" where
  "consume_nodes E i p rd wr bs s =
     (if p = 0 then (Ret (), bs, s)
      else case map_of bs p of
        None \<Rightarrow> (Panic ''dangling node'', bs, s)
      | Some n \<Rightarrow>
          let bs' = free_box p bs;
              seen = (case node_direction n of Read \<Rightarrow> rd | Write \<Rightarrow> wr);
              rd' = (rd \<or> node_direction n = Read); wr' = (wr \<or> node_direction n = Write)
          in if seen then consume_nodes E i (node_next n) rd' wr' bs' s
             else case wakers s (node_waker n) of
               None \<Rightarrow> (Panic ''dangling waker'', bs', s)
             | Some cx \<Rightarrow>
                 (case RegInner_register E cx (node_direction n) i s of
                    (Ret _, s') \<Rightarrow> consume_nodes E i (node_next n) rd' wr' bs' s'
                  | (Panic m, s') \<Rightarrow> (Panic m, bs', s')
                  | (OutOfFuel, s') \<Rightarrow> (OutOfFuel, bs', s')))"
  by pat_completeness auto
termination
  by (relation "measure (\<lambda>(E, i, p, rd, wr, bs, s). length bs)") (auto dest: free_box_length)

declare consume_nodes.simps [simp del]

text \<open>
  \<^verbatim>\<open>register2\<close> after the compare-and-swap from \<^verbatim>\<open>INIT\<close> to \<^verbatim>\<open>LOCKED\<close>: create the association, store it,
  publish \<^verbatim>\<open>READY\<close> with a swap, then serve the tasks that queued up. \<open>env\<close> is what other threads do in
  between: pollers to the cell, the reactor to the new entry, executors to their wakers.
\<close>

definition register_publish ::
  "('aw, 'sl, 'w) ext \<Rightarrow> (Registration \<times> ('sl, 'w) sys, unit) op" where
  "register_publish E = (\<lambda>(reg, s).
     let actual = reg_state reg;
         reg1 = reg\<lparr>reg_state := READY\<rparr>
     in case reg_inner reg1 of
          None \<Rightarrow> (Panic ''called `Option::unwrap()` on a `None` value'', (reg1, s))
        | Some inner \<Rightarrow>
            (case consume_nodes E inner (actual AND NOT LIFECYCLE_MASK) False False (boxes reg1) s of
               (r, bs, s') \<Rightarrow> (r, (reg1\<lparr>boxes := bs\<rparr>, s'))))"

definition register_locked ::
  "('aw, 'sl, 'w) ext \<Rightarrow> (Registration \<times> ('sl, 'w) sys \<Rightarrow> Registration \<times> ('sl, 'w) sys) \<Rightarrow> fd \<Rightarrow> HandlePriv \<Rightarrow>
     (Registration \<times> ('sl, 'w) sys, bool io_result) op" where
  "register_locked E env io h = (\<lambda>(reg, s).
     (case RegInner_new E io h s of
        (Ret (inner, res), s1) \<Rightarrow>
          bnd (register_publish E)
            (\<lambda>_. ret (case res of Inl e \<Rightarrow> Inl e | Inr _ \<Rightarrow> Inr True))
            (env (reg\<lparr>reg_inner := Some inner\<rparr>, s1))
      | (Panic m, s1) \<Rightarrow> (Panic m, (reg, s1))
      | (OutOfFuel, s1) \<Rightarrow> (OutOfFuel, (reg, s1))))"

text \<open>
  The whole of \<^verbatim>\<open>register2\<close>. \<open>env0\<close> acts between the load and the compare-and-swap; when that fails,
  the value found is not \<^verbatim>\<open>INIT\<close> and the second pass of the loop returns \<^verbatim>\<open>Ok(false)\<close>.
\<close>

definition register2 ::
  "('aw, 'sl, 'w) ext \<Rightarrow> (Registration \<times> ('sl, 'w) sys \<Rightarrow> Registration \<times> ('sl, 'w) sys) \<Rightarrow>
     (Registration \<times> ('sl, 'w) sys \<Rightarrow> Registration \<times> ('sl, 'w) sys) \<Rightarrow> fd \<Rightarrow>
     (('sl, 'w) sys, HandlePriv io_result) op \<Rightarrow> (Registration \<times> ('sl, 'w) sys, bool io_result) op" where
  "register2 E env0 env1 io f = (\<lambda>(reg, s).
     if reg_state reg = INIT
     then (case f s of
             (Ret (Inl e), s1) \<Rightarrow> (Ret (Inl e), (reg, s1))
           | (Ret (Inr h), s1) \<Rightarrow>
               let (reg1, s2) = env0 (reg, s1);
                   (actual, new) = compare_and_swap (reg_state reg1) INIT LOCKED
               in if actual \<noteq> INIT then (Ret (Inr False), (reg1, HandlePriv_drop h s2))
                  else register_locked E env1 io h (reg1\<lparr>reg_state := new\<rparr>, s2)
           | (Panic m, s1) \<Rightarrow> (Panic m, (reg, s1))
           | (OutOfFuel, s1) \<Rightarrow> (OutOfFuel, (reg, s1)))
     else (Ret (Inr False), (reg, s)))"

definition Registration_register ::
  "('aw, 'sl, 'w) ext \<Rightarrow> usize \<Rightarrow> fd \<Rightarrow> (Registration \<times> ('sl, 'w) sys, bool io_result) op" where
  "Registration_register E addr io = register2 E id id io (try_current E addr)"

definition Registration_deregister ::
  "('aw, 'sl, 'w) ext \<Rightarrow> fd \<Rightarrow> (Registration \<times> ('sl, 'w) sys, unit io_result) op" where
  "Registration_deregister E io = (\<lambda>(reg, s).
     (case reg_inner reg of
        None \<Rightarrow> (Ret (Inr ()), (reg, s))
      | Some inner \<Rightarrow> (case RegInner_deregister E io inner s of (r, s') \<Rightarrow> (r, (reg, s')))))"

section \<open>Polling\<close>

definition not_registered_msg :: string where
  "not_registered_msg = ''must call `register`'' @ [CHR 0x0A] @ replicate 46 (CHR '' '') @ ''before poll_read_ready''"

text \<open>Pushing a node while the cell is exactly \<^verbatim>\<open>LOCKED\<close>; \<open>addr\<close> is the address of the new box and \<open>waker\<close> that of
  the \<^verbatim>\<open>Waker\<close> of the polling task, \<^verbatim>\<open>cx.waker()\<close>.\<close>

definition push_node :: "usize \<Rightarrow> Direction \<Rightarrow> usize \<Rightarrow> usize \<Rightarrow> Registration \<Rightarrow> Registration" where
  "push_node addr dir waker state reg = reg\<lparr>
     reg_state := addr OR (state AND LIFECYCLE_MASK),
     boxes := (addr, \<lparr>node_direction = dir, node_waker = waker, node_next = state AND NOT LIFECYCLE_MASK\<rparr>) # boxes reg\<rparr>"

text \<open>
  The loop of \<^verbatim>\<open>poll_ready\<close>; \<open>env n\<close> is what other threads do to the cell before the compare-and-swap of
  pass \<open>n\<close>; \<open>addr\<close> holds the address of the box a node would get and that of the context's \<^verbatim>\<open>Waker\<close>.
\<close>

fun poll_ready_loop ::
  "('aw, 'sl, 'w) ext \<Rightarrow> (nat \<Rightarrow> Registration \<Rightarrow> Registration) \<Rightarrow> usize \<times> usize \<Rightarrow> task option \<Rightarrow> Direction \<Rightarrow>
     nat \<Rightarrow> usize \<Rightarrow> (Registration \<times> ('sl, 'w) sys, usize option io_result) op" where
  "poll_ready_loop E env addr cx dir 0 state x = (OutOfFuel, x)"
| "poll_ready_loop E env addr cx dir (Suc fuel) state (reg, s) =
     (if state = INIT then (Ret (Inl (IoError Other not_registered_msg)), (reg, s))
      else if state = READY
      then (case reg_inner reg of
              None \<Rightarrow> (Panic ''called `Option::unwrap()` on a `None` value'', (reg, s))
            | Some inner \<Rightarrow> (case RegInner_poll_ready E cx dir inner s of (r, s') \<Rightarrow> (r, (reg, s'))))
      else if state = LOCKED
      then (case cx of
              None \<Rightarrow> (Ret (Inr None), (reg, s))
            | Some t \<Rightarrow>
                let reg1 = env fuel reg;
                    actual = reg_state reg1
                in if actual \<noteq> state then poll_ready_loop E env addr cx dir fuel actual (reg1, s)
                   else (Ret (Inr None), (push_node (fst addr) dir (snd addr) state reg1, s)))
      else (Panic ''internal error: entered unreachable code'', (reg, s)))"

text \<open>Two passes are enough, see \<open>poll_ready_two_passes\<close>.\<close>

definition reg_poll_ready ::
  "('aw, 'sl, 'w) ext \<Rightarrow> (nat \<Rightarrow> Registration \<Rightarrow> Registration) \<Rightarrow> usize \<times> usize \<Rightarrow> task option \<Rightarrow> Direction \<Rightarrow>
     (Registration \<times> ('sl, 'w) sys, usize option io_result) op" where
  "reg_poll_ready E env addr cx dir x = poll_ready_loop E env addr cx dir 2 (reg_state (fst x)) x"

definition ready_poll :: "usize option io_result \<Rightarrow> usize io_result poll" where
  "ready_poll r = (case r of
      Inr (Some v) \<Rightarrow> Ready (Inr v)
    | Inr None \<Rightarrow> Pending
    | Inl e \<Rightarrow> Ready (Inl e))"

definition Registration_poll_read_ready ::
  "('aw, 'sl, 'w) ext \<Rightarrow> usize \<times> usize \<Rightarrow> task \<Rightarrow> (Registration \<times> ('sl, 'w) sys, usize io_result poll) op" where
  "Registration_poll_read_ready E addr cx =
     bnd (reg_poll_ready E (\<lambda>_. id) addr (Some cx) Read) (\<lambda>r. ret (ready_poll r))"

definition Registration_take_read_ready ::
  "('aw, 'sl, 'w) ext \<Rightarrow> (Registration \<times> ('sl, 'w) sys, usize option io_result) op" where
  "Registration_take_read_ready E = reg_poll_ready E (\<lambda>_. id) (0, 0) None Read"

definition Registration_poll_write_ready ::
  "('aw, 'sl, 'w) ext \<Rightarrow> usize \<times> usize \<Rightarrow> task \<Rightarrow> (Registration \<times> ('sl, 'w) sys, usize io_result poll) op" where
  "Registration_poll_write_ready E addr cx =
     bnd (reg_poll_ready E (\<lambda>_. id) addr (Some cx) Write) (\<lambda>r. ret (ready_poll r))"

definition Registration_take_write_ready ::
  "('aw, 'sl, 'w) ext \<Rightarrow> (Registration \<times> ('sl, 'w) sys, usize option io_result) op" where
  "Registration_take_write_ready E = reg_poll_ready E (\<lambda>_. id) (0, 0) None Write"

text \<open>Dropping a registration drops what it holds.\<close>

definition Registration_drop ::
  "('aw, 'sl, 'w) ext \<Rightarrow> Registration \<Rightarrow> (('sl, 'w) sys, unit) op" where
  "Registration_drop E reg = (case reg_inner reg of None \<Rightarrow> ret () | Some i \<Rightarrow> RegInner_drop E i)"

section \<open>Specification vocabulary\<close>

text \<open>\<open>associated\<close>: the cell is \<^verbatim>\<open>READY\<close> and its token names the live entry \<open>io\<close> of a live reactor.\<close>

definition associated ::
  "('aw, 'sl, 'w) ext \<Rightarrow> Registration \<Rightarrow> ('sl, 'w) sys \<Rightarrow> RegInner \<Rightarrow> 'sl inner \<Rightarrow> 'aw scheduled_io \<Rightarrow> bool" where
  "associated E reg s i inn io \<longleftrightarrow>
     reg_state reg = READY \<and> reg_inner reg = Some i \<and> token i \<noteq> ERROR \<and>
     inners s (hp_inner (handle i)) = Some inn \<and> inner_ok E inn \<and>
     sl_get E (io_dispatch inn) (token i) = Some io"

definition visible :: "('aw, 'sl, 'w) ext \<Rightarrow> Direction \<Rightarrow> 'aw scheduled_io \<Rightarrow> usize" where
  "visible E dir io = Direction_mask E dir AND readiness io"

definition cell_of :: "Direction \<Rightarrow> 'aw scheduled_io \<Rightarrow> 'aw" where
  "cell_of dir io = (case dir of Read \<Rightarrow> reader io | Write \<Rightarrow> writer io)"

text \<open>The readiness \<^verbatim>\<open>Inner::register\<close> looks for: everything but \<^verbatim>\<open>writable\<close>, or \<^verbatim>\<open>writable\<close> alone.\<close>

definition register_mask :: "('aw, 'sl, 'w) ext \<Rightarrow> Direction \<Rightarrow> usize" where
  "register_mask E dir = (case dir of Read \<Rightarrow> NOT (writable E) | Write \<Rightarrow> writable E)"

fun opposite :: "Direction \<Rightarrow> Direction" where
  "opposite Read = Write"
| "opposite Write = Read"

definition reg0 :: "RegInner \<Rightarrow> Registration" where
  "reg0 i = \<lparr>reg_inner = Some i, reg_state = READY, boxes = []\<rparr>"

definition io_hup :: "task option scheduled_io" where
  "io_hup = \<lparr>aba_guard = 0, readiness = 9, reader = Some 3, writer = Some 4\<rparr>"

definition sys_hup :: "(list_slab, nat) sys" where
  "sys_hup = sys0\<lparr>inners := [16 \<mapsto> inner1\<lparr>io_dispatch := [Some io_hup]\<rparr>]\<rparr>"

fun polls :: "('aw, 'sl, 'w) ext \<Rightarrow> (task option \<times> Direction) list \<Rightarrow>
    (Registration \<times> ('sl, 'w) sys, usize option io_result list) op" where
  "polls E [] = ret []"
| "polls E ((cx, dir) # ps) =
     bnd (reg_poll_ready E (\<lambda>_. id) (0, 0) cx dir) (\<lambda>r. bnd (polls E ps) (\<lambda>rs. ret (r # rs)))"

definition sys16 :: "(list_slab, nat) sys" where
  "sys16 = sys0\<lparr>inners := [16 \<mapsto> inner0], weak := (\<lambda>_. 1), HANDLE_FALLBACK := 16\<rparr>"

section \<open>Polling an associated cell\<close>

lemma masks_disjoint:
  assumes "ready_ok E"
  shows "Direction_mask E (opposite dir) AND (Direction_mask E dir AND NOT (platform_hup E)) = 0"
proof (cases dir)
  case Read
  then show ?thesis by (auto simp: Direction_mask_def bit_eq_iff bit_simps)
next
  case Write
  then show ?thesis by (auto simp: Direction_mask_def bit_eq_iff bit_simps)
qed

lemma and_and_not: "m AND n = 0 \<Longrightarrow> m AND (r AND NOT n) = m AND (r :: usize)"
  by (auto simp: bit_eq_iff bit_simps)

lemma fetch_ready_twice:
  "fetch_ready E dir sched = (0, sched1) \<Longrightarrow>
   fetch_ready E dir (set_waker E dir t sched1) = (0, set_waker E dir t sched1)"
proof -
  assume "fetch_ready E dir sched = (0, sched1)"
  then have "Direction_mask E dir AND readiness sched = 0" and
    r1: "readiness sched1 = readiness sched AND NOT (Direction_mask E dir AND NOT (platform_hup E))"
    by (auto simp: fetch_ready_def Let_def)
  then have "Direction_mask E dir AND readiness sched1 = 0"
    and "readiness sched1 AND NOT (Direction_mask E dir AND NOT (platform_hup E)) = readiness sched1"
    by (auto simp: bit_eq_iff bit_simps)
  then show ?thesis by (cases dir; cases sched1) (auto simp: fetch_ready_def Let_def set_waker_def)
qed

text \<open>What one poll does to the entry.\<close>

lemma poll_entry_eq:
  "poll_entry E cx dir io =
     (if visible E dir io = 0 then None else Some (visible E dir io),
      (case cx of
         Some t \<Rightarrow> if visible E dir io = 0 then set_waker E dir t (snd (fetch_ready E dir io))
                   else snd (fetch_ready E dir io)
       | None \<Rightarrow> snd (fetch_ready E dir io)))"
proof (cases "fetch_ready E dir io")
  case (Pair r1 io1)
  then have "r1 = visible E dir io" by (auto simp: fetch_ready_def Let_def visible_def)
  with Pair show ?thesis
    by (auto simp: poll_entry_def fetch_ready_twice split: option.splits)
qed

lemma set_waker_fields [simp]:
  "readiness (set_waker E dir t io) = readiness io" "aba_guard (set_waker E dir t io) = aba_guard io"
  "cell_of dir (set_waker E dir t io) = aw_register E (cell_of dir io) t"
  "cell_of (opposite dir) (set_waker E dir t io) = cell_of (opposite dir) io"
  by (cases dir; simp add: set_waker_def cell_of_def)+

lemma fetch_ready_fields [simp]:
  "readiness (snd (fetch_ready E dir io)) = readiness io AND NOT (Direction_mask E dir AND NOT (platform_hup E))"
  "aba_guard (snd (fetch_ready E dir io)) = aba_guard io"
  "cell_of d (snd (fetch_ready E dir io)) = cell_of d io"
  by (cases d; simp add: fetch_ready_def Let_def cell_of_def)+

lemma poll_entry_spec:
  assumes "poll_entry E cx dir io = (r, io')"
  shows "r = (if visible E dir io = 0 then None else Some (visible E dir io))"
    and "readiness io' = readiness io AND NOT (Direction_mask E dir AND NOT (platform_hup E))"
    and "aba_guard io' = aba_guard io"
    and "cell_of (opposite dir) io' = cell_of (opposite dir) io"
    and "cell_of dir io' = (case cx of Some t \<Rightarrow>
      if r = None then aw_register E (cell_of dir io) t else cell_of dir io | None \<Rightarrow> cell_of dir io)"
  using assms unfolding poll_entry_eq by (auto split: option.splits if_splits)

lemma associated_poll:
  assumes "ext_ok E" and "associated E reg s i inn io" and "poll_entry E cx dir io = (r, io')"
  defines "inn' \<equiv> inn\<lparr>io_dispatch := sl_set E (io_dispatch inn) (token i) io'\<rparr>"
  shows "reg_poll_ready E env addr cx dir (reg, s) =
      (Ret (Inr r), (reg, s\<lparr>inners := (inners s)(hp_inner (handle i) \<mapsto> inn')\<rparr>))"
    and "associated E reg (s\<lparr>inners := (inners s)(hp_inner (handle i) \<mapsto> inn')\<rparr>) i inn' io'"
    and "sl_get E (io_dispatch inn') = (sl_get E (io_dispatch inn))(token i \<mapsto> io')"
proof -
  note A = assms(2) [unfolded associated_def]
  have live: "sl_get E (io_dispatch inn) (token i) = Some io" and ok: "inner_ok E inn" using A by blast+
  show upd: "sl_get E (io_dispatch inn') = (sl_get E (io_dispatch inn))(token i \<mapsto> io')"
    using slab_set(1) [OF assms(1) inner_ok_fits [OF ok] live] by (simp add: inn'_def)
  have "inner_ok E inn'"
    using inner_ok_set [OF assms(1) ok live, of io'] poll_entry_spec(3) [OF assms(3)] by (simp add: inn'_def)
  then show "associated E reg (s\<lparr>inners := (inners s)(hp_inner (handle i) \<mapsto> inn')\<rparr>) i inn' io'"
    using A upd by (simp add: associated_def)
  show "reg_poll_ready E env addr cx dir (reg, s) =
      (Ret (Inr r), (reg, s\<lparr>inners := (inners s)(hp_inner (handle i) \<mapsto> inn')\<rparr>))"
    using A assms(3)
    by (simp add: reg_poll_ready_def numeral_2_eq_2 RegInner_poll_ready_def HandlePriv_inner_def
        READY_def INIT_def inn'_def)
qed

text \<open>A run of polls of one cell: each with or without a waker, in either direction.\<close>

section \<open>Properties of polling\<close>

text \<open>C16: \<^verbatim>\<open>poll_ready\<close> on an associated cell. It reports exactly the bits of its direction, consumes them all
  except \<^verbatim>\<open>hup\<close>, and touches neither the bits nor the waker of the other direction nor any other source;
  when it has nothing to report, the task is parked in its own direction's waker cell.\<close>

theorem poll_ready_consumes:
  assumes "ext_ok E" and "associated E reg s i inn io"
  shows "\<exists>r s' inn' io'. reg_poll_ready E env addr cx dir (reg, s) = (Ret (Inr r), (reg, s')) \<and>
    associated E reg s' i inn' io' \<and> woken s' = woken s \<and>
    (\<forall>k. k \<noteq> token i \<longrightarrow> sl_get E (io_dispatch inn') k = sl_get E (io_dispatch inn) k) \<and>
    r = (if visible E dir io = 0 then None else Some (visible E dir io)) \<and>
    visible E dir io' = visible E dir io AND platform_hup E \<and>
    visible E (opposite dir) io' = visible E (opposite dir) io \<and>
    cell_of (opposite dir) io' = cell_of (opposite dir) io \<and>
    (\<forall>t. cx = Some t \<and> r = None \<longrightarrow> aw_held E (cell_of dir io') = Some t)"
proof -
  obtain r io' where p: "poll_entry E cx dir io = (r, io')" by fastforce
  note spec = poll_entry_spec [OF p]
  have "visible E dir io' = visible E dir io AND platform_hup E"
    unfolding visible_def spec(2) by (auto simp: bit_eq_iff bit_simps)
  moreover have "visible E (opposite dir) io' = visible E (opposite dir) io"
    unfolding visible_def spec(2)
    by (rule and_and_not) (rule masks_disjoint [OF ext_ok_ready [OF assms(1)]])
  moreover have "\<forall>t. cx = Some t \<and> r = None \<longrightarrow> aw_held E (cell_of dir io') = Some t"
    using spec(5) assms(1) by auto
  moreover note associated_poll(1) [OF assms p, of env addr] associated_poll(2,3) [OF assms p] spec(1,4)
  ultimately show ?thesis by (intro exI conjI) (assumption | simp)+
qed

lemma sys_hup_associated:
  "associated (std_ext []) (reg0 \<lparr>handle = \<lparr>hp_inner = 16\<rparr>, token = 0\<rparr>) sys_hup
     \<lparr>handle = \<lparr>hp_inner = 16\<rparr>, token = 0\<rparr> (inner1\<lparr>io_dispatch := [Some io_hup]\<rparr>) io_hup"
  by (simp add: associated_def reg0_def sys_hup_def inner_ok_def inner1_def inner0_def std_ext_def
      ls_get_def ERROR_def io_hup_def MAX_SOURCES_def TOKEN_SHIFT_def split: if_splits)

theorem poll_ready_consumes_witness:
  "\<exists>s'. reg_poll_ready (std_ext []) (\<lambda>_. id) (64, 72) (Some 5) Read
      (reg0 \<lparr>handle = \<lparr>hp_inner = 16\<rparr>, token = 0\<rparr>, sys_hup) =
      (Ret (Inr (Some 9)), (reg0 \<lparr>handle = \<lparr>hp_inner = 16\<rparr>, token = 0\<rparr>, s'))"
proof -
  have "visible (std_ext []) Read io_hup = 9"
    by (simp add: visible_def io_hup_def std_ext_def Direction_mask_def)
  with poll_ready_consumes [OF std_ext_ok sys_hup_associated, of "\<lambda>_. id" "(64, 72)" "Some 5" Read] show ?thesis
    by auto
qed

lemma hup_in_masks: "ready_ok E \<Longrightarrow> cfg_unix E \<Longrightarrow> unix_hup E AND Direction_mask E dir = unix_hup E"
  using ready_okD(6,9) [of E] by (cases dir) (auto simp: Direction_mask_def platform_hup_def bit_eq_iff bit_simps)

lemma hup_visible:
  assumes "ready_ok E" and "cfg_unix E" and "readiness io AND unix_hup E \<noteq> 0"
  shows "visible E dir io AND unix_hup E = readiness io AND unix_hup E" and "visible E dir io \<noteq> 0"
proof -
  show "visible E dir io AND unix_hup E = readiness io AND unix_hup E"
    using hup_in_masks [OF assms(1,2), of dir] by (auto simp: visible_def bit_eq_iff bit_simps)
  then show "visible E dir io \<noteq> 0" using assms(3) by auto
qed

text \<open>C17: \<^verbatim>\<open>HUP\<close> is final: once the peer hung up, every poll of the cell, in either direction and however
  often, reports \<^verbatim>\<open>Some\<close> with the \<^verbatim>\<open>hup\<close> bit; no poll can consume it.\<close>

theorem hup_is_sticky:
  assumes "ext_ok E" and "cfg_unix E" and "associated E reg s i inn io"
    and "readiness io AND unix_hup E \<noteq> 0"
  shows "\<exists>rs s'. polls E ps (reg, s) = (Ret rs, (reg, s')) \<and> length rs = length ps \<and>
    (\<forall>r \<in> set rs. \<exists>v. r = Inr (Some v) \<and> v AND unix_hup E = readiness io AND unix_hup E)"
  using assms(3,4)
proof (induction ps arbitrary: s inn io)
  case Nil
  then show ?case by simp
next
  case (Cons p ps)
  obtain cx dir where p: "p = (cx, dir)" by fastforce
  obtain r io' where e: "poll_entry E cx dir io = (r, io')" by fastforce
  note spec = poll_entry_spec [OF e] and hup = hup_visible [OF ext_ok_ready [OF assms(1)] assms(2) Cons.prems(2), of dir]
  note run = associated_poll [OF assms(1) Cons.prems(1) e]
  have "readiness io' AND unix_hup E = readiness io AND unix_hup E"
    using assms(2) by (auto simp: spec(2) platform_hup_def bit_eq_iff bit_simps)
  with Cons.IH [OF run(2)] Cons.prems(2) run(1) [of "\<lambda>_. id" "(0, 0)"] hup spec(1) show ?case
    by (fastforce simp: p)
qed

theorem hup_is_sticky_witness:
  "\<exists>rs s'. polls (std_ext []) [(Some 5, Read), (None, Write), (Some 5, Read)]
      (reg0 \<lparr>handle = \<lparr>hp_inner = 16\<rparr>, token = 0\<rparr>, sys_hup) =
      (Ret rs, (reg0 \<lparr>handle = \<lparr>hp_inner = 16\<rparr>, token = 0\<rparr>, s')) \<and> length rs = 3"
proof -
  have "cfg_unix (std_ext [])" "readiness io_hup AND unix_hup (std_ext []) \<noteq> 0"
    by (simp_all add: std_ext_def io_hup_def)
  from hup_is_sticky [OF std_ext_ok this(1) sys_hup_associated this(2),
      of "[(Some 5, Read), (None, Write), (Some 5, Read)]"]
  show ?thesis by auto
qed

section \<open>Properties of registering\<close>

lemma RegInner_new_ok:
  assumes "ext_ok E" and "inners s (hp_inner h) = Some inn" and "inner_ok E inn"
    and "add_source E io inn (world s) = (Inr k, inn', w)"
  shows "RegInner_new E io h s = (Ret (\<lparr>handle = h, token = k\<rparr>, Inr ()),
      s\<lparr>inners := (inners s)(hp_inner h \<mapsto> inn'), world := w\<rparr>)"
    and "sl_get E (io_dispatch inn') = (sl_get E (io_dispatch inn))(k \<mapsto>
      \<lparr>aba_guard = next_aba_guard inn, readiness = 0, reader = aw_new E, writer = aw_new E\<rparr>)"
    and "sl_get E (io_dispatch inn) k = None" and "inner_ok E inn'" and "k \<noteq> ERROR"
proof -
  show "RegInner_new E io h s = (Ret (\<lparr>handle = h, token = k\<rparr>, Inr ()),
      s\<lparr>inners := (inners s)(hp_inner h \<mapsto> inn'), world := w\<rparr>)"
    using assms(2,4) by (simp add: RegInner_new_def HandlePriv_inner_def)
  from assms(4) obtain slab where ins: "sl_insert E (io_dispatch inn) \<lparr>aba_guard = next_aba_guard inn,
      readiness = 0, reader = aw_new E, writer = aw_new E\<rparr> = (k, slab)"
    and inn': "inn' = inn\<lparr>next_aba_guard := next_aba_guard inn + push_bit TOKEN_SHIFT 1, io_dispatch := slab\<rparr>"
    by (rule add_source_InrE)
  show get: "sl_get E (io_dispatch inn') = (sl_get E (io_dispatch inn))(k \<mapsto>
      \<lparr>aba_guard = next_aba_guard inn, readiness = 0, reader = aw_new E, writer = aw_new E\<rparr>)"
    and "sl_get E (io_dispatch inn) k = None"
    using slab_insert(1,2) [OF assms(1) inner_ok_fits [OF assms(3)] ins] by (simp_all add: inn')
  show ok: "inner_ok E inn'" by (rule add_source_ok [OF assms(1,3,4)])
  have "sl_get E (io_dispatch inn') k \<noteq> None" by (simp add: get)
  then show "k \<noteq> ERROR"
    using inner_ok_key(2) [OF assms(1) ok] key_not_reserved(2) by (force simp: ERROR_def)
qed

lemma consume_none: "consume_nodes E i 0 rd wr bs s = (Ret (), bs, s)"
  by (simp add: consume_nodes.simps)

text \<open>An undisturbed registration of a new cell.\<close>

lemma register_run:
  assumes "ext_ok E" and "f s = (Ret (Inr h), s1)" and "inners s1 (hp_inner h) = Some inn"
    and "inner_ok E inn" and "add_source E io inn (world s1) = (Inr k, inn', w)"
  shows "register2 E id id io f (Registration_new, s) =
    (Ret (Inr True), (\<lparr>reg_inner = Some \<lparr>handle = h, token = k\<rparr>, reg_state = READY, boxes = []\<rparr>,
      s1\<lparr>inners := (inners s1)(hp_inner h \<mapsto> inn'), world := w\<rparr>))"
proof -
  have "LOCKED AND NOT LIFECYCLE_MASK = 0" by (simp add: LOCKED_def LIFECYCLE_MASK_def)
  then show ?thesis
    using assms(2) RegInner_new_ok(1) [OF assms(1,3-5)]
    by (simp add: register2_def Registration_new_def compare_and_swap_def register_locked_def
        register_publish_def Let_def consume_none)
qed

text \<open>A poll that found the cell locked leaves one node; the publishing thread serves it.\<close>

lemma consume_one:
  assumes "addr \<noteq> 0"
  shows "consume_nodes E i addr False False [(addr, \<lparr>node_direction = dir, node_waker = p, node_next = 0\<rparr>)] s =
    (case wakers s p of
       None \<Rightarrow> (Panic ''dangling waker'', [], s)
     | Some t \<Rightarrow> (case RegInner_register E t dir i s of (r, s') \<Rightarrow> (r, [], s')))"
proof (cases "wakers s p")
  case None
  with assms show ?thesis by (cases dir) (simp_all add: consume_nodes.simps [of E i addr] free_box_def)
next
  case (Some t)
  with assms show ?thesis
    by (cases dir; cases "RegInner_register E t dir i s"; cases "fst (RegInner_register E t dir i s)")
      (auto simp: consume_nodes.simps [of E i addr] consume_nodes.simps [of E i 0] free_box_def Let_def)
qed

lemma push_state:
  assumes "addr AND LIFECYCLE_MASK = 0"
  shows "(addr OR (LOCKED AND LIFECYCLE_MASK)) AND NOT LIFECYCLE_MASK = addr"
    and "LOCKED AND NOT LIFECYCLE_MASK = 0"
proof -
  have "LOCKED AND LIFECYCLE_MASK = LOCKED" "LOCKED AND NOT LIFECYCLE_MASK = 0"
    by (simp_all add: LOCKED_def LIFECYCLE_MASK_def)
  then show "(addr OR (LOCKED AND LIFECYCLE_MASK)) AND NOT LIFECYCLE_MASK = addr"
    and "LOCKED AND NOT LIFECYCLE_MASK = 0"
    using token_split(2) [of addr LIFECYCLE_MASK LOCKED] assms by simp_all
qed

text \<open>Registering a waker on a live entry wakes the task if the entry is ready for it and parks it there otherwise.\<close>

lemma RegInner_register_live:
  assumes "ext_ok E" and "inners s (hp_inner (handle i)) = Some inn" and "inner_ok E inn"
    and "sl_get E (io_dispatch inn) (token i) = Some io" and "token i \<noteq> ERROR"
  obtains inn' io' where
    "RegInner_register E t dir i s = (Ret (), s\<lparr>inners := (inners s)(hp_inner (handle i) \<mapsto> inn'),
       woken := woken s @ (if readiness io AND register_mask E dir \<noteq> 0 then [t] else [])\<rparr>)"
    and "inner_ok E inn'" and "sl_get E (io_dispatch inn') = (sl_get E (io_dispatch inn))(token i \<mapsto> io')"
    and "readiness io' = readiness io" and "cell_of (opposite dir) io' = cell_of (opposite dir) io"
    and "readiness io AND register_mask E dir = 0 \<Longrightarrow> aw_held E (cell_of dir io') = Some t"
proof -
  let ?hit = "readiness io AND register_mask E dir \<noteq> 0"
  let ?cell = "aw_register E (cell_of dir io) t"
  let ?c = "if ?hit then snd (aw_wake E ?cell) else ?cell"
  let ?io = "case dir of Read \<Rightarrow> io\<lparr>reader := ?c\<rparr> | Write \<Rightarrow> io\<lparr>writer := ?c\<rparr>"
  let ?inn = "inn\<lparr>io_dispatch := sl_set E (io_dispatch inn) (token i) ?io\<rparr>"
  have run: "inner_register E t (token i) dir inn = (Ret (if ?hit then Some t else None), ?inn)"
    by (cases dir) (simp_all add: inner_register_eq [OF assms(4)] Let_def assms(1) cell_of_def register_mask_def)
  show thesis
  proof (rule that [of ?inn ?io])
    show "RegInner_register E t dir i s = (Ret (), s\<lparr>inners := (inners s)(hp_inner (handle i) \<mapsto> ?inn),
        woken := woken s @ (if ?hit then [t] else [])\<rparr>)"
      using assms(2,5) by (simp add: RegInner_register_def HandlePriv_inner_def run wake_of_def)
    show "inner_ok E ?inn" by (rule inner_ok_set [OF assms(1,3,4)]) (simp split: Direction.split)
    show "sl_get E (io_dispatch ?inn) = (sl_get E (io_dispatch inn))(token i \<mapsto> ?io)"
      using slab_set(1) [OF assms(1) inner_ok_fits [OF assms(3)] assms(4)] by simp
    show "aw_held E (cell_of dir ?io) = Some t" if "readiness io AND register_mask E dir = 0"
      using that assms(1) by (cases dir) (simp_all add: cell_of_def)
  qed (cases dir; simp add: cell_of_def)+
qed


lemma inner0_add: "add_source (std_ext []) 7 inner0 w = (Inr 0,
    inner0\<lparr>next_aba_guard := 4194304, io_dispatch :=
      [Some \<lparr>aba_guard = 0, readiness = 0, reader = None, writer = None\<rparr>]\<rparr>, w)"
  by (simp add: add_source_def inner0_def std_ext_def ls_insert_def TOKEN_SHIFT_def)


text \<open>C19: when the association fails, because the reactor is gone or \<^verbatim>\<open>add_source\<close> refused the source, \<^verbatim>\<open>register\<close>
  returns that error once; the cell is \<^verbatim>\<open>READY\<close> all the same, so every later poll fails with "failed to
  associate with reactor" and a later \<^verbatim>\<open>register\<close> returns \<^verbatim>\<open>Ok(false)\<close>, which the documentation reserves for
  cells that were registered successfully.\<close>

theorem register_failure_is_final:
  assumes "f s = (Ret (Inr h), s1)"
    and "case inners s1 (hp_inner h) of None \<Rightarrow> e = IoError Other ''event loop gone''
         | Some inn \<Rightarrow> fst (add_source E io inn (world s1)) = Inl e"
  shows "\<exists>reg' s'. register2 E id id io f (Registration_new, s) = (Ret (Inl e), (reg', s')) \<and>
    register2 E id id io g (reg', s') = (Ret (Inr False), (reg', s')) \<and>
    reg_poll_ready E env addr cx dir (reg', s') =
      (Ret (Inl (IoError Other ''failed to associate with reactor'')), (reg', s')) \<and>
    Registration_deregister E io (reg', s') =
      (Ret (Inl (IoError Other ''failed to associate with reactor'')), (reg', s'))"
proof -
  obtain s2 where new: "RegInner_new E io h s1 = (Ret (\<lparr>handle = h, token = ERROR\<rparr>, Inl e), s2)"
  proof (cases "inners s1 (hp_inner h)")
    case None
    with assms(2) that show thesis by (simp add: RegInner_new_def HandlePriv_inner_def)
  next
    case (Some inn)
    then obtain inn' w where "add_source E io inn (world s1) = (Inl e, inn', w)"
      using assms(2) by (cases "add_source E io inn (world s1)") auto
    with Some that show thesis by (simp add: RegInner_new_def HandlePriv_inner_def)
  qed
  let ?reg = "\<lparr>reg_inner = Some \<lparr>handle = h, token = ERROR\<rparr>, reg_state = READY, boxes = []\<rparr>"
  have "LOCKED AND NOT LIFECYCLE_MASK = 0" by (simp add: LOCKED_def LIFECYCLE_MASK_def)
  then have "register2 E id id io f (Registration_new, s) = (Ret (Inl e), (?reg, s2))"
    using assms(1) new
    by (simp add: register2_def Registration_new_def compare_and_swap_def register_locked_def
        register_publish_def Let_def consume_none)
  then show ?thesis
    by (auto simp: register2_def READY_def INIT_def reg_poll_ready_def numeral_2_eq_2
        RegInner_poll_ready_def Registration_deregister_def RegInner_deregister_def)
qed

theorem register_failure_is_final_witness:
  "\<exists>reg' s'. register2 (std_ext []) id id 7 (\<lambda>s. (Ret (Inr \<lparr>hp_inner = 48\<rparr>), s)) (Registration_new, sys16) =
     (Ret (Inl (IoError Other ''event loop gone'')), (reg', s'))"
proof -
  have "case inners sys16 (hp_inner \<lparr>hp_inner = 48\<rparr>) of None \<Rightarrow>
      IoError Other ''event loop gone'' = IoError Other ''event loop gone''
      | Some inn \<Rightarrow> fst (add_source (std_ext []) 7 inn (world sys16)) = Inl (IoError Other ''event loop gone'')"
    by (simp add: sys16_def sys0_def)
  from register_failure_is_final [where f = "\<lambda>s. (Ret (Inr \<lparr>hp_inner = 48\<rparr>), s)" and s = sys16, OF refl this] show ?thesis by blast
qed

text \<open>C20: registering and dropping is a round trip: after a successful \<^verbatim>\<open>register\<close>, dropping the cell frees
  its slot, leaves every other source alone and returns the weak reference it held.\<close>

theorem register_drop_roundtrip:
  assumes "ext_ok E" and "f s = (Ret (Inr h), s1)" and "inners s1 (hp_inner h) = Some inn"
    and "inner_ok E inn" and "add_source E io inn (world s1) = (Inr k, inn', w)"
  shows "\<exists>reg' s' t inn2. register2 E id id io f (Registration_new, s) = (Ret (Inr True), (reg', s')) \<and>
    Registration_drop E reg' s' = (Ret (), t) \<and> inners t = (inners s1)(hp_inner h \<mapsto> inn2) \<and>
    inner_ok E inn2 \<and> sl_get E (io_dispatch inn2) = sl_get E (io_dispatch inn) \<and>
    weak t (hp_inner h) = weak s1 (hp_inner h) - 1"
proof -
  note new = RegInner_new_ok [OF assms(1,3-5)]
  let ?i = "\<lparr>handle = h, token = k\<rparr>"
  let ?s2 = "s1\<lparr>inners := (inners s1)(hp_inner h \<mapsto> inn'), world := w\<rparr>"
  let ?reg = "\<lparr>reg_inner = Some ?i, reg_state = READY, boxes = []\<rparr>"
  have run: "register2 E id id io f (Registration_new, s) = (Ret (Inr True), (?reg, ?s2))"
    by (rule register_run [where f = f and s = s, OF assms])
  have "sl_get E (io_dispatch inn') k \<noteq> None" by (simp add: new(2))
  then obtain inn2 where d: "drop_source E k inn' = (Ret (), inn2)" "inner_ok E inn2"
    "sl_get E (io_dispatch inn2) = (sl_get E (io_dispatch inn'))(k := None)"
    using drop_source_ok [OF assms(1) new(4)] by (metis option.exhaust)
  let ?t = "HandlePriv_drop h (?s2\<lparr>inners := (inners ?s2)(hp_inner h \<mapsto> inn2)\<rparr>)"
  have "Registration_drop E ?reg ?s2 = (Ret (), ?t)"
    using d(1) new(5) by (simp add: Registration_drop_def RegInner_drop_def HandlePriv_inner_def)
  moreover have "sl_get E (io_dispatch inn2) = sl_get E (io_dispatch inn)"
    using d(3) new(2,3) by (auto simp: fun_eq_iff)
  moreover have "inners ?t = (inners s1)(hp_inner h \<mapsto> inn2)" "weak ?t (hp_inner h) = weak s1 (hp_inner h) - 1"
    by (simp_all add: HandlePriv_drop_def)
  ultimately show ?thesis using run d(2) by blast
qed

theorem register_drop_roundtrip_witness:
  "\<exists>reg' s' t. register2 (std_ext []) id id 7 (\<lambda>s. (Ret (Inr \<lparr>hp_inner = 16\<rparr>), s)) (Registration_new, sys16) =
     (Ret (Inr True), (reg', s')) \<and> Registration_drop (std_ext []) reg' s' = (Ret (), t) \<and> weak t 16 = 0"
proof -
  have "inners sys16 (hp_inner \<lparr>hp_inner = 16\<rparr>) = Some inner0" "weak sys16 (hp_inner \<lparr>hp_inner = 16\<rparr>) = 1"
    by (simp_all add: sys16_def)
  with register_drop_roundtrip [where f = "\<lambda>s. (Ret (Inr \<lparr>hp_inner = 16\<rparr>), s)" and s = sys16,
      OF std_ext_ok refl this(1) inner0_ok inner0_add] show ?thesis by auto
qed

lemma RegInner_poll_ready_returns: "fst (RegInner_poll_ready E cx dir i s) \<noteq> OutOfFuel"
  by (auto simp: RegInner_poll_ready_def split: option.splits prod.splits)

lemma poll_ready_settled:
  "st \<noteq> LOCKED \<Longrightarrow> fst (poll_ready_loop E env addr cx dir (Suc n) st (reg, s)) \<noteq> OutOfFuel"
  by (cases "reg_inner reg"; cases "RegInner_poll_ready E cx dir (the (reg_inner reg)) s")
    (use RegInner_poll_ready_returns [of E cx dir "the (reg_inner reg)" s] in auto)

text \<open>C21: the loop of \<^verbatim>\<open>poll_ready\<close> ends within two passes, whatever other threads do to the cell: a failed
  compare-and-swap means the cell left the state \<^verbatim>\<open>LOCKED\<close>, and every other state leaves the loop.\<close>

theorem poll_ready_terminates:
  "fst (poll_ready_loop E env addr cx dir (Suc (Suc n)) st x) \<noteq> OutOfFuel"
proof (cases "st = LOCKED")
  case False
  then show ?thesis by (cases x) (simp only: poll_ready_settled not_False_eq_True)
next
  case True
  obtain reg s where x: "x = (reg, s)" by fastforce
  have ne: "LOCKED \<noteq> INIT" "LOCKED \<noteq> READY" by (simp_all add: LOCKED_def INIT_def READY_def)
  show ?thesis
  proof (cases "cx = None \<or> reg_state (env (Suc n) reg) = LOCKED")
    case True
    with ne \<open>st = LOCKED\<close> show ?thesis by (auto simp: x split: option.splits)
  next
    case False
    then obtain t where "cx = Some t" by auto
    then have "poll_ready_loop E env addr cx dir (Suc (Suc n)) st x =
        poll_ready_loop E env addr cx dir (Suc n) (reg_state (env (Suc n) reg)) (env (Suc n) reg, s)"
      unfolding x poll_ready_loop.simps(2) [of E env addr cx dir "Suc n" st] using ne \<open>st = LOCKED\<close> False
      by (simp add: Let_def del: poll_ready_loop.simps(2))
    with False show ?thesis using poll_ready_settled by metis
  qed
qed

end
