(* ===== verification/Registration_Protocol.thy ===== *)
theory Registration_Protocol
  imports Registration_Cell
begin

text \<open>
  The two places where \<^verbatim>\<open>src/reactor/registration.rs\<close> is lock-free, as step relations over the atomic accesses:
  the lifecycle word of a cell that any number of threads register and poll (\<open>cell_step\<close>), and the readiness word
  and waker cell of one entry, shared by a polling task and the reactor's \<^verbatim>\<open>dispatch\<close> (\<open>race_step\<close>).

  In \<open>cell_step\<close> every access to the lifecycle word is a step; the swap to \<^verbatim>\<open>READY\<close> makes one step with the loop that
  serves the queued nodes after it, since the nodes belong to the swapping thread alone by then.
\<close>

section \<open>The lifecycle of a cell\<close>

datatype cell_pc =
    TIdle
  | RLoad | RHandle | RNew HandlePriv | RPublish "unit io_result" | RegDone "bool io_result" | RPanic string
  | PLoad task Direction | PLoop task Direction usize | PDone "usize option io_result" | PUnreachable

record ('sl, 'w) cells =
  cell :: Registration
  csys :: "('sl, 'w) sys"
  thr :: "nat \<Rightarrow> cell_pc"
  waker_of :: "nat \<Rightarrow> usize option"

definition cell_init :: "('sl, 'w) cells \<Rightarrow> bool" where
  "cell_init x \<longleftrightarrow> cell x = Registration_new \<and> (\<forall>i. thr x i = TIdle \<and> waker_of x i = None)"

text \<open>
  \<open>f\<close> looks up the current reactor, \<open>io\<close> is the resource. The box of a node is aligned and new. A poll gets a context
  with a waker at some address, which is borrowed until the poll returns (\<open>waker_of\<close>); nothing keeps it after that.
\<close>

inductive cell_step ::
  "('aw, 'sl, 'w) ext \<Rightarrow> fd \<Rightarrow> (('sl, 'w) sys, HandlePriv io_result) op \<Rightarrow>
     ('sl, 'w) cells \<Rightarrow> ('sl, 'w) cells \<Rightarrow> bool" for E io f where
  call_register: "thr x i = TIdle \<Longrightarrow> cell_step E io f x (x\<lparr>thr := (thr x)(i := RLoad)\<rparr>)"
| call_poll: "thr x i = TIdle \<Longrightarrow> wakers (csys x) p = None \<or> wakers (csys x) p = Some t \<Longrightarrow>
     cell_step E io f x (x\<lparr>csys := (csys x)\<lparr>wakers := (wakers (csys x))(p \<mapsto> t)\<rparr>,
       thr := (thr x)(i := PLoad t d), waker_of := (waker_of x)(i \<mapsto> p)\<rparr>)"
| drop_waker: "(\<And>i. waker_of x i \<noteq> Some p) \<Longrightarrow>
     cell_step E io f x (x\<lparr>csys := (csys x)\<lparr>wakers := (wakers (csys x))(p := None)\<rparr>\<rparr>)"
| register_load: "thr x i = RLoad \<Longrightarrow> cell_step E io f x
     (x\<lparr>thr := (thr x)(i := (if reg_state (cell x) = INIT then RHandle else RegDone (Inr False)))\<rparr>)"
| register_handle_err: "thr x i = RHandle \<Longrightarrow> f (csys x) = (Ret (Inl e), s) \<Longrightarrow>
     cell_step E io f x (x\<lparr>csys := s, thr := (thr x)(i := RegDone (Inl e))\<rparr>)"
| register_cas: "thr x i = RHandle \<Longrightarrow> f (csys x) = (Ret (Inr h), s) \<Longrightarrow>
     compare_and_swap (reg_state (cell x)) INIT LOCKED = (act, v) \<Longrightarrow>
     cell_step E io f x (x\<lparr>cell := (cell x)\<lparr>reg_state := v\<rparr>,
       csys := (if act = INIT then s else HandlePriv_drop h s),
       thr := (thr x)(i := (if act = INIT then RNew h else RegDone (Inr False)))\<rparr>)"
| register_new: "thr x i = RNew h \<Longrightarrow> RegInner_new E io h (csys x) = (Ret (inn, res), s) \<Longrightarrow>
     cell_step E io f x (x\<lparr>cell := (cell x)\<lparr>reg_inner := Some inn\<rparr>, csys := s,
       thr := (thr x)(i := RPublish res)\<rparr>)"
| register_swap: "thr x i = RPublish res \<Longrightarrow> register_publish E (cell x, csys x) = (Ret (), (reg, s)) \<Longrightarrow>
     cell_step E io f x (x\<lparr>cell := reg, csys := s,
       thr := (thr x)(i := RegDone (case res of Inl e \<Rightarrow> Inl e | Inr _ \<Rightarrow> Inr True))\<rparr>)"
| register_panic: "thr x i = RPublish res \<Longrightarrow> register_publish E (cell x, csys x) = (Panic m, (reg, s)) \<Longrightarrow>
     cell_step E io f x (x\<lparr>cell := reg, csys := s, thr := (thr x)(i := RPanic m)\<rparr>)"
| poll_load: "thr x i = PLoad t d \<Longrightarrow>
     cell_step E io f x (x\<lparr>thr := (thr x)(i := PLoop t d (reg_state (cell x)))\<rparr>)"
| poll_init: "thr x i = PLoop t d INIT \<Longrightarrow>
     cell_step E io f x (x\<lparr>thr := (thr x)(i := PDone (Inl (IoError Other not_registered_msg)))\<rparr>)"
| poll_ready: "thr x i = PLoop t d READY \<Longrightarrow> reg_inner (cell x) = Some inn \<Longrightarrow>
     RegInner_poll_ready E (Some t) d inn (csys x) = (Ret r, s) \<Longrightarrow>
     cell_step E io f x (x\<lparr>csys := s, thr := (thr x)(i := PDone r)\<rparr>)"
| poll_push: "thr x i = PLoop t d LOCKED \<Longrightarrow> reg_state (cell x) = LOCKED \<Longrightarrow>
     waker_of x i = Some p \<Longrightarrow> addr \<noteq> 0 \<Longrightarrow> addr AND LIFECYCLE_MASK = 0 \<Longrightarrow>
     cell_step E io f x (x\<lparr>cell := push_node addr d p LOCKED (cell x), thr := (thr x)(i := PDone (Inr None))\<rparr>)"
| poll_retry: "thr x i = PLoop t d LOCKED \<Longrightarrow> reg_state (cell x) \<noteq> LOCKED \<Longrightarrow>
     cell_step E io f x (x\<lparr>thr := (thr x)(i := PLoop t d (reg_state (cell x)))\<rparr>)"
| poll_unreachable: "thr x i = PLoop t d st \<Longrightarrow> st \<notin> {INIT, READY, LOCKED} \<Longrightarrow>
     cell_step E io f x (x\<lparr>thr := (thr x)(i := PUnreachable)\<rparr>)"
| return_register: "thr x i = RegDone r \<Longrightarrow> cell_step E io f x (x\<lparr>thr := (thr x)(i := TIdle)\<rparr>)"
| return_poll: "thr x i = PDone v \<Longrightarrow>
     cell_step E io f x (x\<lparr>thr := (thr x)(i := TIdle), waker_of := (waker_of x)(i := None)\<rparr>)"

fun holds_lock :: "cell_pc \<Rightarrow> bool" where
  "holds_lock (RNew _) = True"
| "holds_lock (RPublish _) = True"
| "holds_lock _ = False"

text \<open>The shapes a cell can have: idle, locked with at most one queued node, ready.\<close>

definition cell_shape :: "Registration \<Rightarrow> bool" where
  "cell_shape r \<longleftrightarrow>
     (reg_state r = INIT \<and> reg_inner r = None \<and> boxes r = []) \<or>
     (reg_state r = LOCKED \<and> boxes r = []) \<or>
     (\<exists>a n. reg_state r = a OR LOCKED \<and> a \<noteq> 0 \<and> a AND LIFECYCLE_MASK = 0 \<and> boxes r = [(a, n)] \<and> node_next n = 0) \<or>
     (reg_state r = READY \<and> reg_inner r \<noteq> None \<and> boxes r = [])"

definition cell_inv :: "('sl, 'w) cells \<Rightarrow> bool" where
  "cell_inv x \<longleftrightarrow> cell_shape (cell x) \<and>
     (\<forall>i. holds_lock (thr x i) \<longrightarrow> reg_state (cell x) AND LIFECYCLE_MASK = LOCKED) \<and>
     (\<forall>i j. holds_lock (thr x i) \<longrightarrow> holds_lock (thr x j) \<longrightarrow> i = j) \<and>
     (reg_state (cell x) AND LIFECYCLE_MASK = LOCKED \<longrightarrow> (\<exists>i. holds_lock (thr x i))) \<and>
     (\<forall>i h. thr x i = RNew h \<longrightarrow> reg_inner (cell x) = None) \<and>
     (\<forall>i res. thr x i = RPublish res \<longrightarrow> reg_inner (cell x) \<noteq> None) \<and>
     (\<forall>i t d. thr x i = PLoop t d READY \<longrightarrow> reg_state (cell x) = READY)"

section \<open>The readiness of an entry\<close>

datatype race_poll = WStart | WRegister | WRecheck | WParked | WGot usize

datatype race_dispatch = DIdle | DWriter usize | DReader usize "task option" | DWake "task option" "task option"

record 'aw race =
  entry :: "'aw scheduled_io"
  poll_at :: race_poll
  disp_at :: race_dispatch
  told :: bool

definition race_init :: "('aw, 'sl, 'w) ext \<Rightarrow> 'aw race \<Rightarrow> bool" where
  "race_init E x \<longleftrightarrow> poll_at x = WStart \<and> disp_at x = DIdle \<and> \<not> told x"

text \<open>
  Task \<open>t\<close> polls direction \<open>d\<close>; the last two rules are a poller of the other direction. \<open>told\<close>: \<open>t\<close> has
  been woken since it last started.
\<close>

inductive race_step :: "('aw, 'sl, 'w) ext \<Rightarrow> task \<Rightarrow> Direction \<Rightarrow> 'aw race \<Rightarrow> 'aw race \<Rightarrow> bool"
  for E t d where
  race_first: "poll_at x = WStart \<Longrightarrow> fetch_ready E d (entry x) = (r, e) \<Longrightarrow>
     race_step E t d x (x\<lparr>entry := e, poll_at := (if r = 0 then WRegister else WGot r)\<rparr>)"
| race_register: "poll_at x = WRegister \<Longrightarrow>
     race_step E t d x (x\<lparr>entry := set_waker E d t (entry x), poll_at := WRecheck\<rparr>)"
| race_second: "poll_at x = WRecheck \<Longrightarrow> fetch_ready E d (entry x) = (r, e) \<Longrightarrow>
     race_step E t d x (x\<lparr>entry := e, poll_at := (if r = 0 then WParked else WGot r)\<rparr>)"
| race_resume: "poll_at x = WParked \<Longrightarrow> told x \<Longrightarrow>
     race_step E t d x (x\<lparr>poll_at := WStart, told := False\<rparr>)"
| race_again: "poll_at x = WGot r \<Longrightarrow> race_step E t d x (x\<lparr>poll_at := WStart\<rparr>)"
| race_or: "disp_at x = DIdle \<Longrightarrow>
     race_step E t d x (x\<lparr>entry := (entry x)\<lparr>readiness := readiness (entry x) OR r\<rparr>, disp_at := DWriter r\<rparr>)"
| race_take_writer: "disp_at x = DWriter r \<Longrightarrow>
     (wr, c) = (if is_writable E r \<or> platform_is_hup E r then aw_take E (writer (entry x)) else (None, writer (entry x))) \<Longrightarrow>
     race_step E t d x (x\<lparr>entry := (entry x)\<lparr>writer := c\<rparr>, disp_at := DReader r wr\<rparr>)"
| race_take_reader: "disp_at x = DReader r wr \<Longrightarrow>
     (rd, c) = (if r AND NOT (writable E) \<noteq> 0 then aw_take E (reader (entry x)) else (None, reader (entry x))) \<Longrightarrow>
     race_step E t d x (x\<lparr>entry := (entry x)\<lparr>reader := c\<rparr>, disp_at := DWake rd wr\<rparr>)"
| race_wake: "disp_at x = DWake rd wr \<Longrightarrow>
     race_step E t d x (x\<lparr>disp_at := DIdle, told := told x \<or> rd = Some t \<or> wr = Some t\<rparr>)"
| race_other_fetch: "fetch_ready E (opposite d) (entry x) = (r, e) \<Longrightarrow> race_step E t d x (x\<lparr>entry := e\<rparr>)"
| race_other_register: "race_step E t d x (x\<lparr>entry := set_waker E (opposite d) u (entry x)\<rparr>)"

text \<open>\<open>in_flight\<close>: the dispatcher has taken \<open>t\<close>'s waker and not yet called it; \<open>will_take\<close>: it is about to.\<close>

definition in_flight :: "task \<Rightarrow> race_dispatch \<Rightarrow> bool" where
  "in_flight t p = (case p of DReader _ wr \<Rightarrow> wr = Some t | DWake rd wr \<Rightarrow> rd = Some t \<or> wr = Some t | _ \<Rightarrow> False)"

definition will_take :: "('aw, 'sl, 'w) ext \<Rightarrow> Direction \<Rightarrow> race_dispatch \<Rightarrow> bool" where
  "will_take E d p = (case p of
      DWriter r \<Rightarrow> r AND Direction_mask E d \<noteq> 0
    | DReader r _ \<Rightarrow> d = Read \<and> r AND Direction_mask E d \<noteq> 0
    | _ \<Rightarrow> False)"

definition race_inv :: "('aw, 'sl, 'w) ext \<Rightarrow> task \<Rightarrow> Direction \<Rightarrow> 'aw race \<Rightarrow> bool" where
  "race_inv E t d x \<longleftrightarrow>
     (poll_at x = WRecheck \<or> poll_at x = WParked \<longrightarrow>
        aw_held E (cell_of d (entry x)) = Some t \<or> told x \<or> in_flight t (disp_at x)) \<and>
     (poll_at x = WParked \<and> visible E d (entry x) \<noteq> 0 \<longrightarrow>
        told x \<or> in_flight t (disp_at x) \<or> will_take E d (disp_at x))"

definition race0 :: "task option race" where
  "race0 = \<lparr>entry = \<lparr>aba_guard = 0, readiness = 0, reader = None, writer = None\<rparr>,
     poll_at = WStart, disp_at = DIdle, told = False\<rparr>"

text \<open>An event that arrives right after the second check.\<close>

definition race1 :: "task option race" where
  "race1 = \<lparr>entry = \<lparr>aba_guard = 0, readiness = 1, reader = Some 5, writer = None\<rparr>,
     poll_at = WParked, disp_at = DWriter 1, told = False\<rparr>"

definition cells0 :: "(list_slab, nat) cells" where
  "cells0 = \<lparr>cell = Registration_new, csys = sys16, thr = (\<lambda>_. TIdle), waker_of = Map.empty\<rparr>"

definition grab :: "((list_slab, nat) sys, HandlePriv io_result) op" where
  "grab s = (Ret (Inr \<lparr>hp_inner = 16\<rparr>), s)"

text \<open>Thread 0 has locked the cell and threads 1 and 2 poll it.\<close>

definition cells_locked :: "(list_slab, nat) cells" where
  "cells_locked = \<lparr>cell = Registration_new\<lparr>reg_state := LOCKED\<rparr>,
     csys = sys16\<lparr>wakers := [72 \<mapsto> 5, 80 \<mapsto> 6]\<rparr>,
     thr = (\<lambda>_. TIdle)(0 := RNew \<lparr>hp_inner = 16\<rparr>, 1 := PLoad 5 Read, 2 := PLoad 6 Write),
     waker_of = [1 \<mapsto> 72, 2 \<mapsto> 80]\<rparr>"

definition cells_queued :: "(list_slab, nat) cells" where
  "cells_queued = cells_locked\<lparr>cell := push_node 64 Read 72 LOCKED (cell cells_locked),
     thr := (thr cells_locked)(1 := PDone (Inr None))\<rparr>"

abbreviation (input) cell_run :: "(list_slab, nat) cells \<Rightarrow> (list_slab, nat) cells \<Rightarrow> bool" where
  "cell_run \<equiv> cell_step (std_ext []) 7 grab"

section \<open>No lost wakeup\<close>

lemma cell_of_upd [simp]:
  "cell_of d (io\<lparr>readiness := r\<rparr>) = cell_of d io" "cell_of Read (io\<lparr>writer := c\<rparr>) = cell_of Read io"
  "cell_of Write (io\<lparr>reader := c\<rparr>) = cell_of Write io" "cell_of Write (io\<lparr>writer := c\<rparr>) = c"
  "cell_of Read (io\<lparr>reader := c\<rparr>) = c"
  by (cases d; simp add: cell_of_def)+

lemma visible_upd [simp]:
  "visible E d (io\<lparr>reader := c\<rparr>) = visible E d io" "visible E d (io\<lparr>writer := c\<rparr>) = visible E d io"
  "visible E d (set_waker E d' t io) = visible E d io"
  by (simp_all add: visible_def)

lemma visible_other_fetch:
  assumes "ready_ok E"
  shows "visible E d (snd (fetch_ready E (opposite d) io)) = visible E d io"
proof -
  have "Direction_mask E d AND (Direction_mask E (opposite d) AND NOT (platform_hup E)) = 0"
    using masks_disjoint [OF assms, of "opposite d"] by (cases d) simp_all
  then show ?thesis unfolding visible_def fetch_ready_fields by (rule and_and_not)
qed

lemma cell_of_other [simp]: "cell_of d (set_waker E (opposite d) u io) = cell_of d io"
  by (cases d) (simp_all add: set_waker_def cell_of_def)

lemma read_mask_hit: "r AND Direction_mask E Read \<noteq> 0 \<Longrightarrow> r AND NOT (writable E) \<noteq> 0"
  by (auto simp: Direction_mask_def bit_eq_iff bit_simps)

lemma visible_or: "visible E d (io\<lparr>readiness := readiness io OR r\<rparr>) \<noteq> 0 \<longleftrightarrow>
    visible E d io \<noteq> 0 \<or> r AND Direction_mask E d \<noteq> 0"
  unfolding visible_def by (simp add: and_or_nonzero and.commute)

lemma race_inv_writer:
  assumes "ext_ok E" and "race_inv E t d x" and race_take_writer: "y = x\<lparr>entry := (entry x)\<lparr>writer := c\<rparr>, disp_at := DReader r wr\<rparr>"
    "disp_at x = DWriter r"
    "(wr, c) = (if is_writable E r \<or> platform_is_hup E r then aw_take E (writer (entry x)) else (None, writer (entry x)))"
  shows "race_inv E t d y"
proof -
  have w: "d = Write \<Longrightarrow> r AND Direction_mask E Write \<noteq> 0 \<Longrightarrow>
      (wr, c) = aw_take E (writer (entry x))"
    using race_take_writer(3) write_mask_hit [OF ext_ok_ready [OF assms(1)], of r] by auto
  have c: "d = Write \<Longrightarrow> wr = aw_held E (writer (entry x)) \<or> c = writer (entry x)"
    using race_take_writer(3) assms(1) by (auto simp: prod_eq_iff split: if_splits)
  show ?thesis
    using assms(2) race_take_writer(1,2) w c waker_laws(3,4) [OF assms(1), of "writer (entry x)"]
    by (cases d; cases "r AND Direction_mask E d = 0")
      (auto simp: race_inv_def in_flight_def will_take_def cell_of_def prod_eq_iff)
qed

lemma race_inv_reader:
  assumes "ext_ok E" and "race_inv E t d x" and race_take_reader: "y = x\<lparr>entry := (entry x)\<lparr>reader := c\<rparr>, disp_at := DWake rd wr\<rparr>"
    "disp_at x = DReader r wr"
    "(rd, c) = (if r AND NOT (writable E) \<noteq> 0 then aw_take E (reader (entry x)) else (None, reader (entry x)))"
  shows "race_inv E t d y"
proof -
  have w: "d = Read \<Longrightarrow> r AND Direction_mask E Read \<noteq> 0 \<Longrightarrow> (rd, c) = aw_take E (reader (entry x))"
    using race_take_reader(3) read_mask_hit [of r E] by auto
  have c: "d = Read \<Longrightarrow> rd = aw_held E (reader (entry x)) \<or> c = reader (entry x)"
    using race_take_reader(3) assms(1) by (auto simp: prod_eq_iff split: if_splits)
  show ?thesis
    using assms(2) race_take_reader(1,2) w c waker_laws(3,4) [OF assms(1), of "reader (entry x)"]
    by (cases d; cases "r AND Direction_mask E d = 0")
      (auto simp: race_inv_def in_flight_def will_take_def cell_of_def prod_eq_iff)
qed

lemma race_step_inv:
  assumes "race_step E t d x y" and "ext_ok E" and "race_inv E t d x"
  shows "race_inv E t d y"
  using assms(1)
proof cases
  case (race_first r e)
  then show ?thesis by (auto simp: race_inv_def)
next
  case race_register
  then show ?thesis using assms(2) by (auto simp: race_inv_def)
next
  case (race_second r e)
  have e: "e = snd (fetch_ready E d (entry x))" and r: "r = visible E d (entry x)"
    using race_second(3) by (auto simp: fetch_ready_def Let_def visible_def)
  have "r = 0 \<Longrightarrow> visible E d e = 0"
    unfolding r e visible_def fetch_ready_fields by (auto simp: bit_eq_iff bit_simps)
  then show ?thesis using assms(3) race_second(1,2) e by (auto simp: race_inv_def)
next
  case (race_or r)
  then show ?thesis
    using assms(3) visible_or [of E d "entry x" r]
    by (auto simp: race_inv_def in_flight_def will_take_def)
next
  case (race_wake rd wr)
  then show ?thesis using assms(3) by (auto simp: race_inv_def in_flight_def will_take_def)
next
  case (race_other_fetch r e)
  then have "e = snd (fetch_ready E (opposite d) (entry x))" by simp
  then show ?thesis
    using assms(3) race_other_fetch(1) visible_other_fetch [OF ext_ok_ready [OF assms(2)], of d "entry x"]
    by (simp add: race_inv_def)
next
  case race_take_writer
  then show ?thesis by (rule race_inv_writer [OF assms(2,3)])
next
  case race_take_reader
  then show ?thesis by (rule race_inv_reader [OF assms(2,3)])
qed (use assms(3) in \<open>auto simp: race_inv_def\<close>)

lemma race_init_inv: "race_init E x \<Longrightarrow> race_inv E t d x"
  by (simp add: race_init_def race_inv_def)

interpretation race: inductive_invariant
  "\<lambda>x. ext_ok E \<and> race_init E x" "race_step E t d" "\<lambda>x. ext_ok E \<and> race_inv E t d x" for E t d
  by unfold_locales (auto intro: race_init_inv race_step_inv)

text \<open>C22: no interleaving of \<^verbatim>\<open>poll_ready\<close> with \<^verbatim>\<open>dispatch\<close> loses a wakeup: a task that is parked on a direction
  whose readiness is visible has been woken, unless a dispatch is under way that is about to wake it.
  The other direction's poller may interfere at any point.\<close>

theorem poll_dispatch_race:
  assumes "reach (\<lambda>x. ext_ok E \<and> race_init E x) (race_step E t d) x"
    and "poll_at x = WParked" and "visible E d (entry x) \<noteq> 0"
  shows "told x \<or> in_flight t (disp_at x) \<or>
    aw_held E (cell_of d (entry x)) = Some t \<and> will_take E d (disp_at x)"
  using race.reach_inv [OF assms(1)] assms(2,3) by (auto simp: race_inv_def)

lemma race1_reach: "reach (\<lambda>x. ext_ok (std_ext []) \<and> race_init (std_ext []) x) (race_step (std_ext []) 5 Read) race1"
proof -
  let ?S = "race_step (std_ext []) 5 Read"
  let ?a = "race0\<lparr>poll_at := WRegister\<rparr>"
  let ?b = "race0\<lparr>entry := (entry race0)\<lparr>reader := Some 5\<rparr>, poll_at := WRecheck\<rparr>"
  let ?c = "?b\<lparr>poll_at := WParked\<rparr>"
  have "?S race0 ?a" using race_first [of race0 "std_ext []" Read 0 "entry race0" 5]
    by (simp add: race0_def fetch_ready_def)
  moreover have "?S ?a ?b" using race_register [of ?a "std_ext []" 5 Read]
    by (simp add: race0_def set_waker_def) (simp add: std_ext_def)
  moreover have "?S ?b ?c" using race_second [of ?b "std_ext []" Read 0 "entry ?b" 5]
    by (simp add: race0_def fetch_ready_def)
  moreover have "?S ?c race1" using race_or [of ?c "std_ext []" 5 Read 1]
    by (simp add: race0_def race1_def)
  moreover have "reach (\<lambda>x. ext_ok (std_ext []) \<and> race_init (std_ext []) x) ?S race0"
    by (rule reach_init) (simp add: race_init_def race0_def std_ext_ok)
  ultimately show ?thesis by (meson reach_step)
qed

theorem poll_dispatch_race_witness:
  "poll_at race1 = WParked \<and> aw_held (std_ext []) (cell_of Read (entry race1)) = Some 5 \<and>
   will_take (std_ext []) Read (disp_at race1)"
proof -
  have 1: "poll_at race1 = WParked" "visible (std_ext []) Read (entry race1) \<noteq> 0"
    "\<not> told race1" "\<not> in_flight 5 (disp_at race1)"
    by (simp_all add: race1_def visible_def Direction_mask_def std_ext_def in_flight_def)
  with poll_dispatch_race [OF race1_reach 1(1,2)] show ?thesis by blast
qed

section \<open>One association\<close>

lemma lifecycle_bits [simp]:
  "LOCKED AND LIFECYCLE_MASK = LOCKED" "INIT AND LIFECYCLE_MASK \<noteq> LOCKED" "READY AND LIFECYCLE_MASK \<noteq> LOCKED"
  "LOCKED AND NOT LIFECYCLE_MASK = 0" "INIT \<noteq> LOCKED" "INIT \<noteq> READY" "READY \<noteq> LOCKED"
  "LOCKED \<noteq> INIT" "READY \<noteq> INIT" "LOCKED \<noteq> READY"
  by (simp_all add: LOCKED_def LIFECYCLE_MASK_def INIT_def READY_def)

lemma queued_bits:
  assumes "a AND LIFECYCLE_MASK = 0"
  shows "(a OR LOCKED) AND LIFECYCLE_MASK = LOCKED" and "(a OR LOCKED) AND NOT LIFECYCLE_MASK = a"
    and "a OR LOCKED \<noteq> INIT" and "a OR LOCKED \<noteq> READY" and "a \<noteq> 0 \<Longrightarrow> a OR LOCKED \<noteq> LOCKED"
proof -
  show 1: "(a OR LOCKED) AND LIFECYCLE_MASK = LOCKED" and 2: "(a OR LOCKED) AND NOT LIFECYCLE_MASK = a"
    using token_split [of a LIFECYCLE_MASK LOCKED] assms by simp_all
  show "a OR LOCKED \<noteq> INIT" "a OR LOCKED \<noteq> READY" using 1 by (metis lifecycle_bits(2), metis lifecycle_bits(3))
  show "a \<noteq> 0 \<Longrightarrow> a OR LOCKED \<noteq> LOCKED" using 2 by (metis lifecycle_bits(4))
qed

lemma cell_shape_cases:
  assumes "cell_shape r"
  obtains (init) "reg_state r = INIT" "reg_inner r = None" "boxes r = []"
    | (locked) "reg_state r = LOCKED" "boxes r = []"
    | (queued) a n where "reg_state r = a OR LOCKED" "a \<noteq> 0" "a AND LIFECYCLE_MASK = 0"
        "boxes r = [(a, n)]" "node_next n = 0"
    | (ready) "reg_state r = READY" "reg_inner r \<noteq> None" "boxes r = []"
  using assms unfolding cell_shape_def by metis

text \<open>However the serving of the nodes ends, the cell is \<^verbatim>\<open>READY\<close> and its nodes are freed.\<close>

lemma publish_result:
  assumes "cell_shape r" and "reg_state r AND LIFECYCLE_MASK = LOCKED" and "reg_inner r \<noteq> None"
    and "register_publish E (r, s) = (q, (r', s'))"
  shows "r' = r\<lparr>reg_state := READY, boxes := []\<rparr>"
proof -
  obtain i where i: "reg_inner r = Some i" using assms(3) by blast
  from assms(1) show ?thesis
  proof (cases rule: cell_shape_cases)
    case locked
    with assms(4) i show ?thesis by (auto simp: register_publish_def Let_def consume_none)
  next
    case (queued a n)
    obtain dn wn where n: "n = \<lparr>node_direction = dn, node_waker = wn, node_next = 0\<rparr>"
      using queued(5) by (cases n) simp
    from assms(4) i queued show ?thesis
      by (auto simp: register_publish_def Let_def consume_one n queued_bits split: prod.splits option.splits)
  qed (use assms(2) in auto)
qed

lemma cell_invD:
  assumes "cell_inv x"
  shows "cell_shape (cell x)"
    and "holds_lock (thr x i) \<Longrightarrow> reg_state (cell x) AND LIFECYCLE_MASK = LOCKED"
    and "holds_lock (thr x i) \<Longrightarrow> holds_lock (thr x j) \<Longrightarrow> i = j"
    and "reg_state (cell x) AND LIFECYCLE_MASK = LOCKED \<Longrightarrow> \<exists>i. holds_lock (thr x i)"
    and "thr x i = RNew h \<Longrightarrow> reg_inner (cell x) = None"
    and "thr x i = RPublish res \<Longrightarrow> reg_inner (cell x) \<noteq> None"
    and "thr x i = PLoop t d READY \<Longrightarrow> reg_state (cell x) = READY"
  using assms unfolding cell_inv_def by blast+

text \<open>A step that moves a thread without touching the lock or the lifecycle word.\<close>

lemma cell_inv_move:
  assumes "cell_inv x" and "\<not> holds_lock (thr x i)" and "\<not> holds_lock pc"
    and "cell y = cell x" and "thr y = (thr x)(i := pc)"
    and "\<And>t d. pc = PLoop t d READY \<Longrightarrow> reg_state (cell x) = READY"
  shows "cell_inv y"
proof -
  note inv = cell_invD [OF assms(1)]
  have hl: "holds_lock (thr y j) \<longleftrightarrow> holds_lock (thr x j)" for j using assms(2,3,5) by simp
  have rn: "thr y j = RNew h \<Longrightarrow> thr x j = RNew h" "thr y j = RPublish res \<Longrightarrow> thr x j = RPublish res" for j h res
    using assms(3,5) by (auto split: if_splits)
  have pl: "thr y j = PLoop t d READY \<Longrightarrow> reg_state (cell x) = READY" for j t d
    using assms(5,6) inv(7) by (cases "j = i") auto
  show ?thesis
    unfolding cell_inv_def assms(4) hl
    by (intro conjI allI impI) (use inv(1) in blast, use inv(2) in blast, use inv(3) in blast,
        use inv(4) in blast, use inv(5) rn(1) in blast, use inv(6) rn(2) in blast, use pl in blast)
qed

lemma cell_init_inv: "cell_init x \<Longrightarrow> cell_inv x"
  by (auto simp: cell_init_def cell_inv_def cell_shape_def Registration_new_def)

lemma cell_inv_cas:
  assumes "cell_inv x" and register_cas: "y = x\<lparr>cell := (cell x)\<lparr>reg_state := v\<rparr>, csys := (if act = INIT then s else HandlePriv_drop h s), thr := (thr x)(i := (if act = INIT then RNew h else RegDone (Inr False)))\<rparr>"
    "thr x i = RHandle"
    "f (csys x) = (Ret (Inr h), s)"
    "compare_and_swap (reg_state (cell x)) INIT LOCKED = (act, v)"
  shows "cell_inv y"
proof -
  note inv = cell_invD [OF assms(1)]
  have v: "act = reg_state (cell x)" "v = (if act = INIT then LOCKED else act)"
    using register_cas(4) by (auto simp: compare_and_swap_def split: if_splits)
  show ?thesis
  proof (cases "act = INIT")
    case True
    then have init: "reg_state (cell x) = INIT" "reg_inner (cell x) = None" "boxes (cell x) = []"
      using v(1) inv(1) queued_bits(3) by (auto elim!: cell_shape_cases)
    then have free: "\<not> holds_lock (thr x j)" for j using inv(2) by force
    have npl: "thr x j \<noteq> PLoop t d READY" for j t d using inv(7) init(1) by force
    have y: "cell y = (cell x)\<lparr>reg_state := LOCKED\<rparr>" "thr y = (thr x)(i := RNew h)"
      using register_cas(1) v True by simp_all
    have only: "holds_lock (thr y j) \<longleftrightarrow> j = i" for j using y(2) free by simp
    have "thr y j \<noteq> RPublish res" "thr y j \<noteq> PLoop t d READY" for j res t d
      using y(2) free [of j] npl by (cases "j = i"; force)+
    then show ?thesis
      unfolding cell_inv_def only using y(1) init by (auto simp: cell_shape_def)
  next
    case False
    then show ?thesis
      using register_cas(1,2) v by (intro cell_inv_move [OF assms(1), of i "RegDone (Inr False)"]) auto
  qed
qed

lemma cell_inv_new:
  assumes "cell_inv x" and register_new: "y = x\<lparr>cell := (cell x)\<lparr>reg_inner := Some inn\<rparr>, csys := s, thr := (thr x)(i := RPublish res)\<rparr>"
    "thr x i = RNew h"
    "RegInner_new E io h (csys x) = (Ret (inn, res), s)"
  shows "cell_inv y"
proof -
  note inv = cell_invD [OF assms(1)]
  have lock: "holds_lock (thr x i)" using register_new(2) by simp
  have y: "cell y = (cell x)\<lparr>reg_inner := Some inn\<rparr>" "thr y = (thr x)(i := RPublish res)"
    using register_new(1) by simp_all
  have hl: "holds_lock (thr y j) \<longleftrightarrow> j = i" for j using y(2) inv(3) [OF lock] by auto
  have shape: "cell_shape (cell y)"
    using inv(1) inv(2) [OF lock] unfolding y(1) by (cases rule: cell_shape_cases) (auto simp: cell_shape_def)
  have "thr y j \<noteq> RNew h'" for j h' using hl [of j] y(2) by (cases "j = i") force+
  moreover have "thr y j = PLoop t d READY \<Longrightarrow> reg_state (cell x) = READY" for j t d
    using y(2) inv(7) [of j t d] by (auto split: if_splits)
  ultimately show ?thesis
    unfolding cell_inv_def hl using shape inv(2) [OF lock] y(1) by auto
qed

lemma cell_inv_swap:
  assumes "cell_inv x" and "thr x i = RPublish res" and "register_publish E (cell x, csys x) = (q, (reg, s))"
    and y: "cell y = reg" "thr y = (thr x)(i := pc)" and "\<not> holds_lock pc"
  shows "cell_inv y"
proof -
  note inv = cell_invD [OF assms(1)]
  have lock: "holds_lock (thr x i)" using assms(2) by simp
  note pub = publish_result [OF inv(1) inv(2) [OF lock] inv(6) [OF assms(2)] assms(3)]
  have hl: "\<not> holds_lock (thr y j)" for j using y(2) inv(3) [OF lock] assms(6) by auto
  then have "thr y j \<noteq> RNew h" "thr y j \<noteq> RPublish r" for j h r by (metis holds_lock.simps(1,2))+
  then show ?thesis
    unfolding cell_inv_def using hl pub y(1) inv(6) [OF assms(2)] by (auto simp: cell_shape_def)
qed

lemma cell_inv_push:
  assumes "cell_inv x" and poll_push: "y = x\<lparr>cell := push_node addr d p LOCKED (cell x), thr := (thr x)(i := PDone (Inr None))\<rparr>"
    "thr x i = PLoop t d LOCKED"
    "reg_state (cell x) = LOCKED"
    "waker_of x i = Some p"
    "addr \<noteq> 0"
    "addr AND LIFECYCLE_MASK = 0"
  shows "cell_inv y"
proof -
  note inv = cell_invD [OF assms(1)]
  have free: "boxes (cell x) = []"
    using inv(1) poll_push(3) queued_bits(5) by (auto elim!: cell_shape_cases)
  have y: "cell y = push_node addr d p LOCKED (cell x)" "thr y = (thr x)(i := PDone (Inr None))"
    using poll_push(1) by simp_all
  have hl: "holds_lock (thr y j) \<longleftrightarrow> holds_lock (thr x j)" for j using y(2) poll_push(2) by simp
  have shape: "cell_shape (cell y)"
    using free poll_push(5,6) by (auto simp: y(1) cell_shape_def push_node_def)
  have lk: "reg_state (cell y) AND LIFECYCLE_MASK = LOCKED"
    using queued_bits(1) [OF poll_push(6)] by (simp add: y(1) push_node_def)
  have npl: "thr y j \<noteq> PLoop t' d' READY" for j t' d'
    using inv(7) [of j t' d'] poll_push(3) y(2) by (cases "j = i") auto
  have "thr y j = RNew h \<Longrightarrow> thr x j = RNew h" "thr y j = RPublish r \<Longrightarrow> thr x j = RPublish r" for j h r
    using y(2) by (auto split: if_splits)
  moreover have "reg_inner (cell y) = reg_inner (cell x)" by (simp add: y(1) push_node_def)
  ultimately show ?thesis
    unfolding cell_inv_def hl using shape lk npl inv(3-6) poll_push(3) by (metis lifecycle_bits(1))
qed

lemma cell_step_inv:
  assumes "cell_step E io f x y" and "cell_inv x"
  shows "cell_inv y"
  using assms(1)
proof cases
  case register_cas
  then show ?thesis by (rule cell_inv_cas [OF assms(2)])
next
  case register_new
  then show ?thesis by (rule cell_inv_new [OF assms(2)])
next
  case (register_swap i res reg s)
  then show ?thesis by (intro cell_inv_swap [OF assms(2) register_swap(2,3)]) (simp, simp, simp)
next
  case (register_panic i res m reg s)
  then show ?thesis by (intro cell_inv_swap [OF assms(2) register_panic(2,3)]) (simp, simp, simp)
next
  case drop_waker
  with assms(2) show ?thesis by (simp add: cell_inv_def)
next
  case poll_push
  then show ?thesis by (rule cell_inv_push [OF assms(2)])
qed (auto intro!: cell_inv_move [OF assms(2)])

interpretation cell_protocol: inductive_invariant cell_init "cell_step E io f" cell_inv for E io f
  by unfold_locales (auto intro: cell_init_inv cell_step_inv)

section \<open>Properties of the lifecycle\<close>

lemma ready_stays:
  assumes "cell_step E io f x y" and "cell_inv x" and "reg_state (cell x) = READY"
  shows "cell y = cell x"
proof -
  note inv = cell_invD [OF assms(2)]
  have free: "\<not> holds_lock (thr x i)" for i using inv(2) [of i] assms(3) by auto
  have no: "thr x i \<noteq> RNew h" "thr x i \<noteq> RPublish res" for i h res
    using free [of i] by auto
  have same: "(cell x)\<lparr>reg_state := READY\<rparr> = cell x" using assms(3) by (cases "cell x") simp
  from assms(1) show ?thesis
    by cases (use no assms(3) same in \<open>auto simp: compare_and_swap_def\<close>)
qed

lemma ready_stays_steps:
  assumes "(cell_step E io f)\<^sup>*\<^sup>* x y" and "cell_inv x" and "reg_state (cell x) = READY"
  shows "cell y = cell x \<and> cell_inv y"
  using assms(1)
proof (induction rule: rtranclp_induct)
  case base
  with assms(2) show ?case by simp
next
  case (step y z)
  with assms(3) show ?case using ready_stays [OF step.hyps(2)] cell_step_inv [OF step.hyps(2)] by simp
qed

text \<open>C23: however many threads register and poll a cell at once: at most one of them associates it; the stack of
  queued tasks never holds more than one node, is reachable from the lifecycle word and is empty and freed
  when the cell is \<^verbatim>\<open>READY\<close>; a \<^verbatim>\<open>READY\<close> cell has its association (the \<^verbatim>\<open>unwrap\<close>s cannot fail), which no later
  step changes.\<close>

theorem cell_associated_once:
  assumes "reach cell_init (cell_step E io f) x"
  shows "(\<forall>i j. holds_lock (thr x i) \<and> holds_lock (thr x j) \<longrightarrow> i = j) \<and>
    length (boxes (cell x)) \<le> 1 \<and>
    (\<forall>b \<in> set (boxes (cell x)). reg_state (cell x) AND NOT LIFECYCLE_MASK = fst b \<and> node_next (snd b) = 0) \<and>
    (\<forall>i t d. thr x i = PLoop t d READY \<longrightarrow> reg_inner (cell x) \<noteq> None) \<and>
    (\<forall>i res. thr x i = RPublish res \<longrightarrow> reg_inner (cell x) \<noteq> None) \<and>
    (reg_state (cell x) = READY \<longrightarrow> boxes (cell x) = [] \<and> reg_inner (cell x) \<noteq> None \<and>
       (\<forall>y. (cell_step E io f)\<^sup>*\<^sup>* x y \<longrightarrow> cell y = cell x))"
proof -
  have I: "cell_inv x" by (rule cell_protocol.reach_inv [OF assms])
  note inv = cell_invD [OF I]
  from inv(1) have shape: "length (boxes (cell x)) \<le> 1 \<and>
    (\<forall>b \<in> set (boxes (cell x)). reg_state (cell x) AND NOT LIFECYCLE_MASK = fst b \<and> node_next (snd b) = 0)"
    by (cases rule: cell_shape_cases) (auto simp: queued_bits)
  from inv(1) have ready: "reg_state (cell x) = READY \<Longrightarrow> boxes (cell x) = [] \<and> reg_inner (cell x) \<noteq> None"
    by (cases rule: cell_shape_cases) (use queued_bits(4) in auto)
  have "reg_state (cell x) = READY \<Longrightarrow> (cell_step E io f)\<^sup>*\<^sup>* x y \<Longrightarrow> cell y = cell x" for y
    using ready_stays_steps [OF _ I] by blast
  with shape ready inv(3,6,7) show ?thesis by blast
qed

lemma cells_locked_reach: "reach cell_init cell_run cells_locked"
proof -
  let ?s1 = "sys16\<lparr>wakers := [80 \<mapsto> 6]\<rparr>" and ?s2 = "sys16\<lparr>wakers := [72 \<mapsto> 5, 80 \<mapsto> 6]\<rparr>"
  let ?a = "\<lparr>cell = Registration_new, csys = ?s1, thr = (\<lambda>_. TIdle)(2 := PLoad 6 Write), waker_of = [2 \<mapsto> 80]\<rparr>"
  let ?b = "\<lparr>cell = Registration_new, csys = ?s2, thr = (\<lambda>_. TIdle)(2 := PLoad 6 Write, 1 := PLoad 5 Read),
     waker_of = [1 \<mapsto> 72, 2 \<mapsto> 80]\<rparr>"
  let ?c = "?b\<lparr>thr := (thr ?b)(0 := RLoad)\<rparr>" and ?d = "?b\<lparr>thr := (thr ?b)(0 := RHandle)\<rparr>"
  have "wakers sys16 = Map.empty" by (simp add: sys16_def sys0_def)
  note call_poll = call_poll [where E = "std_ext []" and io = 7 and f = grab]
  have "reach cell_init cell_run cells0"
    by (rule reach_init) (simp add: cell_init_def cells0_def)
  moreover have "cell_run cells0 ?a"
    using call_poll [of cells0 2 80 6 Write] \<open>wakers sys16 = Map.empty\<close> by (simp add: cells0_def)
  moreover have "cell_run ?a ?b"
    using call_poll [of ?a 1 72 5 Read] by (simp add: fun_upd_twist)
  moreover have "cell_run ?b ?c"
    using call_register [of ?b 0 "std_ext []" 7 grab] by simp
  moreover have "cell_run ?c ?d"
    using register_load [of ?c 0 "std_ext []" 7 grab] by (simp add: Registration_new_def)
  moreover have "cell_run ?d cells_locked"
    using register_cas [of ?d 0 grab "\<lparr>hp_inner = 16\<rparr>" ?s2 INIT LOCKED "std_ext []" 7]
    by (simp add: cells_locked_def grab_def compare_and_swap_def Registration_new_def fun_upd_twist)
  ultimately show ?thesis by (meson reach_step)
qed

theorem cell_associated_once_witness:
  "holds_lock (thr cells_locked 0) \<and> length (boxes (cell cells_locked)) \<le> 1 \<and> \<not> holds_lock (thr cells_locked 1)"
proof -
  have "holds_lock (thr cells_locked 0)" by (simp add: cells_locked_def)
  with cell_associated_once [OF cells_locked_reach] show ?thesis by (metis zero_neq_one)
qed

text \<open>The first of the two polling tasks has queued its node.\<close>

lemma cells_queued_reach: "reach cell_init cell_run cells_queued"
proof -
  let ?a = "cells_locked\<lparr>thr := (thr cells_locked)(1 := PLoop 5 Read LOCKED)\<rparr>"
  have "cell_run cells_locked ?a"
    using poll_load [of cells_locked 1 5 Read "std_ext []" 7 grab] by (simp add: cells_locked_def)
  moreover have "cell_run ?a cells_queued"
    using poll_push [of ?a 1 5 Read 72 64 "std_ext []" 7 grab]
    by (simp add: cells_locked_def cells_queued_def LIFECYCLE_MASK_def)
  ultimately show ?thesis using cells_locked_reach by (meson reach_step)
qed

text \<open>C24: two tasks polling a cell that a third thread is associating, one per direction as the documentation
  allows, can hit \<^verbatim>\<open>unreachable!()\<close>: the first queues its node, so the lifecycle word is no longer exactly
  \<^verbatim>\<open>LOCKED\<close>, and the second finds a value none of the arms matches.\<close>

theorem poll_hits_unreachable:
  "\<exists>x. reach cell_init (cell_step (std_ext []) 7 grab) x \<and> thr x 1 = PDone (Inr None) \<and> thr x 2 = PUnreachable"
proof -
  let ?t = "thr cells_locked"
  let ?c = "cells_queued\<lparr>thr := ?t(1 := PDone (Inr None), 2 := PLoop 6 Write 65)\<rparr>"
  let ?d = "cells_queued\<lparr>thr := ?t(1 := PDone (Inr None), 2 := PUnreachable)\<rparr>"
  have "cell_run cells_queued ?c"
    using poll_load [of cells_queued 2 6 Write "std_ext []" 7 grab]
    by (simp add: cells_queued_def cells_locked_def push_node_def LIFECYCLE_MASK_def LOCKED_def fun_upd_twist)
  moreover have "cell_run ?c ?d"
    using poll_unreachable [of ?c 2 6 Write 65 "std_ext []" 7 grab]
    by (simp add: INIT_def READY_def LOCKED_def)
  ultimately have "reach cell_init cell_run ?d" using cells_queued_reach by (meson reach_step)
  then show ?thesis by (intro exI [of _ ?d]) simp
qed

text \<open>
  A node outlives the waker it points to: the poll that queued it returns, its caller drops the waker, and the thread
  that associates the cell follows the pointer. One task polls and one registers, as the documentation allows.
\<close>

lemma poll_leaves_dangling_waker:
  "\<exists>x. reach cell_init (cell_step (std_ext []) 7 grab) x \<and> thr x 1 = TIdle \<and> thr x 0 = RPanic ''dangling waker''"
proof -
  let ?h = "\<lparr>hp_inner = 16\<rparr>"
  let ?a = "cells_queued\<lparr>thr := (thr cells_queued)(1 := TIdle), waker_of := [2 \<mapsto> 80]\<rparr>"
  let ?b = "?a\<lparr>csys := sys16\<lparr>wakers := [80 \<mapsto> 6]\<rparr>\<rparr>"
  note steps = cells_queued_def cells_locked_def fun_upd_twist
  have a: "cell_run cells_queued ?a"
    using return_poll [of cells_queued 1 "Inr None" "std_ext []" 7 grab] by (simp add: steps)
  have b: "cell_run ?a ?b"
    using drop_waker [of ?a 72 "std_ext []" 7 grab] by (simp add: steps)
  obtain inn res s where new: "RegInner_new (std_ext []) 7 ?h (csys ?b) = (Ret (inn, res), s)" and s: "wakers s = [80 \<mapsto> 6]"
    by (simp add: RegInner_new_def HandlePriv_inner_def sys16_def sys0_def inner0_add steps)
  let ?c = "?b\<lparr>cell := (cell ?b)\<lparr>reg_inner := Some inn\<rparr>, csys := s, thr := (thr ?b)(0 := RPublish res)\<rparr>"
  have c: "cell_run ?b ?c"
    by (rule register_new [OF _ new]) (simp add: steps)
  have "consume_nodes (std_ext []) inn 64 False False
      [(64, \<lparr>node_direction = Read, node_waker = 72, node_next = 0\<rparr>)] s = (Panic ''dangling waker'', [], s)"
    using s by (simp add: consume_one)
  then have "register_publish (std_ext []) (cell ?c, csys ?c) =
      (Panic ''dangling waker'', ((cell ?c)\<lparr>reg_state := READY, boxes := []\<rparr>, s))"
    by (simp add: register_publish_def steps push_node_def LOCKED_def LIFECYCLE_MASK_def Registration_new_def)
  from register_panic [OF _ this, of 0 res 7 grab] obtain y where
    d: "cell_run ?c y" "thr y = (thr ?c)(0 := RPanic ''dangling waker'')" by simp
  have "reach cell_init cell_run y" using cells_queued_reach a b c d(1) by (meson reach_step)
  moreover have "thr y 1 = TIdle" "thr y 0 = RPanic ''dangling waker''" by (simp_all add: d(2))
  ultimately show ?thesis by blast
qed

end
