(* ===== verification/Reactor_Trace.thy ===== *)
theory Reactor_Trace
  imports Reactor_Core
begin

text \<open>
  Whole histories of one reactor: sources are added and dropped, wakers registered, events dispatched, by any
  number of threads and in any order. \<^verbatim>\<open>add_source\<close> takes its guard before it locks the slab, so it is two steps here:
  calls of several threads interleave between them. The ghost fields record every token handed to mio and the
  tokens of the sources that are registered now. The main result is that the guard in the token does what it is
  for: an event that arrives late, for a source whose slot has been reused, changes nothing.
\<close>

section \<open>Adding a source in two steps\<close>

definition take_guard :: "'sl inner \<Rightarrow> usize \<times> 'sl inner" where
  "take_guard inn = (next_aba_guard inn, inn\<lparr>next_aba_guard := next_aba_guard inn + push_bit TOKEN_SHIFT 1\<rparr>)"

definition insert_source ::
  "('aw, 'sl, 'w) ext \<Rightarrow> fd \<Rightarrow> usize \<Rightarrow> 'sl inner \<Rightarrow> 'w \<Rightarrow> usize io_result \<times> 'sl inner \<times> 'w" where
  "insert_source E source aba inn w =
     (if sl_len E (io_dispatch inn) = unat MAX_SOURCES
      then (Inl (IoError Other ''reactor at max registered I/O resources''), inn, w)
      else
        let (key, slab) = sl_insert E (io_dispatch inn)
              \<lparr>aba_guard = aba, readiness = 0, reader = aw_new E, writer = aw_new E\<rparr>;
            inn1 = inn\<lparr>io_dispatch := slab\<rparr>;
            (res, w') = mio_register E (inner_io inn1) source (aba OR key) (ready_all E) PollOpt_edge w
        in case res of Inl e \<Rightarrow> (Inl e, inn1, w') | Inr _ \<Rightarrow> (Inr key, inn1, w'))"

section \<open>Histories\<close>

text \<open>\<open>pending\<close> holds the guards of the threads that are between the two steps of \<^verbatim>\<open>add_source\<close>.\<close>

record ('sl, 'w) trace =
  tr_inner :: "'sl inner"
  tr_world :: 'w
  pending :: "nat \<Rightarrow> usize option"
  issued :: "usize list"
  live :: "usize set"
  adds :: nat

definition tr_init :: "('aw, 'sl, 'w) ext \<Rightarrow> ('sl, 'w) trace \<Rightarrow> bool" where
  "tr_init E x \<longleftrightarrow> next_aba_guard (tr_inner x) = 0 \<and> io_dispatch (tr_inner x) = sl_with_capacity E 1 \<and>
     pending x = Map.empty \<and> issued x = [] \<and> live x = {} \<and> adds x = 0"

text \<open>
  A failed \<^verbatim>\<open>add_source\<close> takes a guard too; when mio refused, the entry stays (see
  \<open>add_source_outcomes\<close>), so its token counts as live although mio knows nothing of it.
\<close>

inductive tr_step :: "('aw, 'sl, 'w) ext \<Rightarrow> ('sl, 'w) trace \<Rightarrow> ('sl, 'w) trace \<Rightarrow> bool" for E where
  tr_guard: "pending x i = None \<Longrightarrow> take_guard (tr_inner x) = (g, inn) \<Longrightarrow>
     tr_step E x (x\<lparr>tr_inner := inn, pending := (pending x)(i \<mapsto> g), adds := Suc (adds x)\<rparr>)"
| tr_insert: "pending x i = Some g \<Longrightarrow> insert_source E src g (tr_inner x) (tr_world x) = (Inr key, inn, w) \<Longrightarrow>
     tok = g OR key \<Longrightarrow>
     tr_step E x (x\<lparr>tr_inner := inn, tr_world := w, pending := (pending x)(i := None), issued := issued x @ [tok],
       live := insert tok (live x)\<rparr>)"
| tr_insert_full: "pending x i = Some g \<Longrightarrow> sl_len E (io_dispatch (tr_inner x)) = unat MAX_SOURCES \<Longrightarrow>
     insert_source E src g (tr_inner x) (tr_world x) = (Inl e, inn, w) \<Longrightarrow>
     tr_step E x (x\<lparr>tr_inner := inn, tr_world := w, pending := (pending x)(i := None)\<rparr>)"
| tr_insert_refused: "pending x i = Some g \<Longrightarrow> sl_len E (io_dispatch (tr_inner x)) \<noteq> unat MAX_SOURCES \<Longrightarrow>
     insert_source E src g (tr_inner x) (tr_world x) = (Inl e, inn, w) \<Longrightarrow>
     sl_insert E (io_dispatch (tr_inner x)) \<lparr>aba_guard = g, readiness = 0, reader = aw_new E, writer = aw_new E\<rparr> =
       (key, sl) \<Longrightarrow>
     tok = g OR key \<Longrightarrow>
     tr_step E x (x\<lparr>tr_inner := inn, tr_world := w, pending := (pending x)(i := None), issued := issued x @ [tok],
       live := insert tok (live x)\<rparr>)"
| tr_drop: "sl_get E (io_dispatch (tr_inner x)) key = Some io \<Longrightarrow>
     drop_source E key (tr_inner x) = (Ret (), inn) \<Longrightarrow>
     tr_step E x (x\<lparr>tr_inner := inn, live := live x - {aba_guard io OR key}\<rparr>)"
| tr_event: "dispatch E tok r (tr_inner x) = (ts, inn) \<Longrightarrow> tr_step E x (x\<lparr>tr_inner := inn\<rparr>)"
| tr_register: "inner_register E cx key dir (tr_inner x) = (Ret wk, inn) \<Longrightarrow>
     tr_step E x (x\<lparr>tr_inner := inn\<rparr>)"

text \<open>The tokens of the occupied entries.\<close>

definition tokens_of :: "('aw, 'sl, 'w) ext \<Rightarrow> 'sl inner \<Rightarrow> usize set" where
  "tokens_of E inn = {aba_guard io OR k | k io. sl_get E (io_dispatch inn) k = Some io}"

definition nth_guard :: "nat \<Rightarrow> usize" where
  "nth_guard n = of_nat n * 2 ^ TOKEN_SHIFT"

text \<open>
  The invariant: guards count the additions; every issued token and every thread between the steps has the guard of
  an earlier addition, and all these guards are different until they wrap around; the live tokens are those of the
  entries.
\<close>

definition guards_used :: "('sl, 'w) trace \<Rightarrow> bool" where
  "guards_used x \<longleftrightarrow>
     (\<forall>tok \<in> set (issued x). \<exists>n < adds x. tok AND NOT MAX_SOURCES = nth_guard n) \<and>
     (\<forall>i g. pending x i = Some g \<longrightarrow> (\<exists>n < adds x. g = nth_guard n)) \<and>
     (adds x \<le> 2 ^ 42 \<longrightarrow> distinct (issued x) \<and>
       (\<forall>i j g. pending x i = Some g \<longrightarrow> pending x j = Some g \<longrightarrow> i = j) \<and>
       (\<forall>i g tok. pending x i = Some g \<longrightarrow> tok \<in> set (issued x) \<longrightarrow> tok AND NOT MAX_SOURCES \<noteq> g))"

definition tr_inv :: "('aw, 'sl, 'w) ext \<Rightarrow> ('sl, 'w) trace \<Rightarrow> bool" where
  "tr_inv E x \<longleftrightarrow> inner_ok E (tr_inner x) \<and> next_aba_guard (tr_inner x) = nth_guard (adds x) \<and> guards_used x \<and>
     live x = tokens_of E (tr_inner x) \<and> live x \<subseteq> set (issued x)"

definition trace0 :: "(list_slab, nat) trace" where
  "trace0 = \<lparr>tr_inner = inner0, tr_world = 0, pending = Map.empty, issued = [], live = {}, adds = 0\<rparr>"

text \<open>
  The first source was added and dropped; two threads have then taken guards, and the one that took the later guard
  was the first to reuse the slot.
\<close>

definition trace_reuse :: "(list_slab, nat) trace" where
  "trace_reuse = \<lparr>tr_inner = inner0\<lparr>next_aba_guard := 12582912,
       io_dispatch := [Some \<lparr>aba_guard = 8388608, readiness = 0, reader = None, writer = None\<rparr>]\<rparr>,
     tr_world = 0, pending = [0 \<mapsto> 4194304], issued = [0, 8388608], live = {8388608}, adds = Suc (Suc 1)\<rparr>"

section \<open>Guards\<close>

lemma nth_guard_inj: "m < 2 ^ 42 \<Longrightarrow> n < 2 ^ 42 \<Longrightarrow> nth_guard m = nth_guard n \<Longrightarrow> m = n"
proof -
  have *: "unat (nth_guard k) = k * 2 ^ 22" if "k < 2 ^ 42" for k
  proof -
    have small: "m < 2 ^ 64 \<Longrightarrow> unat (of_nat m :: usize) = m" for m
      by (simp add: unat_of_nat take_bit_nat_eq_self)
    have "unat (of_nat (k * 2 ^ 22) :: usize) = k * 2 ^ 22" by (rule small) (use that in simp)
    moreover have "nth_guard k = of_nat (k * 2 ^ 22)"
      by (simp only: nth_guard_def TOKEN_SHIFT_def of_nat_mult of_nat_power of_nat_numeral)
    ultimately show ?thesis by (simp only:)
  qed
  assume "m < 2 ^ 42" "n < 2 ^ 42" "nth_guard m = nth_guard n"
  then have "m * 2 ^ 22 = n * (2 ^ 22 :: nat)" using * by metis
  then show "m = n" by simp
qed

lemma nth_guard_Suc: "nth_guard (Suc n) = nth_guard n + push_bit TOKEN_SHIFT 1"
  by (simp add: nth_guard_def push_bit_eq_mult algebra_simps)

lemma tokens_of_iff: "tok \<in> tokens_of E inn \<longleftrightarrow>
    (\<exists>k io. sl_get E (io_dispatch inn) k = Some io \<and> tok = aba_guard io OR k)"
  by (auto simp: tokens_of_def)

lemma tokens_of_set:
  assumes "sl_get E (io_dispatch inn') = (sl_get E (io_dispatch inn))(k \<mapsto> io')"
    and "sl_get E (io_dispatch inn) k = Some io" and "aba_guard io' = aba_guard io"
  shows "tokens_of E inn' = tokens_of E inn"
  using assms by (auto simp: tokens_of_def split: if_splits) (metis option.inject)+

lemma tokens_of_insert:
  assumes "sl_get E (io_dispatch inn') = (sl_get E (io_dispatch inn))(k \<mapsto> io')"
    and "sl_get E (io_dispatch inn) k = None"
  shows "tokens_of E inn' = insert (aba_guard io' OR k) (tokens_of E inn)"
  using assms by (auto simp: tokens_of_def split: if_splits) (metis option.distinct(1))+

lemma token_injective:
  assumes "ext_ok E" and "inner_ok E inn" and "sl_get E (io_dispatch inn) k = Some io"
    and "sl_get E (io_dispatch inn) k' = Some io'" and "aba_guard io OR k = aba_guard io' OR k'"
  shows "k = k'"
  using entry_token(1) [OF assms(1-3)] entry_token(1) [OF assms(1,2,4)] assms(5) by simp

lemma tokens_of_remove:
  assumes "ext_ok E" and "inner_ok E inn" and "sl_get E (io_dispatch inn) k = Some io"
    and "sl_get E (io_dispatch inn') = (sl_get E (io_dispatch inn))(k := None)"
  shows "tokens_of E inn' = tokens_of E inn - {aba_guard io OR k}"
proof -
  have "tok \<in> tokens_of E inn' \<longleftrightarrow> tok \<in> tokens_of E inn - {aba_guard io OR k}" for tok
    using token_injective [OF assms(1-3)] assms(3,4)
    by (auto simp: tokens_of_iff split: if_splits) (metis option.inject)+
  then show ?thesis by blast
qed

lemma tokens_of_dispatch:
  assumes "ext_ok E" and "inner_ok E inn"
  shows "tokens_of E (snd (dispatch E tok r inn)) = tokens_of E inn"
proof (cases "sl_get E (io_dispatch inn) (tok AND MAX_SOURCES)")
  case None
  then show ?thesis by (simp add: dispatch_miss)
next
  case (Some io)
  show ?thesis
  proof (cases "aba_guard io = tok AND NOT MAX_SOURCES")
    case True
    then show ?thesis
      by (intro tokens_of_set [where io' = "deliver E r io", OF _ Some])
        (simp_all add: dispatch_hit [OF ext_ok_ready [OF assms(1)] Some]
          slab_set(1) [OF assms(1) inner_ok_fits [OF assms(2)] Some])
  next
    case False
    with Some show ?thesis by (simp add: dispatch_stale)
  qed
qed

lemma tokens_of_register:
  assumes "ext_ok E" and "inner_ok E inn" and "inner_register E cx k dir inn = (Ret wk, inn')"
  shows "tokens_of E inn' = tokens_of E inn"
proof (cases "sl_get E (io_dispatch inn) k")
  case None
  with assms(3) show ?thesis by (simp add: inner_register_def)
next
  case (Some io)
  obtain io' where "inn' = inn\<lparr>io_dispatch := sl_set E (io_dispatch inn) k io'\<rparr>" "aba_guard io' = aba_guard io"
    using assms(3) by (cases dir) (auto simp: inner_register_eq [OF Some] Let_def)
  then show ?thesis
    using tokens_of_set [OF _ Some] slab_set(1) [OF assms(1) inner_ok_fits [OF assms(2)] Some] by simp
qed

lemma add_source_split:
  "add_source E src inn w = (case take_guard inn of (g, inn1) \<Rightarrow> insert_source E src g inn1 w)"
  by (simp add: add_source_def take_guard_def insert_source_def Let_def)

lemma nth_guard_mask: "nth_guard n AND MAX_SOURCES = 0"
  by (induction n) (simp_all add: nth_guard_Suc guard_step, simp add: nth_guard_def)

lemma insert_source_cases:
  assumes "insert_source E src g inn w = (res, inn', w')"
  obtains (full) "sl_len E (io_dispatch inn) = unat MAX_SOURCES" "inn' = inn" "\<exists>e. res = Inl e"
    | (inserted) key slab where "sl_len E (io_dispatch inn) \<noteq> unat MAX_SOURCES"
      "sl_insert E (io_dispatch inn) \<lparr>aba_guard = g, readiness = 0, reader = aw_new E, writer = aw_new E\<rparr> = (key, slab)"
      "inn' = inn\<lparr>io_dispatch := slab\<rparr>" "\<And>k. res = Inr k \<Longrightarrow> k = key"
  using assms by (auto simp: insert_source_def Let_def split: if_splits prod.splits sum.splits)

lemma entry_inserted:
  assumes "ext_ok E" and "inner_ok E inn" and "g AND MAX_SOURCES = 0" and "sl_len E (io_dispatch inn) \<noteq> unat MAX_SOURCES"
    and "sl_insert E (io_dispatch inn) \<lparr>aba_guard = g, readiness = 0, reader = aw_new E, writer = aw_new E\<rparr> = (key, sl)"
  shows "inner_ok E (inn\<lparr>io_dispatch := sl\<rparr>)"
    and "tokens_of E (inn\<lparr>io_dispatch := sl\<rparr>) = insert (g OR key) (tokens_of E inn)"
    and "(g OR key) AND NOT MAX_SOURCES = g"
proof -
  note ins = slab_insert(1,2) [OF assms(1) inner_ok_fits [OF assms(2)] assms(5)]
    and slots = insert_slots [OF assms(1,2,4,5)]
  from slots(1) ins(2) assms(2,3) show "inner_ok E (inn\<lparr>io_dispatch := sl\<rparr>)" by (auto simp: inner_ok_def split: if_splits)
  from tokens_of_insert [of E "inn\<lparr>io_dispatch := sl\<rparr>" inn, OF _ ins(1)] ins(2)
  show "tokens_of E (inn\<lparr>io_dispatch := sl\<rparr>) = insert (g OR key) (tokens_of E inn)" by simp
  have "key AND MAX_SOURCES = key" using slots(2) by (simp add: key_and_MAX_SOURCES)
  with token_split(2) [OF assms(3)] show "(g OR key) AND NOT MAX_SOURCES = g" by simp
qed

lemma dispatch_guard: "next_aba_guard (snd (dispatch E tok r inn)) = next_aba_guard inn"
  by (auto simp: dispatch_def Let_def split: option.splits)

lemma inner_register_guard:
  "inner_register E cx k dir inn = (Ret wk, inn') \<Longrightarrow> next_aba_guard inn' = next_aba_guard inn"
  by (auto simp: inner_register_def Let_def split: option.splits prod.splits)

lemma guards_used_take:
  assumes "guards_used x" and "pending x i = None" and "adds y = Suc (adds x)" "issued y = issued x"
    and "pending y = (pending x)(i \<mapsto> nth_guard (adds x))"
  shows "guards_used y"
proof -
  note used = assms(1) [unfolded guards_used_def]
  have new: "nth_guard n \<noteq> nth_guard (adds x)" if "n < adds x" "adds y \<le> 2 ^ 42" for n
    using nth_guard_inj [of n "adds x"] that assms(3) by auto
  have 1: "\<exists>n < adds y. tok AND NOT MAX_SOURCES = nth_guard n" if "tok \<in> set (issued y)" for tok
    using used that assms(3,4) by (metis less_SucI)
  have 2: "\<exists>n < adds y. g = nth_guard n" if "pending y j = Some g" for j g
  proof (cases "j = i")
    case True
    with that assms(3,5) show ?thesis by auto
  next
    case False
    with that used assms(3,5) show ?thesis by (metis fun_upd_other less_SucI)
  qed
  have 3: "tok AND NOT MAX_SOURCES \<noteq> nth_guard (adds x)" if "tok \<in> set (issued x)" "adds y \<le> 2 ^ 42" for tok
    using used that new by metis
  have 4: "pending x j \<noteq> Some (nth_guard (adds x))" if "adds y \<le> 2 ^ 42" for j
    using used that new by metis
  have "adds x \<le> 2 ^ 42" if "adds y \<le> 2 ^ 42" using that assms(3) by simp
  then show ?thesis
    unfolding guards_used_def using 1 2 3 4 used assms(4,5) by (auto split: if_splits)
qed

lemma guards_used_insert:
  assumes "guards_used x" and "pending x i = Some g" and "tok AND NOT MAX_SOURCES = g" and "adds y = adds x"
    and "issued y = issued x @ [tok]" and "pending y = (pending x)(i := None)"
  shows "guards_used y"
  using assms(1-3) unfolding guards_used_def assms(4-6) by (auto split: if_splits)

lemma guards_used_frame:
  assumes "guards_used x" and "adds y = adds x" "issued y = issued x" and "\<And>i g. pending y i = Some g \<Longrightarrow> pending x i = Some g"
  shows "guards_used y"
  using assms(1) unfolding guards_used_def assms(2,3) using assms(4) by blast

lemma tr_inv_insert:
  assumes "ext_ok E" and "tr_inv E x" and "pending x i = Some g" and "sl_len E (io_dispatch (tr_inner x)) \<noteq> unat MAX_SOURCES"
    and "sl_insert E (io_dispatch (tr_inner x)) \<lparr>aba_guard = g, readiness = 0, reader = aw_new E, writer = aw_new E\<rparr> = (key, sl)"
    and "inn = (tr_inner x)\<lparr>io_dispatch := sl\<rparr>"
  shows "tr_inv E (x\<lparr>tr_inner := inn, tr_world := w, pending := (pending x)(i := None), issued := issued x @ [g OR key],
       live := insert (g OR key) (live x)\<rparr>)"
proof -
  have used: "guards_used x" and ok: "inner_ok E (tr_inner x)" using assms(2) by (simp_all add: tr_inv_def)
  then have "g AND MAX_SOURCES = 0" using assms(3) nth_guard_mask unfolding guards_used_def by metis
  note new = entry_inserted [OF assms(1) ok this assms(4,5)]
  have "guards_used (x\<lparr>tr_inner := inn, tr_world := w, pending := (pending x)(i := None), issued := issued x @ [g OR key],
       live := insert (g OR key) (live x)\<rparr>)"
    by (rule guards_used_insert [OF used assms(3) new(3)]) simp_all
  with new assms(2,6) show ?thesis by (auto simp: tr_inv_def)
qed

lemma tr_inv_guard:
  assumes "tr_inv E x" and "pending x i = None" and "take_guard (tr_inner x) = (g, inn)"
  shows "tr_inv E (x\<lparr>tr_inner := inn, pending := (pending x)(i \<mapsto> g), adds := Suc (adds x)\<rparr>)" (is "tr_inv E ?y")
proof -
  have g: "g = nth_guard (adds x)" "inn = (tr_inner x)\<lparr>next_aba_guard := nth_guard (Suc (adds x))\<rparr>"
    using assms(1,3) by (auto simp: take_guard_def tr_inv_def nth_guard_Suc)
  have "guards_used x" using assms(1) by (simp add: tr_inv_def)
  then have "guards_used ?y" by (rule guards_used_take [OF _ assms(2)]) (simp_all add: g)
  moreover have "tokens_of E inn = tokens_of E (tr_inner x)" "inner_ok E inn"
    using assms(1) by (auto simp: tokens_of_def g tr_inv_def inner_ok_def nth_guard_mask)
  ultimately show ?thesis using assms(1) by (auto simp: tr_inv_def g(2))
qed

lemma tr_inv_drop:
  assumes "ext_ok E" and "tr_inv E x" and "sl_get E (io_dispatch (tr_inner x)) key = Some io"
    and "drop_source E key (tr_inner x) = (Ret (), inn)"
  shows "tr_inv E (x\<lparr>tr_inner := inn, live := live x - {aba_guard io OR key}\<rparr>)"
proof -
  have ok: "inner_ok E (tr_inner x)" using assms(2) by (simp add: tr_inv_def)
  obtain inn2 where d: "drop_source E key (tr_inner x) = (Ret (), inn2)" "inner_ok E inn2"
    "sl_get E (io_dispatch inn2) = (sl_get E (io_dispatch (tr_inner x)))(key := None)"
    "next_aba_guard inn2 = next_aba_guard (tr_inner x)"
    by (rule drop_source_ok [OF assms(1) ok assms(3)])
  then have "inn = inn2" using assms(4) by simp
  with d assms(2) tokens_of_remove [OF assms(1) ok assms(3) d(3)] show ?thesis
    by (auto simp: tr_inv_def guards_used_def)
qed

lemma tr_step_inv:
  assumes "tr_step E x y" and "ext_ok E" and "tr_inv E x"
  shows "tr_inv E y"
  using assms(1)
proof cases
  case tr_guard
  then show ?thesis using tr_inv_guard [OF assms(3)] by simp
next
  case (tr_insert i g src key inn w tok)
  from tr_insert(3) show ?thesis
    by (cases rule: insert_source_cases) (use tr_inv_insert [OF assms(2,3) tr_insert(2)] tr_insert(1,4) in auto)
next
  case (tr_insert_full i g src e inn w)
  from tr_insert_full(4) have inn: "inn = tr_inner x"
    by (cases rule: insert_source_cases) (use tr_insert_full(3) in auto)
  have "guards_used x" using assms(3) by (simp add: tr_inv_def)
  then have "guards_used y" by (rule guards_used_frame) (use tr_insert_full(1) in \<open>auto split: if_splits\<close>)
  with assms(3) inn show ?thesis by (auto simp: tr_insert_full(1) tr_inv_def)
next
  case (tr_insert_refused i g src e inn w key sl tok)
  from tr_insert_refused(4) have "inn = (tr_inner x)\<lparr>io_dispatch := sl\<rparr>"
    by (cases rule: insert_source_cases) (use tr_insert_refused(3,5) in auto)
  from tr_inv_insert [OF assms(2,3) tr_insert_refused(2,3,5) this] tr_insert_refused(1,6) show ?thesis by simp
next
  case tr_drop
  then show ?thesis using tr_inv_drop [OF assms(2,3)] by simp
next
  case (tr_event tok r ts inn)
  have ok: "inner_ok E (tr_inner x)" using assms(3) by (simp add: tr_inv_def)
  from tr_event(2) tokens_of_dispatch [OF assms(2) ok, of tok r] dispatch_ok [OF assms(2) ok, of tok r]
    dispatch_guard [of E tok r "tr_inner x"] assms(3)
  show ?thesis by (auto simp: tr_event(1) tr_inv_def guards_used_def)
next
  case (tr_register cx key dir wk inn)
  have ok: "inner_ok E (tr_inner x)" using assms(3) by (simp add: tr_inv_def)
  obtain io where "sl_get E (io_dispatch (tr_inner x)) key = Some io"
    using tr_register(2) by (auto simp: inner_register_def split: option.splits)
  from tokens_of_register [OF assms(2) ok tr_register(2)] inner_register_ok [OF assms(2) ok this, of cx dir]
    inner_register_guard [OF tr_register(2)] tr_register(2) assms(3)
  show ?thesis by (auto simp: tr_register(1) tr_inv_def guards_used_def)
qed

lemma tr_init_inv: "ext_ok E \<Longrightarrow> tr_init E x \<Longrightarrow> tr_inv E x"
  by (simp add: tr_init_def tr_inv_def guards_used_def inner_ok_def tokens_of_def nth_guard_def empty_slab_get)

interpretation history: inductive_invariant
  "\<lambda>x. ext_ok E \<and> tr_init E x" "tr_step E" "\<lambda>x. ext_ok E \<and> tr_inv E x" for E
  by unfold_locales (auto intro: tr_init_inv tr_step_inv)

section \<open>Late events\<close>

lemma dispatch_unknown:
  assumes "ext_ok E" and "tok \<notin> tokens_of E inn"
  shows "dispatch E tok r inn = ([], inn)"
proof (cases "sl_get E (io_dispatch inn) (tok AND MAX_SOURCES)")
  case None
  then show ?thesis by (simp add: dispatch_miss)
next
  case (Some io)
  then have "aba_guard io \<noteq> tok AND NOT MAX_SOURCES"
    using assms(2) token_join [of tok MAX_SOURCES] unfolding tokens_of_iff by metis
  with Some show ?thesis by (simp add: dispatch_stale)
qed

lemma adds_mono: "tr_step E x y \<Longrightarrow> adds x \<le> adds y"
  by (erule tr_step.cases) auto

lemma dead_stays_dead:
  assumes "tr_step E x y" and "tr_inv E y" and "adds y \<le> 2 ^ 42" and "tok \<in> set (issued x)" and "tok \<notin> live x"
  shows "tok \<in> set (issued y) \<and> tok \<notin> live y"
proof -
  have "distinct (issued y)" using assms(2,3) by (simp add: tr_inv_def guards_used_def)
  with assms(1,4,5) show ?thesis by cases auto
qed

lemma dead_forever:
  assumes "(tr_step E)\<^sup>*\<^sup>* x y" and "ext_ok E" and "tr_inv E x" and "adds y \<le> 2 ^ 42"
    and "tok \<in> set (issued x)" and "tok \<notin> live x"
  shows "tr_inv E y \<and> tok \<in> set (issued y) \<and> tok \<notin> live y"
  using assms(1,4)
proof (induction rule: rtranclp_induct)
  case base
  with assms show ?case by blast
next
  case (step y z)
  from step adds_mono [OF step.hyps(2)] have "tr_inv E y" "tok \<in> set (issued y)" "tok \<notin> live y" by auto
  with dead_stays_dead [OF step.hyps(2) tr_step_inv [OF step.hyps(2) assms(2)] step.prems]
    tr_step_inv [OF step.hyps(2) assms(2)]
  show ?case by blast
qed

text \<open>C25: the ABA guard works, also when threads add sources at the same time: once a source has been dropped, an event that still carries its token is ignored
  for the rest of the reactor's life (up to $2^{42}$ registrations, when the guard wraps around): it wakes nobody
  and changes nothing, even if the slot belongs to another source by now.\<close>

theorem stale_event_ignored:
  assumes "reach (\<lambda>x. ext_ok E \<and> tr_init E x) (tr_step E) x" and "tok \<in> set (issued x)" and "tok \<notin> live x"
    and "(tr_step E)\<^sup>*\<^sup>* x y" and "adds y \<le> 2 ^ 42"
  shows "dispatch E tok r (tr_inner y) = ([], tr_inner y)"
proof -
  have I: "ext_ok E" "tr_inv E x" using history.reach_inv [OF assms(1)] by blast+
  from dead_forever [OF assms(4) I assms(5,2,3)] have "tok \<notin> tokens_of E (tr_inner y)"
    by (auto simp: tr_inv_def)
  with I(1) show ?thesis by (rule dispatch_unknown)
qed

text \<open>C26: events reach their source: in every state of every history, the token of each registered source
  identifies one entry, and dispatching an event on it delivers to that entry and to no other.\<close>

theorem live_event_delivered:
  assumes "reach (\<lambda>x. ext_ok E \<and> tr_init E x) (tr_step E) x" and "tok \<in> live x"
  shows "\<exists>!k. \<exists>io. sl_get E (io_dispatch (tr_inner x)) k = Some io \<and> aba_guard io OR k = tok \<and>
    sl_get E (io_dispatch (snd (dispatch E tok r (tr_inner x)))) =
      (sl_get E (io_dispatch (tr_inner x)))(k \<mapsto> deliver E r io)"
proof -
  have E: "ext_ok E" and I: "inner_ok E (tr_inner x)" "live x = tokens_of E (tr_inner x)"
    using history.reach_inv [OF assms(1)] by (auto simp: tr_inv_def)
  then obtain k io where k: "sl_get E (io_dispatch (tr_inner x)) k = Some io" "tok = aba_guard io OR k"
    using assms(2) by (auto simp: tokens_of_iff)
  have "sl_get E (io_dispatch (snd (dispatch E tok r (tr_inner x)))) =
      (sl_get E (io_dispatch (tr_inner x)))(k \<mapsto> deliver E r io)"
    by (simp add: k(2) dispatch_live [OF E I(1) k(1)] slab_set(1) [OF E inner_ok_fits [OF I(1)] k(1)])
  then show ?thesis
    using k token_injective [OF E I(1) _ k(1)] by (intro ex1I [of _ k]) (auto intro: exI [of _ io])
qed

lemma trace_reuse_reach: "reach (\<lambda>x. ext_ok (std_ext []) \<and> tr_init (std_ext []) x) (tr_step (std_ext [])) trace_reuse"
proof -
  let ?S = "tr_step (std_ext [])"
  let ?e = "\<lambda>g. [Some \<lparr>aba_guard = g, readiness = 0, reader = None, writer = None\<rparr>] :: list_slab"
  let ?st = "\<lambda>g sl pd is lv n. \<lparr>tr_inner = inner0\<lparr>next_aba_guard := g, io_dispatch := sl\<rparr>, tr_world = (0::nat),
      pending = pd, issued = is, live = lv, adds = n\<rparr>"
  let ?a = "?st 4194304 [] [0 \<mapsto> 0] [] {} 1"
  let ?b = "?st 4194304 (?e 0) Map.empty [0] {0} 1"
  let ?c = "?st 4194304 [None] Map.empty [0] {} 1"
  let ?d = "?st 8388608 [None] [0 \<mapsto> 4194304] [0] {} (Suc 1)"
  let ?f = "?st 12582912 [None] [0 \<mapsto> 4194304, 1 \<mapsto> 8388608] [0] {} (Suc (Suc 1))"
  have "reach (\<lambda>x. ext_ok (std_ext []) \<and> tr_init (std_ext []) x) ?S trace0"
    by (rule reach_init) (simp add: std_ext_ok tr_init_def trace0_def inner0_def, simp add: std_ext_def)
  moreover have "?S trace0 ?a"
    using tr_guard [of trace0 0 0 "tr_inner ?a" "std_ext []"]
    by (simp add: trace0_def take_guard_def inner0_def TOKEN_SHIFT_def)
  moreover have "?S ?a ?b"
    using tr_insert [of ?a 0 0 "std_ext []" 7 0 "tr_inner ?b" 0 0]
    by (simp add: insert_source_def inner0_def std_ext_def ls_insert_def)
  moreover have "?S ?b ?c"
    using tr_drop [of "std_ext []" ?b 0 "\<lparr>aba_guard = 0, readiness = 0, reader = None, writer = None\<rparr>" "tr_inner ?c"]
    by (simp add: drop_source_def inner0_def std_ext_def ls_remove_def ls_get_def)
  moreover have "?S ?c ?d"
    using tr_guard [of ?c 0 4194304 "tr_inner ?d" "std_ext []"] by (simp add: take_guard_def inner0_def TOKEN_SHIFT_def)
  moreover have "?S ?d ?f"
    using tr_guard [of ?d 1 8388608 "tr_inner ?f" "std_ext []"] by (simp add: take_guard_def inner0_def TOKEN_SHIFT_def)
  moreover have "?S ?f trace_reuse"
    using tr_insert [of ?f 1 8388608 "std_ext []" 8 0 "tr_inner trace_reuse" 0 8388608]
    by (simp add: trace_reuse_def insert_source_def inner0_def std_ext_def ls_insert_def)
  ultimately show ?thesis by (meson reach_step)
qed

theorem stale_event_ignored_witness:
  "dispatch (std_ext []) 0 1 (tr_inner trace_reuse) = ([], tr_inner trace_reuse)"
  by (rule stale_event_ignored [OF trace_reuse_reach]) (simp_all add: trace_reuse_def)

theorem live_event_delivered_witness:
  "\<exists>k io. sl_get (std_ext []) (io_dispatch (tr_inner trace_reuse)) k = Some io \<and> aba_guard io OR k = 8388608"
proof -
  have "8388608 \<in> live trace_reuse" by (simp add: trace_reuse_def)
  from live_event_delivered [OF trace_reuse_reach this] show ?thesis by blast
qed

end
