(* ===== verification/Sharded_RwLock.thy ===== *)
theory Sharded_RwLock
  imports Prelude
begin

text \<open>
  \<^verbatim>\<open>src/reactor/sharded_rwlock.rs\<close>: the reader-writer lock around the dispatch slab, made of one
  \<^verbatim>\<open>parking_lot::RwLock\<close> per shard, and the registry that numbers threads. The shard locks are a
  parameter with the documented behaviour as laws; the lock built from them is a step relation in which
  every acquisition and release of a shard is a step of its own.
\<close>

section \<open>The shard locks\<close>

text \<open>
  \<open>pl_read\<close> and \<open>pl_write\<close> give \<open>None\<close> where the call blocks. \<open>pl_readers\<close> and \<open>pl_writer\<close> observe
  who holds the lock, for the specification only.
\<close>

record 'l plock =
  pl_new :: 'l
  pl_read :: "'l \<Rightarrow> 'l option"
  pl_write :: "'l \<Rightarrow> 'l option"
  pl_unlock_read :: "'l \<Rightarrow> 'l"
  pl_force_unlock_write :: "'l \<Rightarrow> 'l"
  pl_readers :: "'l \<Rightarrow> nat"
  pl_writer :: "'l \<Rightarrow> bool"

text \<open>
  A write lock excludes everybody, a read lock excludes writers. A free lock can be taken; that a read
  lock can be shared is not promised, since a queued writer may hold readers back.
\<close>

definition pl_ok :: "'l plock \<Rightarrow> bool" where
  "pl_ok P \<longleftrightarrow>
     pl_readers P (pl_new P) = 0 \<and> \<not> pl_writer P (pl_new P) \<and>
     (\<forall>l l'. pl_read P l = Some l' \<longrightarrow>
        \<not> pl_writer P l \<and> \<not> pl_writer P l' \<and> pl_readers P l' = Suc (pl_readers P l)) \<and>
     (\<forall>l l'. pl_write P l = Some l' \<longrightarrow>
        \<not> pl_writer P l \<and> pl_readers P l = 0 \<and> pl_writer P l' \<and> pl_readers P l' = 0) \<and>
     (\<forall>l. \<not> pl_writer P l \<and> pl_readers P l = 0 \<longrightarrow> pl_write P l \<noteq> None \<and> pl_read P l \<noteq> None) \<and>
     (\<forall>l. pl_readers P l > 0 \<longrightarrow>
        pl_readers P (pl_unlock_read P l) = pl_readers P l - 1 \<and> pl_writer P (pl_unlock_read P l) = pl_writer P l) \<and>
     (\<forall>l. pl_writer P l \<longrightarrow>
        \<not> pl_writer P (pl_force_unlock_write P l) \<and> pl_readers P (pl_force_unlock_write P l) = pl_readers P l)"

text \<open>An instance: the number of readers and whether there is a writer.\<close>

definition std_plock :: "(nat \<times> bool) plock" where
  "std_plock = \<lparr>pl_new = (0, False),
     pl_read = (\<lambda>(r, w). if w then None else Some (Suc r, False)),
     pl_write = (\<lambda>(r, w). if w \<or> r > 0 then None else Some (0, True)),
     pl_unlock_read = (\<lambda>(r, w). (r - 1, w)), pl_force_unlock_write = (\<lambda>(r, w). (r, False)),
     pl_readers = fst, pl_writer = snd\<rparr>"

section \<open>The lock\<close>

record ('l, 'a) RwLock =
  shards :: "'l list"
  lock_value :: 'a

record RwLockReadGuard =
  guard_shard :: nat

text \<open>\<^verbatim>\<open>usize::next_power_of_two\<close>.\<close>

fun next_power_of_two :: "nat \<Rightarrow> nat" where
  "next_power_of_two n = (if n \<le> 1 then 1 else 2 * next_power_of_two ((n + 1) div 2))"

declare next_power_of_two.simps [simp del]

definition RwLock_new :: "'l plock \<Rightarrow> nat \<Rightarrow> 'a \<Rightarrow> ('l, 'a) RwLock" where
  "RwLock_new P num_cpus v =
     (let num_shards = next_power_of_two num_cpus
      in \<lparr>shards = map (\<lambda>_. pl_new P) [0..<num_shards], lock_value = v\<rparr>)"

definition shard_index :: "usize \<Rightarrow> nat \<Rightarrow> nat" where
  "shard_index thread_idx n = unat (thread_idx AND (of_nat n - 1))"

text \<open>\<^verbatim>\<open>read\<close> and \<^verbatim>\<open>write\<close>; \<open>Ret None\<close> is a call that blocks.\<close>

definition RwLock_read ::
  "'l plock \<Rightarrow> usize \<Rightarrow> (('l, 'a) RwLock, RwLockReadGuard option) op" where
  "RwLock_read P thread_idx lk =
     (let k = shard_index thread_idx (length (shards lk))
      in if k < length (shards lk)
         then (case pl_read P (shards lk ! k) of
                 None \<Rightarrow> (Ret None, lk)
               | Some l \<Rightarrow> (Ret (Some \<lparr>guard_shard = k\<rparr>), lk\<lparr>shards := (shards lk)[k := l]\<rparr>))
         else (Panic ''index out of bounds'', lk))"

definition RwLockReadGuard_drop ::
  "'l plock \<Rightarrow> RwLockReadGuard \<Rightarrow> ('l, 'a) RwLock \<Rightarrow> ('l, 'a) RwLock" where
  "RwLockReadGuard_drop P g lk =
     lk\<lparr>shards := (shards lk)[guard_shard g := pl_unlock_read P (shards lk ! guard_shard g)]\<rparr>"

text \<open>The loop of \<^verbatim>\<open>write\<close> from shard \<open>k\<close> on; \<open>False\<close> when a shard blocks, with the shards before it locked.\<close>

function write_from :: "'l plock \<Rightarrow> nat \<Rightarrow> ('l, 'a) RwLock \<Rightarrow> bool \<times> ('l, 'a) RwLock" where
  "write_from P k lk =
     (if k < length (shards lk)
      then (case pl_write P (shards lk ! k) of
              None \<Rightarrow> (False, lk)
            | Some l \<Rightarrow> write_from P (Suc k) (lk\<lparr>shards := (shards lk)[k := l]\<rparr>))
      else (True, lk))"
  by pat_completeness auto
termination
  by (relation "measure (\<lambda>(P, k, lk). length (shards lk) - k)") auto

declare write_from.simps [simp del]

definition RwLock_write :: "'l plock \<Rightarrow> (('l, 'a) RwLock, unit option) op" where
  "RwLock_write P lk = (case write_from P 0 lk of (b, lk') \<Rightarrow> (Ret (if b then Some () else None), lk'))"

text \<open>The shards are unlocked in reverse order.\<close>

definition RwLockWriteGuard_drop :: "'l plock \<Rightarrow> ('l, 'a) RwLock \<Rightarrow> ('l, 'a) RwLock" where
  "RwLockWriteGuard_drop P lk =
     fold (\<lambda>k m. m\<lparr>shards := (shards m)[k := pl_force_unlock_write P (shards m ! k)]\<rparr>)
       (rev [0..<length (shards lk)]) lk"

definition RwLockReadGuard_deref :: "('l, 'a) RwLock \<Rightarrow> 'a" where
  "RwLockReadGuard_deref parent = lock_value parent"

definition RwLockWriteGuard_deref :: "('l, 'a) RwLock \<Rightarrow> 'a" where
  "RwLockWriteGuard_deref parent = lock_value parent"

definition RwLockWriteGuard_deref_mut :: "('a \<Rightarrow> 'a) \<Rightarrow> ('l, 'a) RwLock \<Rightarrow> ('l, 'a) RwLock" where
  "RwLockWriteGuard_deref_mut f parent = parent\<lparr>lock_value := f (lock_value parent)\<rparr>"

section \<open>Concurrent use\<close>

text \<open>
  Where a thread stands: reading shard \<open>k\<close>, having write-locked the shards below \<open>k\<close>, holding the write
  guard, or still having to unlock the shards below \<open>k\<close>.
\<close>

datatype lock_pc = LIdle | LReading nat | LLocking nat | LWriting | LUnlocking nat

record ('l, 'a) locks =
  rw :: "('l, 'a) RwLock"
  lock_at :: "nat \<Rightarrow> lock_pc"

definition lock_init :: "'l plock \<Rightarrow> nat \<Rightarrow> ('l, 'a) locks \<Rightarrow> bool" where
  "lock_init P cpus x \<longleftrightarrow> (\<exists>v. rw x = RwLock_new P cpus v) \<and> (\<forall>i. lock_at x i = LIdle)"

text \<open>\<open>ti\<close> gives each thread its index.\<close>

inductive lock_step ::
  "'l plock \<Rightarrow> (nat \<Rightarrow> usize) \<Rightarrow> ('l, 'a) locks \<Rightarrow> ('l, 'a) locks \<Rightarrow> bool" for P ti where
  lock_read: "lock_at x i = LIdle \<Longrightarrow> RwLock_read P (ti i) (rw x) = (Ret (Some g), lk) \<Longrightarrow>
     lock_step P ti x (x\<lparr>rw := lk, lock_at := (lock_at x)(i := LReading (guard_shard g))\<rparr>)"
| unlock_read: "lock_at x i = LReading k \<Longrightarrow>
     lock_step P ti x (x\<lparr>rw := RwLockReadGuard_drop P \<lparr>guard_shard = k\<rparr> (rw x),
       lock_at := (lock_at x)(i := LIdle)\<rparr>)"
| start_write: "lock_at x i = LIdle \<Longrightarrow> lock_step P ti x (x\<lparr>lock_at := (lock_at x)(i := LLocking 0)\<rparr>)"
| lock_shard: "lock_at x i = LLocking k \<Longrightarrow> k < length (shards (rw x)) \<Longrightarrow>
     pl_write P (shards (rw x) ! k) = Some l \<Longrightarrow>
     lock_step P ti x (x\<lparr>rw := (rw x)\<lparr>shards := (shards (rw x))[k := l]\<rparr>,
       lock_at := (lock_at x)(i := LLocking (Suc k))\<rparr>)"
| locked_all: "lock_at x i = LLocking k \<Longrightarrow> k = length (shards (rw x)) \<Longrightarrow>
     lock_step P ti x (x\<lparr>lock_at := (lock_at x)(i := LWriting)\<rparr>)"
| modify: "lock_at x i = LWriting \<Longrightarrow>
     lock_step P ti x (x\<lparr>rw := RwLockWriteGuard_deref_mut f (rw x)\<rparr>)"
| start_unlock: "lock_at x i = LWriting \<Longrightarrow>
     lock_step P ti x (x\<lparr>lock_at := (lock_at x)(i := LUnlocking (length (shards (rw x))))\<rparr>)"
| unlock_shard: "lock_at x i = LUnlocking (Suc k) \<Longrightarrow>
     lock_step P ti x (x\<lparr>rw := (rw x)\<lparr>shards := (shards (rw x))[k := pl_force_unlock_write P (shards (rw x) ! k)]\<rparr>,
       lock_at := (lock_at x)(i := LUnlocking k)\<rparr>)"
| unlocked_all: "lock_at x i = LUnlocking 0 \<Longrightarrow> lock_step P ti x (x\<lparr>lock_at := (lock_at x)(i := LIdle)\<rparr>)"

text \<open>Whether a thread at \<open>p\<close> has shard \<open>k\<close> write-locked, of \<open>n\<close> shards.\<close>

fun owns :: "nat \<Rightarrow> nat \<Rightarrow> lock_pc \<Rightarrow> bool" where
  "owns n k (LLocking j) = (k < j)"
| "owns n k LWriting = True"
| "owns n k (LUnlocking j) = (k < j)"
| "owns n k _ = False"

fun in_range :: "nat \<Rightarrow> lock_pc \<Rightarrow> bool" where
  "in_range n (LReading k) = (k < n)"
| "in_range n (LLocking k) = (k \<le> n)"
| "in_range n (LUnlocking k) = (k \<le> n)"
| "in_range n _ = True"

definition lock_inv :: "'l plock \<Rightarrow> nat \<Rightarrow> ('l, 'a) locks \<Rightarrow> bool" where
  "lock_inv P n x \<longleftrightarrow> length (shards (rw x)) = n \<and> finite {i. lock_at x i \<noteq> LIdle} \<and>
     (\<forall>i. in_range n (lock_at x i)) \<and>
     (\<forall>k < n. pl_readers P (shards (rw x) ! k) = card {i. lock_at x i = LReading k}) \<and>
     (\<forall>k < n. pl_writer P (shards (rw x) ! k) \<longleftrightarrow> (\<exists>i. owns n k (lock_at x i))) \<and>
     (\<forall>k < n. pl_writer P (shards (rw x) ! k) \<longrightarrow> pl_readers P (shards (rw x) ! k) = 0) \<and>
     (\<forall>k < n. \<forall>i j. owns n k (lock_at x i) \<longrightarrow> owns n k (lock_at x j) \<longrightarrow> i = j)"

section \<open>The specification\<close>

text \<open>What the lock implements: one atomic reader-writer lock around a value.\<close>

record 'a rwspec =
  spec_value :: 'a
  spec_readers :: "nat set"
  spec_writers :: "nat set"

definition spec_init :: "'a rwspec \<Rightarrow> bool" where
  "spec_init a \<longleftrightarrow> spec_readers a = {} \<and> spec_writers a = {}"

inductive spec_step :: "'a rwspec \<Rightarrow> 'a rwspec \<Rightarrow> bool" where
  acquire_read: "spec_writers a = {} \<Longrightarrow> i \<notin> spec_readers a \<Longrightarrow>
     spec_step a (a\<lparr>spec_readers := insert i (spec_readers a)\<rparr>)"
| release_read: "i \<in> spec_readers a \<Longrightarrow> spec_step a (a\<lparr>spec_readers := spec_readers a - {i}\<rparr>)"
| acquire_write: "spec_writers a = {} \<Longrightarrow> spec_readers a = {} \<Longrightarrow> spec_step a (a\<lparr>spec_writers := {i}\<rparr>)"
| write_value: "spec_writers a = {i} \<Longrightarrow> spec_step a (a\<lparr>spec_value := f (spec_value a)\<rparr>)"
| release_write: "spec_writers a = {i} \<Longrightarrow> spec_step a (a\<lparr>spec_writers := {}\<rparr>)"

text \<open>A writer is alone.\<close>

definition spec_inv :: "'a rwspec \<Rightarrow> bool" where
  "spec_inv a \<longleftrightarrow> spec_writers a = {} \<or> (\<exists>i. spec_writers a = {i}) \<and> spec_readers a = {}"

definition lock_abs :: "('l, 'a) locks \<Rightarrow> 'a rwspec" where
  "lock_abs x = \<lparr>spec_value = lock_value (rw x), spec_readers = {i. \<exists>k. lock_at x i = LReading k},
     spec_writers = {i. lock_at x i = LWriting}\<rparr>"

section \<open>The registry of threads\<close>

record ThreadIndices =
  mapping :: "nat \<Rightarrow> usize option"
  free_list :: "usize list"
  next_index :: usize

record ThreadRegistration =
  reg_index :: usize
  reg_thread_id :: nat

definition THREAD_INDICES :: ThreadIndices where
  "THREAD_INDICES = \<lparr>mapping = Map.empty, free_list = [], next_index = 0\<rparr>"

text \<open>\<^verbatim>\<open>Vec::pop\<close> and \<^verbatim>\<open>push\<close> work at the end of the list.\<close>

definition REGISTRATION_init :: "nat \<Rightarrow> ThreadIndices \<Rightarrow> ThreadRegistration \<times> ThreadIndices" where
  "REGISTRATION_init thread_id indices =
     (let (index, indices1) = (if free_list indices = []
            then (next_index indices, indices\<lparr>next_index := next_index indices + 1\<rparr>)
            else (last (free_list indices), indices\<lparr>free_list := butlast (free_list indices)\<rparr>))
      in (\<lparr>reg_index = index, reg_thread_id = thread_id\<rparr>,
          indices1\<lparr>mapping := (mapping indices1)(thread_id \<mapsto> index)\<rparr>))"

definition ThreadRegistration_drop :: "ThreadRegistration \<Rightarrow> ThreadIndices \<Rightarrow> ThreadIndices" where
  "ThreadRegistration_drop reg indices =
     indices\<lparr>mapping := (mapping indices)(reg_thread_id reg := None),
             free_list := free_list indices @ [reg_index reg]\<rparr>"

text \<open>\<^verbatim>\<open>try_with\<close> fails once the thread's registration has been destroyed.\<close>

definition thread_index :: "ThreadRegistration option \<Rightarrow> usize" where
  "thread_index reg = (case reg of Some r \<Rightarrow> reg_index r | None \<Rightarrow> 0)"

text \<open>Threads come and go; \<open>peak\<close> is the largest number that were registered at one time.\<close>

record threads =
  indices :: ThreadIndices
  regs :: "nat \<Rightarrow> ThreadRegistration option"
  peak :: nat

definition thr_init :: "threads \<Rightarrow> bool" where
  "thr_init x \<longleftrightarrow> x = \<lparr>indices = THREAD_INDICES, regs = Map.empty, peak = 0\<rparr>"

inductive thr_step :: "threads \<Rightarrow> threads \<Rightarrow> bool" where
  thread_starts: "regs x t = None \<Longrightarrow> REGISTRATION_init t (indices x) = (r, ind) \<Longrightarrow>
     thr_step x \<lparr>indices = ind, regs = (regs x)(t \<mapsto> r),
       peak = max (peak x) (card (dom ((regs x)(t \<mapsto> r))))\<rparr>"
| thread_ends: "regs x t = Some r \<Longrightarrow>
     thr_step x (x\<lparr>indices := ThreadRegistration_drop r (indices x), regs := (regs x)(t := None)\<rparr>)"

text \<open>The registry after \<open>n\<close> indices have been made: each is in use by one thread or free.\<close>

definition indices_ok :: "(nat \<Rightarrow> usize option) \<Rightarrow> usize list \<Rightarrow> nat \<Rightarrow> bool" where
  "indices_ok m fl n \<longleftrightarrow> finite (dom m) \<and> n = length fl + card (dom m) \<and> distinct fl \<and> inj_on m (dom m) \<and>
     set fl \<inter> ran m = {} \<and> set fl \<union> ran m \<subseteq> of_nat ` {..<n}"

definition thr_inv :: "threads \<Rightarrow> bool" where
  "thr_inv x \<longleftrightarrow> finite (dom (regs x)) \<and> mapping (indices x) = map_option reg_index \<circ> regs x \<and>
     (\<forall>t r. regs x t = Some r \<longrightarrow> reg_thread_id r = t) \<and>
     (peak x < 2 ^ 64 \<longrightarrow> (\<exists>n \<le> peak x. next_index (indices x) = of_nat n \<and>
        indices_ok (mapping (indices x)) (free_list (indices x)) n))"

definition threads1 :: threads where
  "threads1 = \<lparr>indices = \<lparr>mapping = [8 \<mapsto> 0, 9 \<mapsto> 1], free_list = [], next_index = 2\<rparr>,
     regs = [8 \<mapsto> \<lparr>reg_index = 0, reg_thread_id = 8\<rparr>, 9 \<mapsto> \<lparr>reg_index = 1, reg_thread_id = 9\<rparr>], peak = Suc 1\<rparr>"

text \<open>The work a thread has left until it is idle again.\<close>

fun work :: "nat \<Rightarrow> lock_pc \<Rightarrow> nat" where
  "work n LIdle = 0"
| "work n (LReading k) = 1"
| "work n (LLocking k) = (n - k) + n + 3"
| "work n LWriting = n + 2"
| "work n (LUnlocking k) = k + 1"

definition total_work :: "nat \<Rightarrow> ('l, 'a) locks \<Rightarrow> nat" where
  "total_work n x = (\<Sum>i | lock_at x i \<noteq> LIdle. work n (lock_at x i))"

definition locks_busy :: "(nat \<times> bool, nat) locks" where
  "locks_busy = \<lparr>rw = \<lparr>shards = [(0, True), (1, False)], lock_value = 5\<rparr>,
     lock_at = (\<lambda>_. LIdle)(0 := LReading 1, 1 := LLocking 1)\<rparr>"

section \<open>Shard indices\<close>

lemma pl_okD:
  assumes "pl_ok P"
  shows "pl_readers P (pl_new P) = 0" "\<not> pl_writer P (pl_new P)"
    "pl_read P l = Some l' \<Longrightarrow> \<not> pl_writer P l \<and> \<not> pl_writer P l' \<and> pl_readers P l' = Suc (pl_readers P l)"
    "pl_write P l = Some l' \<Longrightarrow>
        \<not> pl_writer P l \<and> pl_readers P l = 0 \<and> pl_writer P l' \<and> pl_readers P l' = 0"
    "\<not> pl_writer P l \<Longrightarrow> pl_readers P l = 0 \<Longrightarrow> pl_write P l \<noteq> None \<and> pl_read P l \<noteq> None"
    "pl_readers P l > 0 \<Longrightarrow>
        pl_readers P (pl_unlock_read P l) = pl_readers P l - 1 \<and> pl_writer P (pl_unlock_read P l) = pl_writer P l"
    "pl_writer P l \<Longrightarrow>
        \<not> pl_writer P (pl_force_unlock_write P l) \<and> pl_readers P (pl_force_unlock_write P l) = pl_readers P l"
  using assms unfolding pl_ok_def by blast+

lemma std_plock_ok: "pl_ok std_plock"
  by (auto simp: pl_ok_def std_plock_def split: if_splits)

lemma next_power_of_two_pow: "\<exists>m. next_power_of_two n = 2 ^ m"
proof (induction n rule: next_power_of_two.induct)
  case (1 n)
  show ?case
  proof (cases "n \<le> 1")
    case True
    then show ?thesis by (auto simp: next_power_of_two.simps intro: exI [of _ 0])
  next
    case False
    with 1 obtain m where "next_power_of_two ((n + 1) div 2) = 2 ^ m" by blast
    with False have "next_power_of_two n = 2 ^ Suc m" by (simp add: next_power_of_two.simps [of n])
    then show ?thesis by blast
  qed
qed

lemma next_power_of_two_bounds: "n \<le> next_power_of_two n \<and> (1 \<le> n \<longrightarrow> next_power_of_two n < 2 * n)"
proof (induction n rule: next_power_of_two.induct)
  case (1 n)
  show ?case
  proof (cases "n \<le> 1")
    case True
    then show ?thesis by (auto simp: next_power_of_two.simps)
  next
    case False
    with 1 have IH: "(n + 1) div 2 \<le> next_power_of_two ((n + 1) div 2)"
      "next_power_of_two ((n + 1) div 2) < 2 * ((n + 1) div 2)" by auto
    obtain m where m: "next_power_of_two ((n + 1) div 2) = 2 ^ m" using next_power_of_two_pow by blast
    have eq: "next_power_of_two n = 2 * next_power_of_two ((n + 1) div 2)"
      using False by (simp add: next_power_of_two.simps [of n])
    have "next_power_of_two ((n + 1) div 2) < n"
    proof (cases "even n")
      case True
      with IH(2) show ?thesis by auto
    next
      case False
      then have h: "2 * ((n + 1) div 2) = n + 1" by auto
      then have "2 ^ m \<le> n" using IH(2) m by simp
      moreover have "2 ^ m \<noteq> n"
      proof
        assume "2 ^ m = n"
        with False have "m = 0" by (metis even_power dvd_refl gr0I)
        with \<open>2 ^ m = n\<close> \<open>\<not> n \<le> 1\<close> show False by simp
      qed
      ultimately show ?thesis using m by simp
    qed
    with IH eq show ?thesis by auto
  qed
qed

lemma next_power_of_two_pos [simp]: "next_power_of_two n > 0"
  using next_power_of_two_pow [of n] by auto

lemma shard_index_mod:
  assumes "cpus \<le> 2 ^ 62"
  shows "shard_index idx (next_power_of_two cpus) = unat idx mod next_power_of_two cpus"
proof -
  obtain m where m: "next_power_of_two cpus = 2 ^ m" using next_power_of_two_pow by blast
  have "next_power_of_two cpus < 2 ^ 64"
    using next_power_of_two_bounds [of cpus] assms by (cases "cpus = 0") (auto simp: next_power_of_two.simps)
  then have "m < 64" unfolding m by (simp only: power_strict_increasing_iff one_less_numeral_iff semiring_norm)
  have "idx AND (of_nat (2 ^ m) - 1) = take_bit m idx"
    by (simp add: take_bit_eq_mask mask_eq_exp_minus_1)
  then have "shard_index idx (2 ^ m) = unat (take_bit m idx)" by (simp only: shard_index_def)
  also have "\<dots> = take_bit m (unat idx)" by (rule unsigned_take_bit_eq)
  also have "\<dots> = unat idx mod 2 ^ m" by (rule take_bit_eq_mod)
  finally show ?thesis unfolding m .
qed

text \<open>C27: the lock has as many shards as the smallest power of two that is at least the number of processors,
  so the bitwise and in \<^verbatim>\<open>read\<close> is the thread index modulo the number of shards: \<^verbatim>\<open>read\<close> never indexes out of
  bounds, and it only ever touches the shard of the calling thread.\<close>

theorem read_uses_own_shard:
  assumes "cpus \<le> 2 ^ 62" and "length (shards lk) = length (shards (RwLock_new P cpus v))"
  shows "cpus \<le> length (shards lk) \<and> (1 \<le> cpus \<longrightarrow> length (shards lk) < 2 * cpus) \<and>
    (\<exists>g lk'. RwLock_read P idx lk = (Ret g, lk') \<and>
      (\<forall>k. k \<noteq> unat idx mod length (shards lk) \<longrightarrow> shards lk' ! k = shards lk ! k) \<and>
      (case g of None \<Rightarrow> pl_read P (shards lk ! (unat idx mod length (shards lk))) = None
       | Some gd \<Rightarrow> guard_shard gd = unat idx mod length (shards lk)))"
proof -
  have n: "length (shards lk) = next_power_of_two cpus" using assms(2) by (simp add: RwLock_new_def Let_def)
  have k: "shard_index idx (length (shards lk)) = unat idx mod length (shards lk)"
    unfolding n by (rule shard_index_mod [OF assms(1)])
  have "unat idx mod length (shards lk) < length (shards lk)" unfolding n by simp
  then have "\<exists>g lk'. RwLock_read P idx lk = (Ret g, lk') \<and>
      (\<forall>k. k \<noteq> unat idx mod length (shards lk) \<longrightarrow> shards lk' ! k = shards lk ! k) \<and>
      (case g of None \<Rightarrow> pl_read P (shards lk ! (unat idx mod length (shards lk))) = None
       | Some gd \<Rightarrow> guard_shard gd = unat idx mod length (shards lk))"
    unfolding RwLock_read_def Let_def k by (auto split: option.splits)
  then show ?thesis using next_power_of_two_bounds [of cpus] unfolding n by blast
qed

theorem read_uses_own_shard_witness:
  "\<exists>g lk'. RwLock_read std_plock 13 (RwLock_new std_plock 6 ()) = (Ret g, lk')"
proof -
  have "(6::nat) \<le> 2 ^ 62" by simp
  from read_uses_own_shard [OF this refl, of std_plock "()" 13] show ?thesis by blast
qed
section \<open>Exclusion\<close>

lemma lock_invD:
  assumes "lock_inv P n x"
  shows "length (shards (rw x)) = n" "finite {i. lock_at x i \<noteq> LIdle}" "in_range n (lock_at x i)"
    "k < n \<Longrightarrow> pl_readers P (shards (rw x) ! k) = card {i. lock_at x i = LReading k}"
    "k < n \<Longrightarrow> pl_writer P (shards (rw x) ! k) \<longleftrightarrow> (\<exists>i. owns n k (lock_at x i))"
    "k < n \<Longrightarrow> pl_writer P (shards (rw x) ! k) \<Longrightarrow> pl_readers P (shards (rw x) ! k) = 0"
    "k < n \<Longrightarrow> owns n k (lock_at x i) \<Longrightarrow> owns n k (lock_at x j) \<Longrightarrow> i = j"
  using assms unfolding lock_inv_def by blast+

lemma finite_active: "lock_inv P n x \<Longrightarrow> finite {i. ((lock_at x)(j := p)) i \<noteq> LIdle}"
  by (rule finite_subset [of _ "insert j {i. lock_at x i \<noteq> LIdle}"]) (auto dest: lock_invD(2))

lemma finite_readers: "lock_inv P n x \<Longrightarrow> finite {i. lock_at x i = LReading k}"
  by (rule finite_subset [of _ "{i. lock_at x i \<noteq> LIdle}"]) (auto dest: lock_invD(2))

text \<open>A step of thread \<open>i\<close> that neither starts nor ends a read, and changes no shard or the one shard \<open>k0\<close>.\<close>

lemma lock_inv_writer:
  assumes inv: "lock_inv P n x"
    and i: "\<And>k. lock_at x i \<noteq> LReading k" "\<And>k. p \<noteq> LReading k" "in_range n p"
    and y: "lock_at y = (lock_at x)(i := p)" "length (shards (rw y)) = n"
    and rd: "\<And>k. k < n \<Longrightarrow> pl_readers P (shards (rw y) ! k) = pl_readers P (shards (rw x) ! k)"
    and wr: "\<And>k. k < n \<Longrightarrow> owns n k p \<noteq> owns n k (lock_at x i) \<Longrightarrow>
      pl_writer P (shards (rw y) ! k) = owns n k p \<and>
      (owns n k p \<longrightarrow> \<not> pl_writer P (shards (rw x) ! k) \<and> pl_readers P (shards (rw x) ! k) = 0)"
    and same: "\<And>k. k < n \<Longrightarrow> owns n k p = owns n k (lock_at x i) \<Longrightarrow>
      pl_writer P (shards (rw y) ! k) = pl_writer P (shards (rw x) ! k)"
  shows "lock_inv P n y"
proof -
  note I = lock_invD [OF inv]
  have readers: "{j. lock_at y j = LReading k} = {j. lock_at x j = LReading k}" for k
    using i(1,2) y(1) by (auto split: if_splits)
  have own: "owns n k (lock_at y j) = (if j = i then owns n k p else owns n k (lock_at x j))" for k j
    using y(1) by simp
  have excl: "owns n k (lock_at y j) \<Longrightarrow> owns n k (lock_at y j') \<Longrightarrow> j = j'" if "k < n" for k j j'
  proof (cases "owns n k p = owns n k (lock_at x i)")
    case True
    then show "owns n k (lock_at y j) \<Longrightarrow> owns n k (lock_at y j') \<Longrightarrow> j = j'"
      using I(7) [OF that] unfolding own by (metis (full_types))
  next
    case False
    then have "owns n k p \<Longrightarrow> \<not> owns n k (lock_at x j'')" for j''
      using wr [OF that False] I(5) [OF that] by blast
    then show "owns n k (lock_at y j) \<Longrightarrow> owns n k (lock_at y j') \<Longrightarrow> j = j'"
      using I(7) [OF that] unfolding own by (metis (full_types))
  qed
  have w: "pl_writer P (shards (rw y) ! k) \<longleftrightarrow> (\<exists>j. owns n k (lock_at y j))" if "k < n" for k
  proof (cases "owns n k p = owns n k (lock_at x i)")
    case True
    then show ?thesis using same [OF that] I(5) [OF that] unfolding own by (metis (full_types))
  next
    case False
    then show ?thesis using wr [OF that] I(7) [OF that] unfolding own by (metis (full_types))
  qed
  have r0: "pl_writer P (shards (rw y) ! k) \<Longrightarrow> pl_readers P (shards (rw y) ! k) = 0" if "k < n" for k
    using rd [OF that] wr [OF that] same [OF that] I(6) [OF that] by metis
  have fin: "finite {j. lock_at y j \<noteq> LIdle}" using finite_active [OF inv, of i p] by (simp only: y(1))
  have rng: "in_range n (lock_at y j)" for j using I(3) i(3) by (simp add: y(1))
  have cnt: "pl_readers P (shards (rw y) ! k) = card {j. lock_at y j = LReading k}" if "k < n" for k
    using rd [OF that] I(4) [OF that] readers by simp
  show ?thesis unfolding lock_inv_def using y(2) fin rng cnt w r0 excl by blast
qed

lemma lock_inv_reader:
  assumes inv: "lock_inv P n x" and i: "\<And>k. \<not> owns n k (lock_at x i)" "\<And>k. \<not> owns n k p" "in_range n p"
    and y: "lock_at y = (lock_at x)(i := p)" "length (shards (rw y)) = n"
    and rd: "\<And>k. k < n \<Longrightarrow> pl_readers P (shards (rw y) ! k) = card {j. lock_at y j = LReading k}"
    and wr: "\<And>k. k < n \<Longrightarrow> pl_writer P (shards (rw y) ! k) = pl_writer P (shards (rw x) ! k)"
    and ex: "\<And>k. k < n \<Longrightarrow> pl_writer P (shards (rw y) ! k) \<Longrightarrow> pl_readers P (shards (rw y) ! k) = 0"
  shows "lock_inv P n y"
proof -
  note I = lock_invD [OF inv]
  have own: "owns n k (lock_at y j) = owns n k (lock_at x j)" for k j using y(1) i(1,2) by simp
  have fin: "finite {j. lock_at y j \<noteq> LIdle}" using finite_active [OF inv, of i p] by (simp only: y(1))
  have rng: "in_range n (lock_at y j)" for j using I(3) i(3) by (simp add: y(1))
  show ?thesis unfolding lock_inv_def own using y(2) fin rng rd wr ex I(5,7) by blast
qed

lemma reading_more:
  assumes "lock_inv P n x" and "\<And>k. lock_at x i \<noteq> LReading k"
  shows "card {j. ((lock_at x)(i := LReading k)) j = LReading k'} =
    card {j. lock_at x j = LReading k'} + (if k' = k then 1 else 0)"
proof -
  have "{j. ((lock_at x)(i := LReading k)) j = LReading k'} =
      (if k' = k then insert i {j. lock_at x j = LReading k'} else {j. lock_at x j = LReading k'})"
    using assms(2) by (auto split: if_splits)
  then show ?thesis using assms(2) finite_readers [OF assms(1), of k'] by auto
qed

lemma reading_less:
  assumes "lock_inv P n x" and "lock_at x i = LReading k"
  shows "card {j. ((lock_at x)(i := LIdle)) j = LReading k'} =
    card {j. lock_at x j = LReading k'} - (if k' = k then 1 else 0)"
    and "card {j. lock_at x j = LReading k} > 0"
proof -
  have "{j. ((lock_at x)(i := LIdle)) j = LReading k'} =
      (if k' = k then {j. lock_at x j = LReading k'} - {i} else {j. lock_at x j = LReading k'})"
    using assms(2) by (auto split: if_splits)
  then show "card {j. ((lock_at x)(i := LIdle)) j = LReading k'} =
    card {j. lock_at x j = LReading k'} - (if k' = k then 1 else 0)"
    using assms(2) finite_readers [OF assms(1), of k'] by auto
  show "card {j. lock_at x j = LReading k} > 0"
    using assms(2) finite_readers [OF assms(1), of k] by (auto simp: card_gt_0_iff)
qed

lemma RwLock_read_SomeE:
  assumes "RwLock_read P idx lk = (Ret (Some g), lk')"
  obtains l where "guard_shard g < length (shards lk)" "pl_read P (shards lk ! guard_shard g) = Some l"
    "lk' = lk\<lparr>shards := (shards lk)[guard_shard g := l]\<rparr>"
  using assms by (auto simp: RwLock_read_def Let_def split: if_splits option.splits)

lemma lock_inv_lock_read:
  assumes "pl_ok P" and "lock_inv P n x" and lock_read: "y = x\<lparr>rw := lk, lock_at := (lock_at x)(i := LReading (guard_shard g))\<rparr>"
    "lock_at x i = LIdle"
    "RwLock_read P (ti i) (rw x) = (Ret (Some g), lk)"
  shows "lock_inv P n y"
proof -
  note I = lock_invD [OF assms(2)]
  from lock_read(3) obtain l where g: "guard_shard g < n" "pl_read P (shards (rw x) ! guard_shard g) = Some l"
    "lk = (rw x)\<lparr>shards := (shards (rw x))[guard_shard g := l]\<rparr>" by (rule RwLock_read_SomeE) (simp add: I(1))
  note L = pl_okD(3) [OF assms(1) g(2)]
  show ?thesis
    by (rule lock_inv_reader [OF assms(2), of i "LReading (guard_shard g)"])
      (use lock_read(1,2) g L I(1,4,6) reading_more [OF assms(2), of i "guard_shard g"] in
        \<open>auto simp: nth_list_update\<close>)
qed

lemma lock_inv_unlock_read:
  assumes "pl_ok P" and "lock_inv P n x" and unlock_read: "y = x\<lparr>rw := RwLockReadGuard_drop P \<lparr>guard_shard = k\<rparr> (rw x), lock_at := (lock_at x)(i := LIdle)\<rparr>"
    "lock_at x i = LReading k"
  shows "lock_inv P n y"
proof -
  note I = lock_invD [OF assms(2)]
  have k: "k < n" using I(3) [of i] unlock_read(2) by simp
  have r: "pl_readers P (shards (rw x) ! k) > 0" using reading_less(2) [OF assms(2) unlock_read(2)] I(4) [OF k] by simp
  note L = pl_okD(6) [OF assms(1) r]
  show ?thesis
    by (rule lock_inv_reader [OF assms(2), of i LIdle])
      (use unlock_read(1,2) k r L I(1,4,6) reading_less(1) [OF assms(2) unlock_read(2)] in
        \<open>auto simp: RwLockReadGuard_drop_def nth_list_update\<close>)
qed

lemma lock_inv_lock_shard:
  assumes "pl_ok P" and "lock_inv P n x" and lock_shard: "y = x\<lparr>rw := (rw x)\<lparr>shards := (shards (rw x))[k := l]\<rparr>, lock_at := (lock_at x)(i := LLocking (Suc k))\<rparr>"
    "lock_at x i = LLocking k"
    "k < length (shards (rw x))"
    "pl_write P (shards (rw x) ! k) = Some l"
  shows "lock_inv P n y"
proof -
  note I = lock_invD [OF assms(2)] and L = pl_okD(4) [OF assms(1) lock_shard(4)]
  show ?thesis
    by (rule lock_inv_writer [OF assms(2), of i "LLocking (Suc k)"])
      (use lock_shard(1-3) I(1) L in \<open>auto simp: nth_list_update less_Suc_eq\<close>)
qed

lemma lock_inv_unlock_shard:
  assumes "pl_ok P" and "lock_inv P n x" and unlock_shard: "y = x\<lparr>rw := (rw x)\<lparr>shards := (shards (rw x))[k := pl_force_unlock_write P (shards (rw x) ! k)]\<rparr>, lock_at := (lock_at x)(i := LUnlocking k)\<rparr>"
    "lock_at x i = LUnlocking (Suc k)"
  shows "lock_inv P n y"
proof -
  note I = lock_invD [OF assms(2)]
  have k: "k < n" using I(3) [of i] unlock_shard(2) by simp
  have "owns n k (lock_at x i)" using unlock_shard(2) by simp
  then have "pl_writer P (shards (rw x) ! k)" using I(5) [OF k] by blast
  note L = pl_okD(7) [OF assms(1) this]
  show ?thesis
    by (rule lock_inv_writer [OF assms(2), of i "LUnlocking k"])
      (use unlock_shard(1,2) k I(1) L in \<open>auto simp: nth_list_update less_Suc_eq\<close>)
qed

lemma lock_step_inv:
  assumes "lock_step P ti x y" and "pl_ok P" and "lock_inv P n x"
  shows "lock_inv P n y"
  using assms(1)
proof cases
  case (start_write i)
  show ?thesis
    by (rule lock_inv_writer [OF assms(3), of i "LLocking 0"])
      (use start_write lock_invD(1) [OF assms(3)] in auto)
next
  case (locked_all i k)
  note I = lock_invD [OF assms(3)]
  show ?thesis
    by (rule lock_inv_writer [OF assms(3), of i LWriting]) (use locked_all I(1) in auto)
next
  case (modify i f)
  then have "shards (rw y) = shards (rw x)" "lock_at y = lock_at x"
    by (simp_all add: RwLockWriteGuard_deref_mut_def)
  note same = this
  show ?thesis unfolding lock_inv_def same using assms(3) [unfolded lock_inv_def] .
next
  case (start_unlock i)
  note I = lock_invD [OF assms(3)]
  show ?thesis
    by (rule lock_inv_writer [OF assms(3), of i "LUnlocking n"]) (use start_unlock I(1) in auto)
next
  case (unlocked_all i)
  note I = lock_invD [OF assms(3)]
  show ?thesis
    by (rule lock_inv_writer [OF assms(3), of i LIdle]) (use unlocked_all I(1) in auto)
next
  case lock_read
  then show ?thesis by (rule lock_inv_lock_read [OF assms(2,3)])
next
  case unlock_read
  then show ?thesis by (rule lock_inv_unlock_read [OF assms(2,3)])
next
  case lock_shard
  then show ?thesis by (rule lock_inv_lock_shard [OF assms(2,3)])
next
  case unlock_shard
  then show ?thesis by (rule lock_inv_unlock_shard [OF assms(2,3)])
qed

lemma lock_init_inv:
  assumes "pl_ok P" and "lock_init P cpus x"
  shows "lock_inv P (next_power_of_two cpus) x"
  using assms pl_okD(1,2) [OF assms(1)] by (auto simp: lock_init_def lock_inv_def RwLock_new_def Let_def)

interpretation rwlock: inductive_invariant
  "\<lambda>x. pl_ok P \<and> lock_init P cpus x" "lock_step P ti" "\<lambda>x. pl_ok P \<and> lock_inv P (next_power_of_two cpus) x"
  for P cpus ti
  by unfold_locales (auto intro: lock_init_inv lock_step_inv)

section \<open>Progress\<close>

lemma total_work_less:
  assumes "lock_inv P n x" and "lock_at x i \<noteq> LIdle" and "lock_at y = (lock_at x)(i := p)"
    and "work n p < work n (lock_at x i)"
  shows "total_work n y < total_work n x"
proof -
  let ?A = "{j. lock_at x j \<noteq> LIdle}"
  have fin: "finite ?A" by (rule lock_invD(2) [OF assms(1)])
  have "total_work n y = (\<Sum>j \<in> ?A. work n (lock_at y j))"
    unfolding total_work_def using assms(2,3) fin
    by (intro sum.mono_neutral_left) (auto split: if_splits)
  also have "\<dots> = work n p + (\<Sum>j \<in> ?A - {i}. work n (lock_at x j))"
    using assms(2,3) by (subst sum.remove [OF fin, of i]) (auto intro!: sum.cong)
  also have "\<dots> < work n (lock_at x i) + (\<Sum>j \<in> ?A - {i}. work n (lock_at x j))" using assms(4) by simp
  also have "\<dots> = total_work n x"
    unfolding total_work_def using assms(2) by (subst sum.remove [OF fin, of i]) auto
  finally show ?thesis .
qed

text \<open>The writer that has locked the most shards is never blocked by another writer.\<close>

lemma front_writer_moves:
  assumes "pl_ok P" and "lock_inv P n x" and "lock_at x i = LLocking k"
    and only: "\<And>j. lock_at x j = LIdle \<or> (\<exists>k'. lock_at x j = LLocking k' \<and> k' \<le> k)"
  shows "\<exists>y p. lock_step P ti x y \<and> lock_at y = (lock_at x)(i := p) \<and> work n p < work n (lock_at x i)"
proof (cases "k = n")
  case True
  with locked_all [OF assms(3), of P ti] lock_invD(1) [OF assms(2)] assms(3) show ?thesis by force
next
  case False
  note I = lock_invD [OF assms(2)]
  have k: "k < n" using I(3) [of i] assms(3) False by simp
  have "\<not> owns n k (lock_at x j)" for j using only [of j] by auto
  then have "\<not> pl_writer P (shards (rw x) ! k)" using I(5) [OF k] by blast
  moreover have "lock_at x j \<noteq> LReading k" for j using only [of j] by auto
  then have "{j. lock_at x j = LReading k} = {}" by blast
  then have "pl_readers P (shards (rw x) ! k) = 0" using I(4) [OF k] by simp
  ultimately obtain l where "pl_write P (shards (rw x) ! k) = Some l" using pl_okD(5) [OF assms(1)] by blast
  from lock_shard [OF assms(3) _ this] k I(1) assms(3) show ?thesis by force
qed

lemma some_thread_moves:
  assumes "pl_ok P" and "lock_inv P n x" and "lock_at x i \<noteq> LIdle"
  shows "\<exists>y j p. lock_step P ti x y \<and> lock_at x j \<noteq> LIdle \<and> lock_at y = (lock_at x)(j := p) \<and>
    work n p < work n (lock_at x j)"
proof (cases "\<exists>j. lock_at x j \<noteq> LIdle \<and> (\<forall>k. lock_at x j \<noteq> LLocking k)")
  case True
  note I = lock_invD(1) [OF assms(2)]
  from True obtain j where j: "lock_at x j \<noteq> LIdle" "\<And>k. lock_at x j \<noteq> LLocking k" by blast
  show ?thesis
  proof (cases "lock_at x j")
    case (LReading k)
    with unlock_read [OF LReading, of P ti] show ?thesis by force
  next
    case LWriting
    with start_unlock [OF LWriting, of P ti] I show ?thesis by force
  next
    case (LUnlocking k)
    show ?thesis
    proof (cases k)
      case 0
      with unlocked_all [of x j P ti] LUnlocking show ?thesis by force
    next
      case (Suc m)
      with unlock_shard [of x j m P ti] LUnlocking show ?thesis by force
    qed
  qed (use j in auto)
next
  case all_locking: False
  let ?K = "{k. \<exists>j. lock_at x j = LLocking k}"
  have "k \<le> n" if "lock_at x j = LLocking k" for j k using that lock_invD(3) [OF assms(2), of j] by simp
  then have "?K \<subseteq> {..n}" by blast
  then have fin: "finite ?K" by (rule finite_subset) simp
  obtain k0 where "k0 \<in> ?K" using all_locking assms(3) by blast
  then have "Max ?K \<in> ?K" using fin Max_in by blast
  then obtain j where j: "lock_at x j = LLocking (Max ?K)" by blast
  have "lock_at x j' = LIdle \<or> (\<exists>k'. lock_at x j' = LLocking k' \<and> k' \<le> Max ?K)" for j'
  proof (cases "lock_at x j' = LIdle")
    case False
    then obtain k' where k': "lock_at x j' = LLocking k'" using all_locking by metis
    then have "k' \<le> Max ?K" by (intro Max_ge [OF fin]) blast
    with k' show ?thesis by blast
  qed simp
  moreover have "lock_at x j \<noteq> LIdle" using j by simp
  ultimately show ?thesis using front_writer_moves [where ti = ti, OF assms(1,2) j] by blast
qed

lemma drains:
  assumes "pl_ok P" and "lock_inv P n x"
  shows "\<exists>y. (lock_step P ti)\<^sup>*\<^sup>* x y \<and> (\<forall>i. lock_at y i = LIdle)"
  using assms(2)
proof (induction "total_work n x" arbitrary: x rule: less_induct)
  case less
  show ?case
  proof (cases "\<forall>i. lock_at x i = LIdle")
    case True
    then show ?thesis by blast
  next
    case False
    then obtain i where "lock_at x i \<noteq> LIdle" by blast
    from some_thread_moves [OF assms(1) less.prems this, of ti] obtain y j p where
      y: "lock_step P ti x y" "lock_at x j \<noteq> LIdle" "lock_at y = (lock_at x)(j := p)"
      "work n p < work n (lock_at x j)" by blast
    from less.hyps [OF total_work_less [OF less.prems y(2-4)] lock_step_inv [OF y(1) assms(1) less.prems]]
    obtain z where "(lock_step P ti)\<^sup>*\<^sup>* y z" "\<forall>i. lock_at z i = LIdle" by blast
    with y(1) show ?thesis by (meson converse_rtranclp_into_rtranclp)
  qed
qed

section \<open>Properties of the lock\<close>

lemma writer_alone:
  assumes I: "lock_inv P n x" and w: "lock_at x i = LWriting"
  shows "lock_at x j = LWriting \<Longrightarrow> n > 0 \<Longrightarrow> j = i" and "lock_at x j \<noteq> LReading k"
proof -
  show "j = i" if "lock_at x j = LWriting" "n > 0" using lock_invD(7) [OF I, of 0 i j] that w by auto
  show "lock_at x j \<noteq> LReading k"
  proof
    assume r: "lock_at x j = LReading k"
    then have k: "k < n" using lock_invD(3) [OF I, of j] by simp
    have "owns n k (lock_at x i)" using w by simp
    then have "pl_readers P (shards (rw x) ! k) = 0" using lock_invD(5,6) [OF I k] by blast
    then show False using lock_invD(4) [OF I k] reading_less(2) [OF I r] by simp
  qed
qed

text \<open>C29: the lock cannot deadlock, although writers take many shards one after the other: from every reachable
  state there is a run in which every thread gets what it waits for, releases it and becomes idle.\<close>

theorem rwlock_drains:
  assumes "reach (\<lambda>x. pl_ok P \<and> lock_init P cpus x) (lock_step P ti) x"
  shows "\<exists>y. (lock_step P ti)\<^sup>*\<^sup>* x y \<and> (\<forall>i. lock_at y i = LIdle)"
  using rwlock.reach_inv [OF assms] drains by blast

lemma locks_busy_reach:
  "reach (\<lambda>x. pl_ok std_plock \<and> lock_init std_plock 2 x) (lock_step std_plock (\<lambda>_. 3)) locks_busy"
proof -
  let ?S = "lock_step std_plock (\<lambda>_. 3)"
  let ?a = "\<lparr>rw = \<lparr>shards = [(0, False), (0, False)], lock_value = 5::nat\<rparr>, lock_at = (\<lambda>_. LIdle)\<rparr>"
  let ?b = "\<lparr>rw = \<lparr>shards = [(0, False), (1, False)], lock_value = 5::nat\<rparr>, lock_at = (\<lambda>_. LIdle)(0 := LReading 1)\<rparr>"
  let ?c = "?b\<lparr>lock_at := (\<lambda>_. LIdle)(0 := LReading 1, 1 := LLocking 0)\<rparr>"
  have "next_power_of_two 2 = 2" by (simp add: next_power_of_two.simps)
  then have "lock_init std_plock 2 ?a"
    by (auto simp: lock_init_def RwLock_new_def std_plock_def upt_rec numeral_2_eq_2)
  then have "reach (\<lambda>x. pl_ok std_plock \<and> lock_init std_plock 2 x) ?S ?a"
    by (intro reach_init) (simp add: std_plock_ok)
  moreover have "RwLock_read std_plock 3 (rw ?a) = (Ret (Some \<lparr>guard_shard = 1\<rparr>), rw ?b)"
    by (simp add: RwLock_read_def shard_index_def std_plock_def Let_def)
  from lock_read [of ?a 0 std_plock "\<lambda>_. 3", OF _ this] have "?S ?a ?b" by simp
  moreover have "?S ?b ?c" using start_write [of ?b 1 std_plock "\<lambda>_. 3"] by simp
  moreover have "?S ?c locks_busy"
    using lock_shard [of ?c 1 0 std_plock "(0, True)" "\<lambda>_. 3"] by (simp add: locks_busy_def std_plock_def)
  ultimately show ?thesis by (meson reach_step)
qed

theorem rwlock_drains_witness:
  "\<exists>y. (lock_step std_plock (\<lambda>_. 3))\<^sup>*\<^sup>* locks_busy y \<and> (\<forall>i. lock_at y i = LIdle)"
  by (rule rwlock_drains [OF locks_busy_reach])

section \<open>Refinement\<close>

lemma abs_writers:
  assumes "lock_inv P n x" and "n > 0" and "i \<in> spec_writers (lock_abs x)"
  shows "spec_writers (lock_abs x) = {i}" and "spec_readers (lock_abs x) = {}"
  using assms writer_alone [OF assms(1)] by (auto simp: lock_abs_def)

lemma lock_refines:
  assumes "pl_ok P" and "lock_inv P n x" and "n > 0" and "lock_step P ti x y"
  shows "spec_step\<^sup>=\<^sup>= (lock_abs x) (lock_abs y)"
proof -
  have I': "lock_inv P n y" by (rule lock_step_inv [OF assms(4,1,2)])
  note w = abs_writers [OF assms(2,3)] and w' = abs_writers [OF I' assms(3)]
  show ?thesis
    using assms(4)
  proof cases
    case (lock_read i g lk)
    have val: "lock_value lk = lock_value (rw x)" using lock_read(3) by (auto elim!: RwLock_read_SomeE)
    have new: "i \<notin> spec_readers (lock_abs x)" using lock_read(2) by (simp add: lock_abs_def)
    have y: "lock_abs y = (lock_abs x)\<lparr>spec_readers := insert i (spec_readers (lock_abs x))\<rparr>"
      using lock_read(1,2) val by (auto simp: lock_abs_def)
    then have "spec_writers (lock_abs x) = {}" using w'(2) by fastforce
    from acquire_read [OF this new] show ?thesis by (simp add: y)
  next
    case (unlock_read i k)
    then have "lock_abs y = (lock_abs x)\<lparr>spec_readers := spec_readers (lock_abs x) - {i}\<rparr>"
      and "i \<in> spec_readers (lock_abs x)" by (auto simp: lock_abs_def RwLockReadGuard_drop_def)
    with release_read [of i "lock_abs x"] show ?thesis by simp
  next
    case (locked_all i k)
    then have y: "lock_abs y = (lock_abs x)\<lparr>spec_writers := insert i (spec_writers (lock_abs x))\<rparr>"
      and new: "i \<notin> spec_writers (lock_abs x)" by (auto simp: lock_abs_def)
    from w' [of i] y new have "spec_writers (lock_abs x) = {}" "spec_readers (lock_abs x) = {}" by auto
    with acquire_write [of "lock_abs x" i] show ?thesis by (simp add: y)
  next
    case (modify i f)
    then have "lock_abs y = (lock_abs x)\<lparr>spec_value := f (spec_value (lock_abs x))\<rparr>"
      and "i \<in> spec_writers (lock_abs x)" by (auto simp: lock_abs_def RwLockWriteGuard_deref_mut_def)
    with write_value [OF w(1), of i] show ?thesis by simp
  next
    case (start_unlock i)
    then have y: "lock_abs y = (lock_abs x)\<lparr>spec_writers := spec_writers (lock_abs x) - {i}\<rparr>"
      and i: "i \<in> spec_writers (lock_abs x)" by (auto simp: lock_abs_def)
    from release_write [OF w(1) [OF i]] w(1) [OF i] show ?thesis by (simp add: y)
  qed (auto simp: lock_abs_def)
qed

interpretation lock_refinement: simulation
  "\<lambda>x. pl_ok P \<and> lock_init P cpus x" "lock_step P ti" "\<lambda>x. pl_ok P \<and> lock_inv P (next_power_of_two cpus) x"
  spec_init spec_step lock_abs for P cpus ti
proof unfold_locales
  fix x y :: "('a, 'b) locks"
  show "spec_init (lock_abs x)" if "pl_ok P \<and> lock_init P cpus x"
    using that by (auto simp: spec_init_def lock_abs_def lock_init_def)
  show "spec_step\<^sup>=\<^sup>= (lock_abs x) (lock_abs y)"
    if "pl_ok P \<and> lock_inv P (next_power_of_two cpus) x" "lock_step P ti x y"
    using that lock_refines next_power_of_two_pos by blast
qed

text \<open>In the specification itself a writer is alone, and only a writer changes the value.\<close>

inductive_cases spec_stepE: "spec_step a b"

lemma spec_value_changesE:
  assumes "spec_step a b" and "spec_value b \<noteq> spec_value a"
  obtains i where "spec_writers a = {i}"
  using assms by (auto elim!: spec_stepE)

interpretation rw_spec: inductive_invariant spec_init spec_step spec_inv
  by unfold_locales (auto simp: spec_init_def spec_inv_def elim!: spec_stepE)

text \<open>C39: the sharded lock implements an atomic reader-writer lock: whatever the threads do, the view of them in which
  a guard is held from the last shard locked to the first one unlocked is a behaviour of the specification, in which a
  reader enters only without a writer and a writer only alone. Locking and unlocking single shards is invisible. So a
  write guard excludes every other guard, and the value changes only while somebody holds one.\<close>

theorem rwlock_refines_spec:
  assumes "reach (\<lambda>x. pl_ok P \<and> lock_init P cpus x) (lock_step P ti) x"
  shows "reach spec_init spec_step (lock_abs x) \<and> spec_inv (lock_abs x) \<and>
    (\<forall>y. lock_step P ti x y \<longrightarrow>
      (spec_step (lock_abs x) (lock_abs y) \<or> lock_abs x = lock_abs y) \<and>
      (lock_value (rw y) \<noteq> lock_value (rw x) \<longrightarrow> (\<exists>i. lock_at x i = LWriting) \<and> (\<forall>j k. lock_at x j \<noteq> LReading k)))"
proof -
  note sim = lock_refinement.reach_sim [OF assms]
  have inv: "spec_inv (lock_abs x)" by (rule rw_spec.reach_inv [OF sim])
  have step: "spec_step (lock_abs x) (lock_abs y) \<or> lock_abs x = lock_abs y" if "lock_step P ti x y" for y
    using lock_refinement.reach_step_sim [OF assms that] by auto
  have "(\<exists>i. lock_at x i = LWriting) \<and> (\<forall>j k. lock_at x j \<noteq> LReading k)"
    if y: "lock_step P ti x y" "lock_value (rw y) \<noteq> lock_value (rw x)" for y
  proof -
    have new: "spec_value (lock_abs y) \<noteq> spec_value (lock_abs x)" using y(2) by (simp add: lock_abs_def)
    then have "spec_step (lock_abs x) (lock_abs y)" using step [OF y(1)] by auto
    then obtain i where w: "spec_writers (lock_abs x) = {i}" using new by (rule spec_value_changesE)
    then have "spec_readers (lock_abs x) = {}" using inv by (simp add: spec_inv_def)
    with w show ?thesis by (auto simp: lock_abs_def)
  qed
  with sim inv step show ?thesis by blast
qed

theorem rwlock_refines_spec_witness: "reach spec_init spec_step (lock_abs locks_busy)"
  using rwlock_refines_spec [OF locks_busy_reach] by blast

section \<open>Thread indices\<close>

lemma of_nat_usize_new:
  assumes "n < 2 ^ 64"
  shows "(of_nat n :: usize) \<notin> of_nat ` {..<n}"
proof
  assume "(of_nat n :: usize) \<in> of_nat ` {..<n}"
  then obtain m where "m < n" "(of_nat n :: usize) = of_nat m" by auto
  moreover have "unat (of_nat k :: usize) = k" if "k < 2 ^ 64" for k
    using that by (simp add: unat_of_nat take_bit_nat_eq_self)
  ultimately show False using assms by (metis less_trans nat_neq_iff)
qed

lemma indices_ok_new:
  assumes "indices_ok m [] n" and "m t = None" and "n < 2 ^ 64"
  shows "indices_ok (m(t \<mapsto> of_nat n)) [] (Suc n)"
proof -
  have m: "finite (dom m)" "n = card (dom m)" "inj_on m (dom m)" "ran m \<subseteq> of_nat ` {..<n}"
    using assms(1) by (auto simp: indices_ok_def)
  have new: "of_nat n \<notin> ran m" using m(4) of_nat_usize_new [OF assms(3)] by blast
  have "t \<notin> dom m" using assms(2) by auto
  then have "card (dom (m(t \<mapsto> of_nat n))) = Suc n" using m(1,2) by simp
  moreover have "inj_on (m(t \<mapsto> of_nat n)) (dom (m(t \<mapsto> of_nat n)))"
    using m(3) new by (auto simp: inj_on_def ran_def)
  moreover have "ran (m(t \<mapsto> of_nat n)) \<subseteq> of_nat ` {..<Suc n}" using m(4) assms(2) by (auto simp: lessThan_Suc)
  ultimately show ?thesis using m(1) by (simp add: indices_ok_def)
qed

lemma indices_ok_pop:
  assumes "indices_ok m (fl @ [i]) n" and "m t = None"
  shows "indices_ok (m(t \<mapsto> i)) fl n"
proof -
  have m: "finite (dom m)" "n = Suc (length fl + card (dom m))" "distinct fl" "i \<notin> set fl" "inj_on m (dom m)"
    "i \<notin> ran m" "set fl \<inter> ran m = {}" "insert i (set fl \<union> ran m) \<subseteq> of_nat ` {..<n}"
    using assms(1) by (auto simp: indices_ok_def)
  have "t \<notin> dom m" using assms(2) by auto
  then have "card (dom (m(t \<mapsto> i))) = Suc (card (dom m))" using m(1) by simp
  moreover have "inj_on (m(t \<mapsto> i)) (dom (m(t \<mapsto> i)))"
    using m(5,6) by (auto simp: inj_on_def ran_def)
  ultimately show ?thesis using m assms(2) by (simp add: indices_ok_def)
qed

lemma indices_ok_push:
  assumes "indices_ok m fl n" and "m t = Some i"
  shows "indices_ok (m(t := None)) (fl @ [i]) n"
proof -
  have m: "finite (dom m)" "n = length fl + card (dom m)" "distinct fl" "inj_on m (dom m)"
    "set fl \<inter> ran m = {}" "set fl \<union> ran m \<subseteq> of_nat ` {..<n}"
    using assms(1) by (auto simp: indices_ok_def)
  have t: "t \<in> dom m" "i \<in> ran m" using assms(2) by (auto intro: ranI)
  have "ran (m(t := None)) \<subseteq> ran m - {i}"
    using m(4) assms(2) by (auto simp: ran_def inj_on_def split: if_splits) (metis domI)
  moreover have "card (dom (m(t := None))) = card (dom m) - 1" "card (dom m) > 0"
    using m(1) t(1) by (auto simp: card_gt_0_iff)
  moreover have "inj_on (m(t := None)) (dom (m(t := None)))" using m(4) by (auto simp: inj_on_def)
  ultimately show ?thesis using m t by (auto simp: indices_ok_def)
qed

lemma thr_init_inv: "thr_init x \<Longrightarrow> thr_inv x"
  by (auto simp: thr_init_def thr_inv_def THREAD_INDICES_def indices_ok_def)

lemma thr_inv_start:
  assumes "thr_inv x" and "regs x t = None" and "REGISTRATION_init t (indices x) = (r, ind)"
  shows "thr_inv \<lparr>indices = ind, regs = (regs x)(t \<mapsto> r), peak = max (peak x) (card (dom ((regs x)(t \<mapsto> r))))\<rparr>"
    (is "thr_inv ?y")
proof -
  have I: "finite (dom (regs x))" "mapping (indices x) = map_option reg_index \<circ> regs x"
    "\<And>u q. regs x u = Some q \<Longrightarrow> reg_thread_id q = u" using assms(1) by (auto simp: thr_inv_def)
  let ?i = "reg_index r"
  have ind: "mapping ind = (mapping (indices x))(t \<mapsto> ?i)" "reg_thread_id r = t"
    using assms(3) by (auto simp: REGISTRATION_init_def split: if_splits)
  have dom: "dom (mapping (indices x)) = dom (regs x)" "mapping (indices x) t = None"
    using I(2) assms(2) by (auto simp: dom_def)
  have "\<exists>n \<le> peak ?y. next_index ind = of_nat n \<and> indices_ok (mapping ind) (free_list ind) n"
    if small: "peak ?y < 2 ^ 64"
  proof -
    have "peak x < 2 ^ 64" using small by simp
    then obtain n where n: "n \<le> peak x" "next_index (indices x) = of_nat n"
      "indices_ok (mapping (indices x)) (free_list (indices x)) n"
      using assms(1) by (auto simp: thr_inv_def)
    show ?thesis
    proof (cases "free_list (indices x) = []")
      case True
      then have r: "?i = of_nat n" "free_list ind = []" "next_index ind = of_nat (Suc n)"
        using assms(3) n(2) by (auto simp: REGISTRATION_init_def)
      have "indices_ok (mapping ind) [] (Suc n)"
        unfolding ind(1) r(1) using n(1,3) \<open>peak x < 2 ^ 64\<close> True dom(2) by (intro indices_ok_new) auto
      moreover have "Suc n = card (dom (regs ?y))"
        using n(3) True dom(1) I(1) assms(2) by (simp add: indices_ok_def domIff)
      then have "Suc n \<le> peak ?y" by simp
      ultimately show ?thesis using r(2,3) by auto
    next
      case False
      then obtain fl j where fl: "free_list (indices x) = fl @ [j]" by (metis rev_exhaust)
      then have r: "?i = j" "free_list ind = fl" "next_index ind = of_nat n"
        using assms(3) n(2) by (auto simp: REGISTRATION_init_def)
      have "indices_ok (mapping ind) fl n"
        unfolding ind(1) r(1) using n(3) fl dom(2) by (intro indices_ok_pop) auto
      moreover have "n \<le> peak ?y" using n(1) by simp
      ultimately show ?thesis using r(2,3) by blast
    qed
  qed
  moreover have "mapping ind = map_option reg_index \<circ> regs ?y" using I(2) by (auto simp: ind(1) fun_eq_iff)
  moreover have "reg_thread_id q = u" if "regs ?y u = Some q" for u q
    using that I(3) ind(2) by (cases "u = t") auto
  ultimately show ?thesis using I(1) by (simp add: thr_inv_def)
qed

lemma thr_step_inv: "thr_step x y \<Longrightarrow> thr_inv x \<Longrightarrow> thr_inv y"
proof (induction rule: thr_step.induct)
  case (thread_starts x t r ind)
  then show ?case by (intro thr_inv_start)
next
  case (thread_ends x t r)
  then have I: "finite (dom (regs x))" "mapping (indices x) = map_option reg_index \<circ> regs x" "reg_thread_id r = t"
    by (auto simp: thr_inv_def)
  have m: "mapping (indices x) t = Some (reg_index r)" using I(2) thread_ends(1) by simp
  have "\<exists>n \<le> peak x. next_index (indices x) = of_nat n \<and>
      indices_ok ((mapping (indices x))(t := None)) (free_list (indices x) @ [reg_index r]) n"
    if "peak x < 2 ^ 64"
    using that thread_ends(2) indices_ok_push [of "mapping (indices x)" _ _ t, OF _ m]
    unfolding thr_inv_def by blast
  moreover have "(mapping (indices x))(t := None) = map_option reg_index \<circ> (regs x)(t := None)"
    using I(2) by (auto simp: fun_eq_iff)
  moreover have "reg_thread_id q = u" if "((regs x)(t := None)) u = Some q" for u q
    using that thread_ends(2) by (auto simp: thr_inv_def split: if_splits)
  ultimately show ?case using I by (simp add: thr_inv_def ThreadRegistration_drop_def)
qed

interpretation registry: inductive_invariant thr_init thr_step thr_inv
  by unfold_locales (auto intro: thr_init_inv thr_step_inv)

text \<open>C30: thread indices are exclusive and compact: threads that are alive at the same time have different indices,
  and every index is below the largest number of threads that were ever alive at once, however many threads
  have come and gone.\<close>

theorem thread_indices_compact:
  assumes "reach thr_init thr_step x" and "peak x < 2 ^ 64"
    and "regs x t = Some r" and "regs x t' = Some r'"
  shows "unat (thread_index (Some r)) < peak x \<and>
    (thread_index (Some r) = thread_index (Some r') \<longrightarrow> t = t') \<and>
    mapping (indices x) t = Some (thread_index (Some r))"
proof -
  have I: "thr_inv x" by (rule registry.reach_inv [OF assms(1)])
  then obtain n where n: "n \<le> peak x" "indices_ok (mapping (indices x)) (free_list (indices x)) n"
    using assms(2) by (auto simp: thr_inv_def)
  have m: "mapping (indices x) t = Some (reg_index r)" "mapping (indices x) t' = Some (reg_index r')"
    using I assms(3,4) by (simp_all add: thr_inv_def)
  then have "reg_index r \<in> of_nat ` {..<n}" using n(2) by (auto simp: indices_ok_def dest: ranI)
  then obtain k where k: "k < n" "reg_index r = of_nat k" by auto
  then have "unat (reg_index r) = k"
    using n(1) assms(2) by (simp add: unat_of_nat take_bit_nat_eq_self)
  moreover have "reg_index r = reg_index r' \<Longrightarrow> t = t'"
    using n(2) m inj_onD [of "mapping (indices x)" "dom (mapping (indices x))" t t']
    by (auto simp: indices_ok_def)
  ultimately show ?thesis using k(1) n(1) m(1) by (simp add: thread_index_def)
qed

lemma threads1_reach: "reach thr_init thr_step threads1"
proof -
  let ?a = "\<lparr>indices = THREAD_INDICES, regs = Map.empty, peak = 0\<rparr>"
  let ?b = "\<lparr>indices = \<lparr>mapping = [8 \<mapsto> 0], free_list = [], next_index = 1\<rparr>,
     regs = [8 \<mapsto> \<lparr>reg_index = 0, reg_thread_id = 8\<rparr>], peak = 1\<rparr>"
  have "reach thr_init thr_step ?a" by (rule reach_init) (simp add: thr_init_def)
  moreover have "thr_step ?a ?b"
    using thread_starts [of ?a 8 "\<lparr>reg_index = 0, reg_thread_id = 8\<rparr>" "indices ?b"]
    by (simp add: REGISTRATION_init_def THREAD_INDICES_def)
  moreover have "card {9, 8 :: nat} = 2" by simp
  then have "thr_step ?b threads1"
    using thread_starts [of ?b 9 "\<lparr>reg_index = 1, reg_thread_id = 9\<rparr>" "indices threads1"]
    by (simp add: REGISTRATION_init_def threads1_def)
  ultimately show ?thesis by (meson reach_step)
qed

theorem thread_indices_compact_witness: "unat (thread_index (regs threads1 9)) < 2"
proof -
  have "regs threads1 9 = Some \<lparr>reg_index = 1, reg_thread_id = 9\<rparr>" "peak threads1 = Suc 1" by (simp_all add: threads1_def)
  with thread_indices_compact [OF threads1_reach, of 9 _ 9] show ?thesis by simp
qed

end
