(* ===== verification/Dispatch_Lock.thy ===== *)
theory Dispatch_Lock
  imports Sharded_RwLock Registration_Cell
begin

text \<open>
  The dispatch slab behind its lock: \<^verbatim>\<open>io_dispatch: RwLock<Slab<ScheduledIo>>\<close> of \<^verbatim>\<open>src/reactor/mod.rs\<close>. The other
  theories run one locked section at a time; here the threads interleave at every access to a shard of the lock and
  at every atomic access to an entry. Inserting and removing need the write guard; everything else finds its entry
  under a read guard and then works on the entry's atomics, while other threads with read guards do the same.
\<close>

section \<open>Atomic accesses to an entry\<close>

text \<open>
  The accesses of \<^verbatim>\<open>Registration::poll_ready\<close>, of \<^verbatim>\<open>Inner::register\<close> and of \<^verbatim>\<open>Reactor::dispatch\<close>, one by one.
\<close>

inductive entry_access :: "('aw, 'sl, 'w) ext \<Rightarrow> 'aw scheduled_io \<Rightarrow> 'aw scheduled_io \<Rightarrow> bool" for E where
  access_fetch: "entry_access E io (snd (fetch_ready E d io))"
| access_park: "entry_access E io (set_waker E d t io)"
| access_or: "entry_access E io (io\<lparr>readiness := readiness io OR ready\<rparr>)"
| access_take_writer: "entry_access E io (io\<lparr>writer := snd (aw_take E (writer io))\<rparr>)"
| access_take_reader: "entry_access E io (io\<lparr>reader := snd (aw_take E (reader io))\<rparr>)"
| access_wake_writer: "entry_access E io (io\<lparr>writer := snd (aw_wake E (writer io))\<rparr>)"
| access_wake_reader: "entry_access E io (io\<lparr>reader := snd (aw_wake E (reader io))\<rparr>)"

section \<open>The slab under the lock\<close>

definition dl_init :: "('aw, 'sl, 'w) ext \<Rightarrow> 'l plock \<Rightarrow> nat \<Rightarrow> ('l, 'sl) locks \<Rightarrow> bool" where
  "dl_init E P cpus x \<longleftrightarrow> rw x = RwLock_new P cpus (sl_with_capacity E 1) \<and> (\<forall>i. lock_at x i = LIdle)"

inductive dl_step ::
  "('aw, 'sl, 'w) ext \<Rightarrow> 'l plock \<Rightarrow> (nat \<Rightarrow> usize) \<Rightarrow> ('l, 'sl) locks \<Rightarrow> ('l, 'sl) locks \<Rightarrow> bool" for E P ti where
  dl_lock: "lock_step P ti x y \<Longrightarrow> lock_value (rw y) = lock_value (rw x) \<Longrightarrow> dl_step E P ti x y"
| dl_insert: "lock_at x i = LWriting \<Longrightarrow> sl_len E (RwLockWriteGuard_deref (rw x)) \<noteq> unat MAX_SOURCES \<Longrightarrow>
     sl_insert E (RwLockWriteGuard_deref (rw x))
       \<lparr>aba_guard = g, readiness = 0, reader = aw_new E, writer = aw_new E\<rparr> = (key, slab) \<Longrightarrow>
     dl_step E P ti x (x\<lparr>rw := RwLockWriteGuard_deref_mut (\<lambda>_. slab) (rw x)\<rparr>)"
| dl_remove: "lock_at x i = LWriting \<Longrightarrow> sl_remove E (RwLockWriteGuard_deref (rw x)) key = Some slab \<Longrightarrow>
     dl_step E P ti x (x\<lparr>rw := RwLockWriteGuard_deref_mut (\<lambda>_. slab) (rw x)\<rparr>)"
| dl_access: "lock_at x i = LReading k \<Longrightarrow> sl_get E (RwLockReadGuard_deref (rw x)) key = Some io \<Longrightarrow>
     entry_access E io io' \<Longrightarrow>
     dl_step E P ti x (x\<lparr>rw := (rw x)\<lparr>lock_value := sl_set E (RwLockReadGuard_deref (rw x)) key io'\<rparr>\<rparr>)"

definition dl_inv :: "('aw, 'sl, 'w) ext \<Rightarrow> 'l plock \<Rightarrow> nat \<Rightarrow> ('l, 'sl) locks \<Rightarrow> bool" where
  "dl_inv E P n x \<longleftrightarrow> lock_inv P n x \<and> sl_slots E (lock_value (rw x)) \<le> unat MAX_SOURCES"

text \<open>The keys in use and the guards of their entries.\<close>

definition guards :: "('aw, 'sl, 'w) ext \<Rightarrow> ('l, 'sl) locks \<Rightarrow> usize \<Rightarrow> usize option" where
  "guards E x k = map_option aba_guard (sl_get E (lock_value (rw x)) k)"

text \<open>One thread has inserted an entry and then taken a read guard.\<close>

definition slab1 :: list_slab where
  "slab1 = [Some \<lparr>aba_guard = 4194304, readiness = 0, reader = None, writer = None\<rparr>]"

definition dl_reading :: "(nat \<times> bool, list_slab) locks" where
  "dl_reading = \<lparr>rw = \<lparr>shards = [(1, False)], lock_value = slab1\<rparr>, lock_at = (\<lambda>_. LIdle)(0 := LReading 0)\<rparr>"

section \<open>Lemmas\<close>

lemma access_keeps_guard: "entry_access E io io' \<Longrightarrow> aba_guard io' = aba_guard io"
  by (induction rule: entry_access.induct) simp_all

lemma slots_fit: "sl_slots E s \<le> unat MAX_SOURCES \<Longrightarrow> slab_fits E s"
  by (simp add: slab_fits_def)

lemma dl_invD: "dl_inv E P n x \<Longrightarrow> lock_inv P n x" "dl_inv E P n x \<Longrightarrow> slab_fits E (lock_value (rw x))"
  by (simp_all add: dl_inv_def slab_fits_def)

lemma slots_after_insert:
  assumes "ext_ok E" and "sl_slots E s \<le> unat MAX_SOURCES" and "sl_len E s \<noteq> unat MAX_SOURCES"
    and "sl_insert E s v = (key, s')"
  shows "sl_slots E s' \<le> unat MAX_SOURCES"
  using slab_insert(3) [OF assms(1) slots_fit [OF assms(2)] assms(4)] slab_len_le_slots [OF assms(1) slots_fit [OF assms(2)]]
    assms(2,3) by (auto split: if_splits)

text \<open>The lock's own invariant does not depend on the value.\<close>

lemma lock_inv_value: "lock_inv P n (x\<lparr>rw := (rw x)\<lparr>lock_value := v\<rparr>\<rparr>) = lock_inv P n x"
  by (simp add: lock_inv_def)

lemma dl_step_inv:
  assumes "dl_step E P ti x y" and "ext_ok E" and "pl_ok P" and "dl_inv E P n x"
  shows "dl_inv E P n y"
  using assms(1)
proof cases
  case dl_lock
  with assms(4) lock_step_inv [OF _ assms(3), of ti x y n] show ?thesis by (simp add: dl_inv_def)
next
  case (dl_insert i g key slab)
  have "sl_slots E (lock_value (rw x)) \<le> unat MAX_SOURCES" using assms(4) by (simp add: dl_inv_def)
  from slots_after_insert [OF assms(2) this] dl_insert(3,4) have "sl_slots E slab \<le> unat MAX_SOURCES"
    unfolding RwLockWriteGuard_deref_def .
  with dl_insert(1) assms(4) show ?thesis by (simp add: dl_inv_def RwLockWriteGuard_deref_mut_def lock_inv_value)
next
  case (dl_remove i key slab)
  note fits = dl_invD(2) [OF assms(4)]
  obtain io where "sl_get E (lock_value (rw x)) key = Some io"
    using slab_remove_vacant [OF assms(2) fits, of key] dl_remove(3)
    by (cases "sl_get E (lock_value (rw x)) key") (auto simp: RwLockWriteGuard_deref_def)
  from slab_remove [OF assms(2) fits this] dl_remove(3) have "sl_slots E slab = sl_slots E (lock_value (rw x))"
    by (auto simp: RwLockWriteGuard_deref_def)
  with dl_remove(1) assms(4) show ?thesis by (simp add: dl_inv_def RwLockWriteGuard_deref_mut_def lock_inv_value)
next
  case (dl_access i k key io io')
  with slab_set(2) [OF assms(2) dl_invD(2) [OF assms(4)], of key io io'] assms(4) show ?thesis
    by (simp add: dl_inv_def RwLockReadGuard_deref_def lock_inv_value)
qed

interpretation slab_lock: inductive_invariant
  "\<lambda>x. ext_ok E \<and> pl_ok P \<and> dl_init E P cpus x" "dl_step E P ti"
  "\<lambda>x. ext_ok E \<and> pl_ok P \<and> dl_inv E P (next_power_of_two cpus) x" for E P cpus ti
proof (unfold_locales, goal_cases)
  case (1 x)
  then have "lock_init P cpus x" by (auto simp: dl_init_def lock_init_def)
  with 1 lock_init_inv [of P cpus x] show ?case by (auto simp: dl_inv_def dl_init_def RwLock_new_def Let_def)
next
  case (2 x y)
  then show ?case using dl_step_inv by blast
qed

text \<open>While somebody reads, a step changes no guard.\<close>

lemma dl_step_guards:
  assumes "ext_ok E" and "dl_inv E P n x" and "lock_at x i = LReading k" and "dl_step E P ti x y"
  shows "guards E y = guards E x"
proof -
  note lock = dl_invD(1) [OF assms(2)] and fits = dl_invD(2) [OF assms(2)]
  have no_writer: "lock_at x j \<noteq> LWriting" for j using writer_alone(2) [OF lock, of j i k] assms(3) by blast
  from assms(4) show ?thesis
  proof cases
    case dl_lock
    then show ?thesis by (simp add: guards_def fun_eq_iff)
  next
    case (dl_access j k' key io io')
    with slab_set(1) [OF assms(1) fits, of key io io'] access_keeps_guard show ?thesis
      by (auto simp: guards_def fun_eq_iff RwLockReadGuard_deref_def)
  qed (use no_writer in blast)+
qed

lemma read_section_guards:
  assumes "ext_ok E" and "pl_ok P" and "dl_inv E P n x" and "lock_at x i = LReading k"
    and "(\<lambda>x y. dl_step E P ti x y \<and> lock_at y i = LReading k)\<^sup>*\<^sup>* x y"
  shows "guards E y = guards E x \<and> dl_inv E P n y \<and> lock_at y i = LReading k"
  using assms(5)
proof (induction rule: rtranclp_induct)
  case base
  with assms show ?case by simp
next
  case (step y z)
  then show ?case using dl_step_guards [OF assms(1), of P n y i k ti z] dl_step_inv [OF _ assms(1,2), of ti y z n] by simp
qed

section \<open>Properties\<close>

text \<open>C28: a reference to an entry of the slab, taken under a read guard, stays good for as long as the guard is held,
  whatever the other threads do in the meantime: the entry exists if it did before, its guard is the one that was compared with the
  event's token, and nothing was inserted or removed. So dispatching and polling may look up the entry once, check
  its guard and then work on its atomics.\<close>

theorem entries_stable_under_read_guard:
  assumes "reach (\<lambda>x. ext_ok E \<and> pl_ok P \<and> dl_init E P cpus x) (dl_step E P ti) x" and "lock_at x i = LReading k"
    and "(\<lambda>x y. dl_step E P ti x y \<and> lock_at y i = LReading k)\<^sup>*\<^sup>* x y"
  shows "guards E y = guards E x \<and> (\<forall>j. lock_at y j \<noteq> LWriting)"
proof -
  have ok: "ext_ok E" "pl_ok P" and inv: "dl_inv E P (next_power_of_two cpus) x"
    using slab_lock.reach_inv [OF assms(1)] by auto
  note R = read_section_guards [OF ok inv assms(2,3)]
  then have "lock_inv P (next_power_of_two cpus) y" by (simp add: dl_inv_def)
  with R show ?thesis using writer_alone(2) by metis
qed


lemma dl_reading_reach:
  "reach (\<lambda>x. ext_ok (std_ext []) \<and> pl_ok std_plock \<and> dl_init (std_ext []) std_plock 1 x)
     (dl_step (std_ext []) std_plock (\<lambda>_. 0)) dl_reading" (is "reach ?I ?S dl_reading")
proof -
  let ?st = "\<lambda>l v p. \<lparr>rw = \<lparr>shards = [l], lock_value = v\<rparr>, lock_at = (\<lambda>_. LIdle)(0 := p)\<rparr>"
  let ?L = "lock_step std_plock (\<lambda>_. 0)"
  have L: "?S x y" if "?L x y" "lock_value (rw y) = lock_value (rw x)" for x y by (rule dl_lock [OF that])
  have "?I (?st (0, False) [] LIdle)"
    by (simp add: std_ext_ok std_plock_ok dl_init_def RwLock_new_def next_power_of_two.simps) (simp add: std_ext_def std_plock_def)
  then have "reach ?I ?S (?st (0, False) [] LIdle)" by (rule reach_init)
  moreover have "?S (?st (0, False) [] LIdle) (?st (0, False) [] (LLocking 0))"
    using start_write [of "?st (0, False) [] LIdle" 0 std_plock "\<lambda>_. 0"] by (intro L) simp_all
  moreover have "?S (?st (0, False) [] (LLocking 0)) (?st (0, True) [] (LLocking 1))"
    using lock_shard [of "?st (0, False) [] (LLocking 0)" 0 0 std_plock "(0, True)" "\<lambda>_. 0"]
    by (intro L) (simp_all add: std_plock_def)
  moreover have "?S (?st (0, True) [] (LLocking 1)) (?st (0, True) [] LWriting)"
    using locked_all [of "?st (0, True) [] (LLocking 1)" 0 1 std_plock "\<lambda>_. 0"] by (intro L) simp_all
  moreover have "?S (?st (0, True) [] LWriting) (?st (0, True) slab1 LWriting)"
    using dl_insert [of "?st (0, True) [] LWriting" 0 "std_ext []" 4194304 0 slab1 std_plock "\<lambda>_. 0"]
    by (simp add: RwLockWriteGuard_deref_def RwLockWriteGuard_deref_mut_def std_ext_def ls_insert_def slab1_def)
  moreover have "?S (?st (0, True) slab1 LWriting) (?st (0, True) slab1 (LUnlocking 1))"
    using start_unlock [of "?st (0, True) slab1 LWriting" 0 std_plock "\<lambda>_. 0"] by (intro L) simp_all
  moreover have "?S (?st (0, True) slab1 (LUnlocking 1)) (?st (0, False) slab1 (LUnlocking 0))"
    using unlock_shard [of "?st (0, True) slab1 (LUnlocking 1)" 0 0 std_plock "\<lambda>_. 0"] by (intro L) (simp_all add: std_plock_def)
  moreover have "?S (?st (0, False) slab1 (LUnlocking 0)) (?st (0, False) slab1 LIdle)"
    using unlocked_all [of "?st (0, False) slab1 (LUnlocking 0)" 0 std_plock "\<lambda>_. 0"] by (intro L) simp_all
  moreover have "RwLock_read std_plock 0 \<lparr>shards = [(0, False)], lock_value = slab1\<rparr> = (Ret (Some \<lparr>guard_shard = 0\<rparr>), rw dl_reading)"
    by (simp add: RwLock_read_def shard_index_def std_plock_def dl_reading_def)
  then have "?S (?st (0, False) slab1 LIdle) dl_reading"
    using lock_read [of "?st (0, False) slab1 LIdle" 0 std_plock "\<lambda>_. 0" "\<lparr>guard_shard = 0\<rparr>" "rw dl_reading"]
    by (intro L) (simp_all add: dl_reading_def)
  ultimately show ?thesis by (meson reach_step)
qed

theorem entries_stable_under_read_guard_witness:
  "\<exists>y. dl_step (std_ext []) std_plock (\<lambda>_. 0) dl_reading y \<and> y \<noteq> dl_reading \<and> guards (std_ext []) y 0 = Some 4194304"
proof -
  let ?io = "\<lparr>aba_guard = 4194304, readiness = 0, reader = None, writer = None\<rparr> :: task option scheduled_io"
  let ?v = "[Some (?io\<lparr>readiness := readiness ?io OR 1\<rparr>)]"
  let ?y = "dl_reading\<lparr>rw := (rw dl_reading)\<lparr>lock_value := ?v\<rparr>\<rparr>"
  have step: "dl_step (std_ext []) std_plock (\<lambda>_. 0) dl_reading ?y"
    using dl_access [of dl_reading 0 0 "std_ext []" 0 ?io _ std_plock "\<lambda>_. 0", OF _ _ access_or [of "std_ext []" ?io 1]]
    by (simp add: dl_reading_def RwLockReadGuard_deref_def slab1_def std_ext_def ls_get_def)
  have at: "lock_at dl_reading 0 = LReading 0" "lock_at ?y 0 = LReading 0" by (simp_all add: dl_reading_def)
  have "guards (std_ext []) ?y = guards (std_ext []) dl_reading"
    using entries_stable_under_read_guard [OF dl_reading_reach at(1), of ?y] step at(2) by blast
  moreover have "guards (std_ext []) dl_reading 0 = Some 4194304"
    by (simp add: guards_def dl_reading_def slab1_def std_ext_def ls_get_def)
  ultimately show ?thesis using step by (intro exI [of _ ?y]) (simp add: dl_reading_def slab1_def)
qed

end
