(* ===== verification/Poll_Evented.thy ===== *)
theory Poll_Evented
  imports Registration_Cell
begin

text \<open>
  \<^verbatim>\<open>src/raw/poll_evented.rs\<close>: an I/O resource, its registration and a cache of the readiness seen so
  far, in both directions; \<^verbatim>\<open>AsyncRead\<close> and \<^verbatim>\<open>AsyncWrite\<close> on top of them. The two directions are the same
  code with other constants; it is modelled once, over the registration's two streams.

  \<open>readiness_stream\<close> is the contract between a registration's stream and the cache; \<open>nonblocking\<close> that
  between the cached readiness and an attempted system call. Both are interpreted on the definitions of
  this theory, for reading and for writing.
\<close>

section \<open>Data\<close>

record PollEvented =
  pe_io :: "fd option"
  registration :: Registration
  read_readiness :: usize
  write_readiness :: usize

text \<open>Addresses a call may need: those the allocator would give for the reactor of a first registration and for a
  node, and that of the \<^verbatim>\<open>Waker\<close> in the caller's context.\<close>

record alloc =
  new_arc :: usize
  new_box :: usize
  cx_waker :: usize

abbreviation node_at :: "alloc \<Rightarrow> usize \<times> usize" where
  "node_at al \<equiv> (new_box al, cx_waker al)"

definition PollEvented_new :: "fd \<Rightarrow> PollEvented" where
  "PollEvented_new io =
     \<lparr>pe_io = Some io, registration = Registration_new, read_readiness = 0, write_readiness = 0\<rparr>"

type_synonym ('sl, 'w) pst = "PollEvented \<times> ('sl, 'w) sys"

definition on_reg :: "(Registration \<times> ('sl, 'w) sys, 'a) op \<Rightarrow> (('sl, 'w) pst, 'a) op" where
  "on_reg m = (\<lambda>(pe, s). case m (registration pe, s) of (r, (reg, s')) \<Rightarrow> (r, (pe\<lparr>registration := reg\<rparr>, s')))"

definition PollEvented_get_ref :: "(('sl, 'w) pst, fd) op" where
  "PollEvented_get_ref = (\<lambda>(pe, s). case pe_io pe of
      None \<Rightarrow> (Panic ''called `Option::unwrap()` on a `None` value'', (pe, s))
    | Some io \<Rightarrow> (Ret io, (pe, s)))"

definition PollEvented_get_mut :: "(('sl, 'w) pst, fd) op" where
  "PollEvented_get_mut = (\<lambda>(pe, s). case pe_io pe of
      None \<Rightarrow> (Panic ''called `Option::unwrap()` on a `None` value'', (pe, s))
    | Some io \<Rightarrow> (Ret io, (pe, s)))"

text \<open>A system call on the resource.\<close>

definition sys_call :: "(fd \<Rightarrow> 'w \<Rightarrow> 'a \<times> 'w) \<Rightarrow> (('sl, 'w) pst, 'a) op" where
  "sys_call f = bnd PollEvented_get_mut (\<lambda>io (pe, s).
     case f io (world s) of (r, w) \<Rightarrow> (Ret r, (pe, s\<lparr>world := w\<rparr>)))"

definition PollEvented_register ::
  "('aw, 'sl, 'w) ext \<Rightarrow> alloc \<Rightarrow> (('sl, 'w) pst, unit io_result) op" where
  "PollEvented_register E al = bnd PollEvented_get_ref (\<lambda>io.
     try_io (on_reg (Registration_register E (new_arc al) io)) (\<lambda>_. ret (Inr ())))"

section \<open>Readiness\<close>

text \<open>
  The loop that drains a stream into the cache: \<open>cached\<close> is stored after every event, \<open>ret_bits\<close> collects
  the bits asked for.
\<close>

fun drain ::
  "('s, usize io_result poll) op \<Rightarrow> (usize \<Rightarrow> 's \<Rightarrow> 's) \<Rightarrow> usize \<Rightarrow> nat \<Rightarrow> usize \<Rightarrow> usize \<Rightarrow>
     ('s, usize io_result poll) op" where
  "drain poll_ready store ready_mask 0 cached ret_bits s = (OutOfFuel, s)"
| "drain poll_ready store ready_mask (Suc n) cached ret_bits s =
     ready_try poll_ready (\<lambda>ready s1.
       let cached1 = cached OR ready;
           s2 = store cached1 s1;
           ret1 = ret_bits OR (ready AND ready_mask)
       in if ret1 \<noteq> 0 then (Ret (Ready (Inr ret1)), s2)
          else drain poll_ready store ready_mask n cached1 ret1 s2) s"

text \<open>
  The body \<^verbatim>\<open>poll_read_ready\<close> and \<^verbatim>\<open>poll_write_ready\<close> share, after registering: \<open>bits\<close> is \<^verbatim>\<open>readable\<close> or
  \<^verbatim>\<open>writable\<close>, \<open>ready_mask\<close> adds \<^verbatim>\<open>hup\<close>. The first pass of the loop consumes what is there, so the second is the last
  unless an event arrives between the two, see \<open>drain_spec\<close>; in the code every such event may cost one more pass.
\<close>

definition poll_cached ::
  "('s, usize io_result poll) op \<Rightarrow> ('s, usize option io_result) op \<Rightarrow> ('s \<Rightarrow> usize) \<Rightarrow>
     (usize \<Rightarrow> 's \<Rightarrow> 's) \<Rightarrow> usize \<Rightarrow> usize \<Rightarrow> ('s, usize io_result poll) op" where
  "poll_cached poll_ready take_ready load store bits ready_mask s =
     (let cached = load s;
          ret_bits = cached AND bits
      in if ret_bits = 0 then drain poll_ready store ready_mask 2 cached ret_bits s
         else try_pollio take_ready (\<lambda>r s1. case r of
                Some ready \<Rightarrow> let cached1 = cached OR ready in (Ret (Ready (Inr cached1)), store cached1 s1)
              | None \<Rightarrow> (Ret (Ready (Inr cached)), s1)) s)"

definition load_read :: "('sl, 'w) pst \<Rightarrow> usize" where
  "load_read x = read_readiness (fst x)"

definition store_read :: "usize \<Rightarrow> ('sl, 'w) pst \<Rightarrow> ('sl, 'w) pst" where
  "store_read c = (\<lambda>(pe, s). (pe\<lparr>read_readiness := c\<rparr>, s))"

definition load_write :: "('sl, 'w) pst \<Rightarrow> usize" where
  "load_write x = write_readiness (fst x)"

definition store_write :: "usize \<Rightarrow> ('sl, 'w) pst \<Rightarrow> ('sl, 'w) pst" where
  "store_write c = (\<lambda>(pe, s). (pe\<lparr>write_readiness := c\<rparr>, s))"

text \<open>
  The two functions with what other threads, such as that of the reactor, do to the process between registering and
  looking at the readiness (\<open>env\<close>), and as calls of which they do not take notice.
\<close>

definition poll_read_ready_with ::
  "('aw, 'sl, 'w) ext \<Rightarrow> alloc \<Rightarrow> (('sl, 'w) sys \<Rightarrow> ('sl, 'w) sys) \<Rightarrow> task \<Rightarrow> (('sl, 'w) pst, usize io_result poll) op" where
  "poll_read_ready_with E al env cx = try_pollio (PollEvented_register E al) (\<lambda>_ (pe, s).
     poll_cached (on_reg (Registration_poll_read_ready E (node_at al) cx))
       (on_reg (Registration_take_read_ready E)) load_read store_read
       (readable E) (readable E OR platform_hup E) (pe, env s))"

definition poll_write_ready_with ::
  "('aw, 'sl, 'w) ext \<Rightarrow> alloc \<Rightarrow> (('sl, 'w) sys \<Rightarrow> ('sl, 'w) sys) \<Rightarrow> task \<Rightarrow> (('sl, 'w) pst, usize io_result poll) op" where
  "poll_write_ready_with E al env cx = try_pollio (PollEvented_register E al) (\<lambda>_ (pe, s).
     poll_cached (on_reg (Registration_poll_write_ready E (node_at al) cx))
       (on_reg (Registration_take_write_ready E)) load_write store_write
       (writable E) (writable E OR platform_hup E) (pe, env s))"

definition poll_read_ready ::
  "('aw, 'sl, 'w) ext \<Rightarrow> alloc \<Rightarrow> task \<Rightarrow> (('sl, 'w) pst, usize io_result poll) op" where
  "poll_read_ready E al = poll_read_ready_with E al (\<lambda>s. s)"

definition poll_write_ready ::
  "('aw, 'sl, 'w) ext \<Rightarrow> alloc \<Rightarrow> task \<Rightarrow> (('sl, 'w) pst, usize io_result poll) op" where
  "poll_write_ready E al = poll_write_ready_with E al (\<lambda>s. s)"

text \<open>\<^verbatim>\<open>wake_by_ref\<close> when the stream is still ready: \<open>?\<close> on \<^verbatim>\<open>Poll<Result>\<close> returns the error, keeps \<^verbatim>\<open>Pending\<close>.\<close>

definition wake_by_ref :: "task \<Rightarrow> (('sl, 'w) pst, unit) op" where
  "wake_by_ref cx = (\<lambda>(pe, s). (Ret (), (pe, s\<lparr>woken := woken s @ [cx]\<rparr>)))"

definition clear_then_poll ::
  "task \<Rightarrow> (('sl, 'w) pst, usize io_result poll) op \<Rightarrow> (('sl, 'w) pst, unit io_result) op" where
  "clear_then_poll cx poll_again = bnd poll_again (\<lambda>p. case p of
      Ready (Inl e) \<Rightarrow> ret (Inl e)
    | Ready (Inr _) \<Rightarrow> bnd (wake_by_ref cx) (\<lambda>_. ret (Inr ()))
    | Pending \<Rightarrow> ret (Inr ()))"

definition clear_read_ready ::
  "('aw, 'sl, 'w) ext \<Rightarrow> alloc \<Rightarrow> task \<Rightarrow> (('sl, 'w) pst, unit io_result) op" where
  "clear_read_ready E al cx x =
     clear_then_poll cx (poll_read_ready E al cx) (store_read (load_read x AND NOT (readable E)) x)"

definition clear_write_ready ::
  "('aw, 'sl, 'w) ext \<Rightarrow> alloc \<Rightarrow> task \<Rightarrow> (('sl, 'w) pst, unit io_result) op" where
  "clear_write_ready E al cx x =
     clear_then_poll cx (poll_write_ready E al cx) (store_write (load_write x AND NOT (writable E)) x)"

section \<open>Reading and writing\<close>

definition is_wouldblock :: "'a io_result \<Rightarrow> bool" where
  "is_wouldblock r = (case r of Inr _ \<Rightarrow> False | Inl e \<Rightarrow> kind e = WouldBlock)"

text \<open>
  The shape of every operation on a non-blocking resource: wait for readiness, try, and when the kernel
  says \<^verbatim>\<open>WouldBlock\<close> clear the readiness and stay pending.
\<close>

definition attempt ::
  "('s, usize io_result poll) op \<Rightarrow> ('s, unit io_result) op \<Rightarrow> ('s, 'a io_result) op \<Rightarrow>
     ('s, 'a io_result poll) op" where
  "attempt ready clear call = ready_try ready (\<lambda>_. bnd call (\<lambda>r.
     if is_wouldblock r then try_pollio clear (\<lambda>_. ret Pending) else ret (Ready r)))"

text \<open>\<open>sys_read\<close> gets the buffer and returns the number of bytes read and the buffer filled.\<close>

definition PollEvented_poll_read ::
  "('aw, 'sl, 'w) ext \<Rightarrow> alloc \<Rightarrow> (fd \<Rightarrow> byte list \<Rightarrow> 'w \<Rightarrow> (usize \<times> byte list) io_result \<times> 'w) \<Rightarrow> task \<Rightarrow>
     byte list \<Rightarrow> (('sl, 'w) pst, (usize \<times> byte list) io_result poll) op" where
  "PollEvented_poll_read E al sys_read cx buf =
     attempt (poll_read_ready E al cx) (clear_read_ready E al cx) (sys_call (\<lambda>io. sys_read io buf))"

definition PollEvented_poll_write ::
  "('aw, 'sl, 'w) ext \<Rightarrow> alloc \<Rightarrow> (fd \<Rightarrow> byte list \<Rightarrow> 'w \<Rightarrow> usize io_result \<times> 'w) \<Rightarrow> task \<Rightarrow> byte list \<Rightarrow>
     (('sl, 'w) pst, usize io_result poll) op" where
  "PollEvented_poll_write E al sys_write cx buf =
     attempt (poll_write_ready E al cx) (clear_write_ready E al cx) (sys_call (\<lambda>io. sys_write io buf))"

definition PollEvented_poll_flush ::
  "('aw, 'sl, 'w) ext \<Rightarrow> alloc \<Rightarrow> (fd \<Rightarrow> 'w \<Rightarrow> unit io_result \<times> 'w) \<Rightarrow> task \<Rightarrow>
     (('sl, 'w) pst, unit io_result poll) op" where
  "PollEvented_poll_flush E al sys_flush cx =
     attempt (poll_write_ready E al cx) (clear_write_ready E al cx) (sys_call sys_flush)"

definition PollEvented_poll_close :: "task \<Rightarrow> (('sl, 'w) pst, unit io_result poll) op" where
  "PollEvented_poll_close cx = ret (Ready (Inr ()))"

text \<open>
  \<^verbatim>\<open>Drop\<close>: deregister, ignoring errors, then drop the fields: the registration frees its slot; the resource
  closes itself, which is the kernel's business.
\<close>

definition PollEvented_drop ::
  "('aw, 'sl, 'w) ext \<Rightarrow> PollEvented \<Rightarrow> (('sl, 'w) sys, unit) op" where
  "PollEvented_drop E pe s =
     (let s1 = (case pe_io pe of
          None \<Rightarrow> s
        | Some io \<Rightarrow> snd (snd (Registration_deregister E io (registration pe, s))))
      in Registration_drop E (registration pe) s1)"

text \<open>\<^verbatim>\<open>Debug\<close>: a struct with the one field \<^verbatim>\<open>io\<close>, an \<^verbatim>\<open>Option\<close> of the resource, which \<open>fmt_io\<close> prints.\<close>

definition PollEvented_fmt :: "(fd \<Rightarrow> string) \<Rightarrow> PollEvented \<Rightarrow> string" where
  "PollEvented_fmt fmt_io pe = ''PollEvented { io: '' @
     (case pe_io pe of None \<Rightarrow> ''None'' | Some io \<Rightarrow> ''Some('' @ fmt_io io @ '')'') @ '' }''"

section \<open>Specification vocabulary\<close>

text \<open>
  A good state: the resource is registered, and unless that failed or the reactor is gone its entry exists.
\<close>

definition pe_entry :: "('aw, 'sl, 'w) ext \<Rightarrow> ('sl, 'w) pst \<Rightarrow> 'aw scheduled_io option" where
  "pe_entry E x = (case reg_inner (registration (fst x)) of
      None \<Rightarrow> None
    | Some i \<Rightarrow> (case inners (snd x) (hp_inner (handle i)) of
        None \<Rightarrow> None
      | Some inn \<Rightarrow> sl_get E (io_dispatch inn) (token i)))"

definition pe_failed :: "('sl, 'w) pst \<Rightarrow> io_error option" where
  "pe_failed x = (case reg_inner (registration (fst x)) of
      None \<Rightarrow> None
    | Some i \<Rightarrow> if token i = ERROR then Some (IoError Other ''failed to associate with reactor'')
        else if inners (snd x) (hp_inner (handle i)) = None then Some (IoError Other ''reactor gone'')
        else None)"

definition pe_good :: "('aw, 'sl, 'w) ext \<Rightarrow> ('sl, 'w) pst \<Rightarrow> bool" where
  "pe_good E x \<longleftrightarrow> ext_ok E \<and> pe_io (fst x) \<noteq> None \<and> reg_state (registration (fst x)) = READY \<and>
     reg_inner (registration (fst x)) \<noteq> None \<and>
     (pe_failed x = None \<longrightarrow> (\<exists>i inn io. associated E (registration (fst x)) (snd x) i inn io))"

definition pe_vis :: "('aw, 'sl, 'w) ext \<Rightarrow> Direction \<Rightarrow> ('sl, 'w) pst \<Rightarrow> usize" where
  "pe_vis E d x = (case pe_entry E x of None \<Rightarrow> 0 | Some io \<Rightarrow> visible E d io)"

definition pe_parked :: "('aw, 'sl, 'w) ext \<Rightarrow> Direction \<Rightarrow> task \<Rightarrow> ('sl, 'w) pst \<Rightarrow> bool" where
  "pe_parked E d t x \<longleftrightarrow> (\<exists>io. pe_entry E x = Some io \<and> aw_held E (cell_of d io) = Some t)"

definition load_dir :: "Direction \<Rightarrow> ('sl, 'w) pst \<Rightarrow> usize" where
  "load_dir d = (case d of Read \<Rightarrow> load_read | Write \<Rightarrow> load_write)"

definition store_dir :: "Direction \<Rightarrow> usize \<Rightarrow> ('sl, 'w) pst \<Rightarrow> ('sl, 'w) pst" where
  "store_dir d = (case d of Read \<Rightarrow> store_read | Write \<Rightarrow> store_write)"

text \<open>What polling for readiness leaves alone.\<close>

abbreviation pe_keep :: "('sl, 'w) pst \<Rightarrow> task list \<times> 'w \<times> Registration \<times> fd option" where
  "pe_keep x \<equiv> (woken (snd x), world (snd x), registration (fst x), pe_io (fst x))"

definition pe_hup :: "(list_slab, nat) pst" where
  "pe_hup = (\<lparr>pe_io = Some 7, registration = reg0 \<lparr>handle = \<lparr>hp_inner = 16\<rparr>, token = 0\<rparr>,
     read_readiness = 0, write_readiness = 0\<rparr>, sys_hup)"

definition alloc0 :: alloc where
  "alloc0 = \<lparr>new_arc = 48, new_box = 64, cx_waker = 72\<rparr>"

section \<open>The stream contract\<close>

text \<open>
  What the cache needs of a stream: in a good state a poll fails without effect, or reports exactly what is
  visible and keeps only \<^verbatim>\<open>hup\<close>, or has nothing to report and parks the task. Taking is the same without
  parking. The cache is independent of all that, and \<open>keep\<close> is what no operation of the stream touches.
\<close>

locale readiness_stream =
  fixes poll_ready :: "('s, usize io_result poll) op"
    and take_ready :: "('s, usize option io_result) op"
    and load :: "'s \<Rightarrow> usize" and store :: "usize \<Rightarrow> 's \<Rightarrow> 's"
    and good :: "'s \<Rightarrow> bool" and failed :: "'s \<Rightarrow> io_error option" and vis :: "'s \<Rightarrow> usize"
    and parked :: "'s \<Rightarrow> bool" and keep :: "'s \<Rightarrow> 'k" and hup :: usize
  assumes poll_failed: "good s \<Longrightarrow> failed s = Some e \<Longrightarrow> poll_ready s = (Ret (Ready (Inl e)), s)"
    and poll_some: "good s \<Longrightarrow> failed s = None \<Longrightarrow> vis s \<noteq> 0 \<Longrightarrow>
      \<exists>s'. poll_ready s = (Ret (Ready (Inr (vis s))), s') \<and> good s' \<and> failed s' = None \<and>
        vis s' = vis s AND hup \<and> load s' = load s \<and> keep s' = keep s"
    and poll_none: "good s \<Longrightarrow> failed s = None \<Longrightarrow> vis s = 0 \<Longrightarrow>
      \<exists>s'. poll_ready s = (Ret Pending, s') \<and> good s' \<and> failed s' = None \<and> vis s' = 0 \<and>
        load s' = load s \<and> keep s' = keep s \<and> parked s'"
    and take_failed: "good s \<Longrightarrow> failed s = Some e \<Longrightarrow> take_ready s = (Ret (Inl e), s)"
    and take_ok: "good s \<Longrightarrow> failed s = None \<Longrightarrow>
      \<exists>s'. take_ready s = (Ret (Inr (if vis s = 0 then None else Some (vis s))), s') \<and>
        good s' \<and> failed s' = None \<and> vis s' = vis s AND hup \<and> load s' = load s \<and> keep s' = keep s"
    and load_store: "load (store c s) = c" and keep_store: "keep (store c s) = keep s"
    and good_store: "good (store c s) = good s" and failed_store: "failed (store c s) = failed s"
    and vis_store: "vis (store c s) = vis s" and parked_store: "parked (store c s) = parked s"
begin

lemmas store_laws = load_store keep_store good_store failed_store vis_store parked_store

lemma drain_spec:
  assumes "good s" and "failed s = None" and "hup AND m = hup"
  shows "\<exists>s'. good s' \<and> failed s' = None \<and> vis s' = vis s AND hup \<and> keep s' = keep s \<and>
    (if vis s AND m \<noteq> 0
     then drain poll_ready store m (Suc (Suc n)) c 0 s = (Ret (Ready (Inr (vis s AND m))), s') \<and> load s' = c OR vis s
     else drain poll_ready store m (Suc (Suc n)) c 0 s = (Ret Pending, s') \<and> parked s' \<and>
       load s' = (if vis s = 0 then load s else c OR vis s))"
proof (cases "vis s = 0")
  case True
  from poll_none [OF assms(1,2) True] True show ?thesis by (auto simp: op_simps)
next
  case False
  from poll_some [OF assms(1,2) False] obtain s1 where
    s1: "poll_ready s = (Ret (Ready (Inr (vis s))), s1)" "good s1" "failed s1 = None" "vis s1 = vis s AND hup"
    "keep s1 = keep s" by blast
  let ?s2 = "store (c OR vis s) s1"
  show ?thesis
  proof (cases "vis s AND m = 0")
    case True
    then have "vis ?s2 = 0"
      using assms(3) s1(4) unfolding store_laws by (auto simp: bit_eq_iff bit_simps)
    moreover have "good ?s2" "failed ?s2 = None" using s1(2,3) by (simp_all add: store_laws)
    ultimately obtain s3 where s3: "poll_ready ?s2 = (Ret Pending, s3)" "good s3" "failed s3 = None" "vis s3 = 0"
      "load s3 = c OR vis s" "parked s3" "keep s3 = keep s"
      using poll_none [of ?s2] s1(5) by (auto simp: load_store keep_store)
    have "vis s AND hup = 0" using s1(4) \<open>vis ?s2 = 0\<close> by (simp add: store_laws)
    then show ?thesis using s1(1) s3 True False by (auto simp: op_simps)
  next
    case nz: False
    then show ?thesis using s1 by (auto simp: op_simps store_laws intro!: exI [of _ ?s2])
  qed
qed

lemma poll_cached_spec:
  assumes "good s" and "failed s = None" and "hup AND m = hup"
  shows "\<exists>s'. good s' \<and> failed s' = None \<and> vis s' = vis s AND hup \<and> keep s' = keep s \<and>
    (if load s AND b \<noteq> 0
     then poll_cached poll_ready take_ready load store b m s = (Ret (Ready (Inr (load s OR vis s))), s') \<and>
       load s' = load s OR vis s
     else if vis s AND m \<noteq> 0
     then poll_cached poll_ready take_ready load store b m s = (Ret (Ready (Inr (vis s AND m))), s') \<and>
       load s' = load s OR vis s
     else poll_cached poll_ready take_ready load store b m s = (Ret Pending, s') \<and> parked s' \<and>
       load s' = load s OR vis s)"
proof (cases "load s AND b = 0")
  case True
  then show ?thesis
    using drain_spec [OF assms, of 0 "load s"]
    by (auto simp: poll_cached_def Let_def numeral_2_eq_2 split: if_splits)
next
  case False
  from take_ok [OF assms(1,2)] obtain s1 where
    "take_ready s = (Ret (Inr (if vis s = 0 then None else Some (vis s))), s1)"
    "good s1" "failed s1 = None" "vis s1 = vis s AND hup" "load s1 = load s" "keep s1 = keep s" by blast
  with False show ?thesis
    by (auto simp: poll_cached_def Let_def op_simps store_laws
        intro!: exI [of _ "if vis s = 0 then s1 else store (load s OR vis s) s1"])
qed

lemma poll_cached_failed:
  assumes "good s" and "failed s = Some e"
  shows "poll_cached poll_ready take_ready load store b m s = (Ret (Ready (Inl e)), s)"
  using poll_failed [OF assms] take_failed [OF assms]
  by (simp add: poll_cached_def Let_def numeral_2_eq_2 op_simps)

end

section \<open>The streams of a registration\<close>

lemma associated_entry:
  assumes "associated E (registration (fst x)) (snd x) i inn io"
  shows "pe_entry E x = Some io" and "pe_failed x = None"
  using assms by (auto simp: associated_def pe_entry_def pe_failed_def)

lemma on_reg_fields [simp]:
  "pe_entry E (pe\<lparr>registration := registration pe\<rparr>, s) = pe_entry E (pe, s)"
  by (simp add: pe_entry_def)

lemma reg_poll_failed:
  assumes "pe_good E x" and "pe_failed x = Some e"
  shows "reg_poll_ready E env b cx d (registration (fst x), snd x) = (Ret (Inl e), (registration (fst x), snd x))"
  using assms
  by (auto simp: pe_good_def pe_failed_def reg_poll_ready_def numeral_2_eq_2 READY_def INIT_def
      RegInner_poll_ready_def HandlePriv_inner_def split: option.splits if_splits)

lemma reg_poll_ok:
  assumes "pe_good E x" and "pe_failed x = None"
  shows "\<exists>x'. reg_poll_ready E env b cx d (registration (fst x), snd x) =
      (Ret (Inr (if pe_vis E d x = 0 then None else Some (pe_vis E d x))), (registration (fst x'), snd x')) \<and>
    fst x' = fst x \<and> pe_good E x' \<and> pe_failed x' = None \<and> woken (snd x') = woken (snd x) \<and>
    world (snd x') = world (snd x) \<and> pe_vis E d x' = pe_vis E d x AND platform_hup E \<and> pe_vis E (opposite d) x' = pe_vis E (opposite d) x \<and>
    (\<forall>t. cx = Some t \<longrightarrow> pe_vis E d x = 0 \<longrightarrow> pe_parked E d t x') \<and>
    (\<forall>t. pe_parked E (opposite d) t x' = pe_parked E (opposite d) t x)"
proof -
  obtain i inn io where A: "associated E (registration (fst x)) (snd x) i inn io" and E: "ext_ok E"
    using assms unfolding pe_good_def by blast
  obtain r io' where p: "poll_entry E cx d io = (r, io')" by fastforce
  note spec = poll_entry_spec [OF p] and run = associated_poll(1) [OF E A p, of env b]
    and A' = associated_poll(2) [OF E A p]
  let ?inn' = "inn\<lparr>io_dispatch := sl_set E (io_dispatch inn) (token i) io'\<rparr>"
  let ?x' = "(fst x, (snd x)\<lparr>inners := (inners (snd x))(hp_inner (handle i) \<mapsto> ?inn')\<rparr>)"
  have A2: "associated E (registration (fst ?x')) (snd ?x') i ?inn' io'" using A' by simp
  note e = associated_entry [OF A] and e' = associated_entry [OF A2]
  have good: "pe_good E ?x'" using assms(1) A2 unfolding pe_good_def by auto
  have v1: "visible E d io' = visible E d io AND platform_hup E"
    unfolding visible_def spec(2) by (auto simp: bit_eq_iff bit_simps)
  have v2: "visible E (opposite d) io' = visible E (opposite d) io"
    unfolding visible_def spec(2)
    by (rule and_and_not) (rule masks_disjoint [OF ext_ok_ready [OF E]])
  have "aw_held E (cell_of d io') = Some t" if "cx = Some t" "visible E d io = 0" for t
    using spec(1,5) that E by simp
  then show ?thesis
    using run good e e' spec(1,4) v1 v2
    by (intro exI [of _ ?x']) (auto simp: pe_vis_def pe_parked_def)
qed

lemma store_dir_fields:
  "registration (fst (store_dir d c x)) = registration (fst x)" "snd (store_dir d c x) = snd x"
  "pe_io (fst (store_dir d c x)) = pe_io (fst x)"
  by (cases d; cases x; simp add: store_dir_def store_read_def store_write_def)+

lemma stream_store [simp]:
  "pe_good E (store_dir d c x) = pe_good E x" "pe_failed (store_dir d c x) = pe_failed x"
  "pe_vis E d' (store_dir d c x) = pe_vis E d' x" "pe_parked E d' t (store_dir d c x) = pe_parked E d' t x"
  "load_dir d (store_dir d c x) = c"
  by (simp_all only: pe_good_def pe_failed_def pe_vis_def pe_parked_def pe_entry_def store_dir_fields)
    (cases d; cases x; simp add: load_dir_def store_dir_def load_read_def load_write_def store_read_def store_write_def)

lemma reg_stream:
  "readiness_stream (on_reg (bnd (reg_poll_ready E (\<lambda>_. id) b (Some t) d) (\<lambda>r. ret (ready_poll r))))
     (on_reg (reg_poll_ready E (\<lambda>_. id) b' None d)) (load_dir d) (store_dir d)
     (pe_good E) pe_failed (pe_vis E d) (pe_parked E d t) pe_keep (platform_hup E)"
proof (unfold_locales, goal_cases)
  case (1 s e)
  from reg_poll_failed [OF this] show ?case
    by (cases s) (simp add: on_reg_def ready_poll_def)
next
  case (2 s)
  from reg_poll_ok [OF 2(1,2), of "\<lambda>_. id" b "Some t" d] 2(3) show ?case
    by (cases s) (fastforce simp: on_reg_def ready_poll_def load_dir_def load_read_def load_write_def
        split: Direction.splits)
next
  case (3 s)
  from reg_poll_ok [OF 3(1,2), of "\<lambda>_. id" b "Some t" d] 3(3) show ?case
    by (cases s) (fastforce simp: on_reg_def ready_poll_def load_dir_def load_read_def load_write_def
        split: Direction.splits)
next
  case (4 s e)
  from reg_poll_failed [OF this] show ?case by (cases s) (simp add: on_reg_def)
next
  case (5 s)
  from reg_poll_ok [OF 5, of "\<lambda>_. id" b' None d] show ?case
    by (cases s) (fastforce simp: on_reg_def load_dir_def load_read_def load_write_def split: Direction.splits)
qed (simp_all add: store_dir_fields)

interpretation rd: readiness_stream
  "on_reg (Registration_poll_read_ready E b t)" "on_reg (Registration_take_read_ready E)"
  load_read store_read "pe_good E" pe_failed "pe_vis E Read" "pe_parked E Read t" pe_keep "platform_hup E" for E b t
  using reg_stream [of E b t Read "(0, 0)"]
  by (simp add: Registration_poll_read_ready_def Registration_take_read_ready_def load_dir_def store_dir_def)

interpretation wr: readiness_stream
  "on_reg (Registration_poll_write_ready E b t)" "on_reg (Registration_take_write_ready E)"
  load_write store_write "pe_good E" pe_failed "pe_vis E Write" "pe_parked E Write t" pe_keep "platform_hup E" for E b t
  using reg_stream [of E b t Write "(0, 0)"]
  by (simp add: Registration_poll_write_ready_def Registration_take_write_ready_def load_dir_def store_dir_def)

section \<open>Cached readiness\<close>

lemma hup_in_mask: "platform_hup E AND (b OR platform_hup E) = platform_hup E"
  by (auto simp: bit_eq_iff bit_simps)

text \<open>On a registered resource \<^verbatim>\<open>register\<close> does nothing.\<close>

lemma register_noop: "pe_good E x \<Longrightarrow> PollEvented_register E al x = (Ret (Inr ()), x)"
  by (cases x) (auto simp: pe_good_def PollEvented_register_def PollEvented_get_ref_def on_reg_def
      Registration_register_def register2_def READY_def INIT_def op_simps)

lemma poll_read_ready_eq:
  "poll_read_ready E al t = try_pollio (PollEvented_register E al) (\<lambda>_.
     poll_cached (on_reg (Registration_poll_read_ready E (node_at al) t))
       (on_reg (Registration_take_read_ready E)) load_read store_read
       (readable E) (readable E OR platform_hup E))"
  by (simp add: poll_read_ready_def poll_read_ready_with_def)

lemma poll_write_ready_eq:
  "poll_write_ready E al t = try_pollio (PollEvented_register E al) (\<lambda>_.
     poll_cached (on_reg (Registration_poll_write_ready E (node_at al) t))
       (on_reg (Registration_take_write_ready E)) load_write store_write
       (writable E) (writable E OR platform_hup E))"
  by (simp add: poll_write_ready_def poll_write_ready_with_def)

lemma poll_read_ready_good:
  "pe_good E x \<Longrightarrow> poll_read_ready E al t x =
     poll_cached (on_reg (Registration_poll_read_ready E (node_at al) t))
       (on_reg (Registration_take_read_ready E)) load_read store_read
       (readable E) (readable E OR platform_hup E) x"
  by (simp add: poll_read_ready_eq op_simps register_noop)

lemma poll_write_ready_good:
  "pe_good E x \<Longrightarrow> poll_write_ready E al t x =
     poll_cached (on_reg (Registration_poll_write_ready E (node_at al) t))
       (on_reg (Registration_take_write_ready E)) load_write store_write
       (writable E) (writable E OR platform_hup E) x"
  by (simp add: poll_write_ready_eq op_simps register_noop)

lemma read_spec:
  assumes "pe_good E x" and "pe_failed x = None"
  shows "\<exists>x'. pe_good E x' \<and> pe_failed x' = None \<and> pe_vis E Read x' = pe_vis E Read x AND platform_hup E \<and>
    pe_keep x' = pe_keep x \<and>
    (if load_read x AND readable E \<noteq> 0
     then poll_read_ready E al t x = (Ret (Ready (Inr (load_read x OR pe_vis E Read x))), x') \<and>
       load_read x' = load_read x OR pe_vis E Read x
     else if pe_vis E Read x AND (readable E OR platform_hup E) \<noteq> 0
     then poll_read_ready E al t x = (Ret (Ready (Inr (pe_vis E Read x AND (readable E OR platform_hup E)))), x') \<and>
       load_read x' = load_read x OR pe_vis E Read x
     else poll_read_ready E al t x = (Ret Pending, x') \<and> pe_parked E Read t x' \<and>
       load_read x' = load_read x OR pe_vis E Read x)"
  unfolding poll_read_ready_good [OF assms(1)] by (rule rd.poll_cached_spec [OF assms hup_in_mask])

lemma write_spec:
  assumes "pe_good E x" and "pe_failed x = None"
  shows "\<exists>x'. pe_good E x' \<and> pe_failed x' = None \<and> pe_vis E Write x' = pe_vis E Write x AND platform_hup E \<and>
    pe_keep x' = pe_keep x \<and>
    (if load_write x AND writable E \<noteq> 0
     then poll_write_ready E al t x = (Ret (Ready (Inr (load_write x OR pe_vis E Write x))), x') \<and>
       load_write x' = load_write x OR pe_vis E Write x
     else if pe_vis E Write x AND (writable E OR platform_hup E) \<noteq> 0
     then poll_write_ready E al t x = (Ret (Ready (Inr (pe_vis E Write x AND (writable E OR platform_hup E)))), x') \<and>
       load_write x' = load_write x OR pe_vis E Write x
     else poll_write_ready E al t x = (Ret Pending, x') \<and> pe_parked E Write t x' \<and>
       load_write x' = load_write x OR pe_vis E Write x)"
  unfolding poll_write_ready_good [OF assms(1)] by (rule wr.poll_cached_spec [OF assms hup_in_mask])

context readiness_stream
begin

text \<open>Readiness is level-triggered: what was reported once is reported again until it is cleared.\<close>

lemma poll_cached_sticky:
  assumes "good s" and "failed s = None" and "hup AND m = hup" and "m = b OR hup"
    and "poll_cached poll_ready take_ready load store b m s = (Ret (Ready (Inr v)), s')"
  shows "\<exists>v' s''. poll_cached poll_ready take_ready load store b m s' = (Ret (Ready (Inr v')), s'') \<and> v AND v' = v"
proof -
  from poll_cached_spec [OF assms(1-3), of b] assms(5) have s': "good s'" "failed s' = None"
    "vis s' = vis s AND hup" "load s' = load s OR vis s" and hit: "load s AND b \<noteq> 0 \<or> vis s AND m \<noteq> 0"
    and v: "v = (if load s AND b \<noteq> 0 then load s OR vis s else vis s AND m)"
    by (auto split: if_splits)
  show ?thesis
  proof (cases "load s' AND b = 0")
    case False
    moreover have "v AND (load s' OR vis s') = v" unfolding v s'(3,4) by (auto simp: bit_eq_iff bit_simps)
    ultimately show ?thesis using poll_cached_spec [OF s'(1,2) assms(3), of b] by auto
  next
    case True
    then have none: "load s AND b = 0" "vis s AND b = 0" unfolding s'(4) by (auto simp: bit_eq_iff bit_simps)
    then have same: "vis s' AND m = v" unfolding v s'(3) assms(4) by (auto simp: bit_eq_iff bit_simps)
    with hit none(1) have "vis s' AND m \<noteq> 0" by (simp add: v)
    with True same show ?thesis using poll_cached_spec [OF s'(1,2) assms(3), of b] by auto
  qed
qed

end

section \<open>The contract of a non-blocking call\<close>

text \<open>
  \<open>ready\<close> waits for readiness and parks the task when there is none; \<open>clear\<close> gives the readiness back, after
  which the task is parked or has been woken.
\<close>

locale nonblocking =
  fixes ready :: "('s, usize io_result poll) op" and clear :: "('s, unit io_result) op"
    and good :: "'s \<Rightarrow> bool" and parked :: "'s \<Rightarrow> bool" and log :: "'s \<Rightarrow> task list" and t :: task
  assumes ready_ok: "good s \<Longrightarrow>
      \<exists>r s'. ready s = (Ret r, s') \<and> good s' \<and> log s' = log s \<and> (r = Pending \<longrightarrow> parked s') \<and>
        (\<forall>e. r = Ready (Inl e) \<longrightarrow> kind e \<noteq> WouldBlock)"
    and clear_ok: "good s \<Longrightarrow>
      \<exists>r s'. clear s = (Ret r, s') \<and> good s' \<and>
        (case r of Inl e \<Rightarrow> log s' = log s \<and> kind e \<noteq> WouldBlock
         | Inr _ \<Rightarrow> log s' = log s @ [t] \<or> log s' = log s \<and> parked s')"
begin

lemma attempt_ok:
  assumes "good s" and call: "\<And>s. good s \<Longrightarrow> \<exists>r s'. call s = (Ret r, s') \<and> good s' \<and> log s' = log s"
  shows "\<exists>r s'. attempt ready clear call s = (Ret r, s') \<and> good s' \<and>
    (r = Pending \<longrightarrow> parked s' \<or> log s' = log s @ [t]) \<and> (\<forall>e. r = Ready (Inl e) \<longrightarrow> kind e \<noteq> WouldBlock)"
proof -
  obtain p s1 where p: "ready s = (Ret p, s1)" "good s1" "log s1 = log s" "p = Pending \<longrightarrow> parked s1"
    "\<forall>e. p = Ready (Inl e) \<longrightarrow> kind e \<noteq> WouldBlock"
    using ready_ok [OF assms(1)] by blast
  show ?thesis
  proof (cases p)
    case Pending
    with p show ?thesis by (simp add: attempt_def op_simps)
  next
    case (Ready r)
    show ?thesis
    proof (cases r)
      case (Inl e)
      with p Ready show ?thesis by (simp add: attempt_def op_simps)
    next
      case (Inr v)
      obtain q s2 where q: "call s1 = (Ret q, s2)" "good s2" "log s2 = log s1" using call [OF p(2)] by blast
      obtain c s3 where c: "clear s2 = (Ret c, s3)" "good s3"
        "case c of Inl e \<Rightarrow> log s3 = log s2 \<and> kind e \<noteq> WouldBlock | Inr _ \<Rightarrow> log s3 = log s2 @ [t] \<or> log s3 = log s2 \<and> parked s3"
        using clear_ok [OF q(2)] by blast
      show ?thesis
        using p q c Ready Inr
        by (cases "is_wouldblock q"; cases c)
          (auto simp: attempt_def op_simps is_wouldblock_def split: sum.splits)
    qed
  qed
qed

text \<open>The outcome when the resource is ready: the call's own result, except that \<^verbatim>\<open>WouldBlock\<close> becomes \<^verbatim>\<open>Pending\<close>.\<close>

lemma attempt_result:
  assumes "ready s = (Ret (Ready (Inr v)), s1)" and "call s1 = (Ret q, s2)" and "\<not> is_wouldblock q"
  shows "attempt ready clear call s = (Ret (Ready q), s2)"
  using assms by (simp add: attempt_def op_simps)

end

lemma failed_kind: "pe_failed x = Some e \<Longrightarrow> kind e \<noteq> WouldBlock"
  by (auto simp: pe_failed_def split: option.splits if_splits)

lemma read_ready_ok:
  assumes "pe_good E x"
  shows "\<exists>r x'. poll_read_ready E al t x = (Ret r, x') \<and> pe_good E x' \<and> woken (snd x') = woken (snd x) \<and>
    (r = Pending \<longrightarrow> pe_parked E Read t x') \<and> (\<forall>e. r = Ready (Inl e) \<longrightarrow> kind e \<noteq> WouldBlock)"
proof (cases "pe_failed x")
  case None
  then show ?thesis
    using read_spec [OF assms None, of al t] by (auto split: if_splits)
next
  case (Some e)
  then show ?thesis
    using rd.poll_cached_failed [OF assms Some] assms failed_kind [OF Some] by (simp add: poll_read_ready_good)
qed

lemma write_ready_ok:
  assumes "pe_good E x"
  shows "\<exists>r x'. poll_write_ready E al t x = (Ret r, x') \<and> pe_good E x' \<and> woken (snd x') = woken (snd x) \<and>
    (r = Pending \<longrightarrow> pe_parked E Write t x') \<and> (\<forall>e. r = Ready (Inl e) \<longrightarrow> kind e \<noteq> WouldBlock)"
proof (cases "pe_failed x")
  case None
  then show ?thesis
    using write_spec [OF assms None, of al t] by (auto split: if_splits)
next
  case (Some e)
  then show ?thesis
    using wr.poll_cached_failed [OF assms Some] assms failed_kind [OF Some] by (simp add: poll_write_ready_good)
qed

lemma wake_by_ref_fields [simp]:
  "wake_by_ref t x = (Ret (), (fst x, (snd x)\<lparr>woken := woken (snd x) @ [t]\<rparr>))"
  by (cases x) (simp add: wake_by_ref_def)

lemma same_inners:
  assumes "inners s' = inners s"
  shows "pe_failed (pe, s') = pe_failed (pe, s)" and "associated E r s' i inn io = associated E r s i inn io"
    and "pe_entry E (pe, s') = pe_entry E (pe, s)" and "pe_good E (pe, s') = pe_good E (pe, s)"
proof -
  show 1: "pe_failed (pe, s') = pe_failed (pe, s)" and "pe_entry E (pe, s') = pe_entry E (pe, s)"
    by (simp_all add: pe_failed_def pe_entry_def assms split: option.split)
  show 2: "associated E r s' i inn io = associated E r s i inn io" for r i inn io
    by (simp add: associated_def assms)
  show "pe_good E (pe, s') = pe_good E (pe, s)" by (simp add: pe_good_def 1 2)
qed

lemma good_woken [simp]: "pe_good E (pe, s\<lparr>woken := ws\<rparr>) = pe_good E (pe, s)"
  by (rule same_inners) simp

lemma good_world [simp]: "pe_good E (pe, s\<lparr>world := w\<rparr>) = pe_good E (pe, s)"
  by (rule same_inners) simp

lemma clear_then_poll_ok:
  assumes "\<exists>r x'. poll_again x = (Ret r, x') \<and> pe_good E x' \<and> woken (snd x') = woken (snd x) \<and>
    (r = Pending \<longrightarrow> parked x') \<and> (\<forall>e. r = Ready (Inl e) \<longrightarrow> kind e \<noteq> WouldBlock)"
  shows "\<exists>r x'. clear_then_poll t poll_again x = (Ret r, x') \<and> pe_good E x' \<and>
    (case r of Inl e \<Rightarrow> woken (snd x') = woken (snd x) \<and> kind e \<noteq> WouldBlock
     | Inr _ \<Rightarrow> woken (snd x') = woken (snd x) @ [t] \<or> woken (snd x') = woken (snd x) \<and> parked x')"
proof -
  from assms obtain r x' where r: "poll_again x = (Ret r, x')" "pe_good E x'" "woken (snd x') = woken (snd x)"
    "r = Pending \<longrightarrow> parked x'" "\<forall>e. r = Ready (Inl e) \<longrightarrow> kind e \<noteq> WouldBlock" by blast
  show ?thesis
  proof (cases r)
    case Pending
    with r show ?thesis by (auto simp: clear_then_poll_def)
  next
    case (Ready q)
    with r show ?thesis by (cases q; cases x') (auto simp: clear_then_poll_def)
  qed
qed

lemma store_read_dir: "store_read = store_dir Read" and store_write_dir: "store_write = store_dir Write"
  by (simp_all add: store_dir_def)

interpretation read_io: nonblocking
  "poll_read_ready E al t" "clear_read_ready E al t" "pe_good E" "pe_parked E Read t" "\<lambda>x. woken (snd x)" t
  for E al t
proof (unfold_locales, goal_cases)
  case (1 s)
  then show ?case by (rule read_ready_ok)
next
  case (2 s)
  let ?s = "store_read (load_read s AND NOT (readable E)) s"
  have good: "pe_good E ?s" and same: "woken (snd ?s) = woken (snd s)"
    using 2 by (simp_all add: store_read_dir store_dir_fields)
  from clear_then_poll_ok [where poll_again = "poll_read_ready E al t" and E = E and
      parked = "pe_parked E Read t" and t = t, OF read_ready_ok [OF good]]
  show ?case unfolding clear_read_ready_def same .
qed

interpretation write_io: nonblocking
  "poll_write_ready E al t" "clear_write_ready E al t" "pe_good E" "pe_parked E Write t" "\<lambda>x. woken (snd x)" t
  for E al t
proof (unfold_locales, goal_cases)
  case (1 s)
  then show ?case by (rule write_ready_ok)
next
  case (2 s)
  let ?s = "store_write (load_write s AND NOT (writable E)) s"
  have good: "pe_good E ?s" and same: "woken (snd ?s) = woken (snd s)"
    using 2 by (simp_all add: store_write_dir store_dir_fields)
  from clear_then_poll_ok [where poll_again = "poll_write_ready E al t" and E = E and
      parked = "pe_parked E Write t" and t = t, OF write_ready_ok [OF good]]
  show ?case unfolding clear_write_ready_def same .
qed

lemma sys_call_ok:
  assumes "pe_good E x"
  shows "\<exists>r x'. sys_call f x = (Ret r, x') \<and> pe_good E x' \<and> woken (snd x') = woken (snd x)"
proof -
  obtain pe s io where x: "x = (pe, s)" "pe_io pe = Some io" using assms by (cases x) (auto simp: pe_good_def)
  obtain r w where "f io (world s) = (r, w)" by fastforce
  with x assms show ?thesis by (auto simp: sys_call_def PollEvented_get_mut_def)
qed
section \<open>Properties\<close>

lemma pe_hup_good: "pe_good (std_ext []) pe_hup" and pe_hup_ok: "pe_failed pe_hup = None"
proof -
  have A: "associated (std_ext []) (registration (fst pe_hup)) (snd pe_hup)
     \<lparr>handle = \<lparr>hp_inner = 16\<rparr>, token = 0\<rparr> (inner1\<lparr>io_dispatch := [Some io_hup]\<rparr>) io_hup"
    using sys_hup_associated by (simp add: pe_hup_def)
  show "pe_failed pe_hup = None" by (rule associated_entry(2) [OF A])
  show "pe_good (std_ext []) pe_hup"
    unfolding pe_good_def using A by (auto simp: std_ext_ok pe_hup_def reg0_def)
qed

text \<open>What was reported once is reported again: the cache keeps it after the stream was consumed.\<close>

lemma readiness_sticks:
  assumes "pe_good E x" and "pe_failed x = None"
  shows "(\<forall>v x'. poll_read_ready E al t x = (Ret (Ready (Inr v)), x') \<longrightarrow>
      (\<exists>v' x''. poll_read_ready E al t x' = (Ret (Ready (Inr v')), x'') \<and> v AND v' = v)) \<and>
    (\<forall>v x'. poll_write_ready E al t x = (Ret (Ready (Inr v)), x') \<longrightarrow>
      (\<exists>v' x''. poll_write_ready E al t x' = (Ret (Ready (Inr v')), x'') \<and> v AND v' = v))"
proof (intro conjI allI impI)
  fix v x'
  assume run: "poll_read_ready E al t x = (Ret (Ready (Inr v)), x')"
  then have "pe_good E x'" using read_ready_ok [OF assms(1), of al t] by auto
  then show "\<exists>v' x''. poll_read_ready E al t x' = (Ret (Ready (Inr v')), x'') \<and> v AND v' = v"
    using rd.poll_cached_sticky [OF assms hup_in_mask refl run [unfolded poll_read_ready_good [OF assms(1)]]]
    by (simp add: poll_read_ready_good)
next
  fix v x'
  assume run: "poll_write_ready E al t x = (Ret (Ready (Inr v)), x')"
  then have "pe_good E x'" using write_ready_ok [OF assms(1), of al t] by auto
  then show "\<exists>v' x''. poll_write_ready E al t x' = (Ret (Ready (Inr v')), x'') \<and> v AND v' = v"
    using wr.poll_cached_sticky [OF assms hup_in_mask refl run [unfolded poll_write_ready_good [OF assms(1)]]]
    by (simp add: poll_write_ready_good)
qed

lemma pe_hup_bits: "pe_vis (std_ext []) Read pe_hup = 9" "load_read pe_hup = 0" "readable (std_ext []) = 1"
  "platform_hup (std_ext []) = 8" "cfg_unix (std_ext [])"
  by (simp_all add: pe_vis_def pe_entry_def pe_hup_def sys_hup_def reg0_def visible_def io_hup_def Direction_mask_def
      std_ext_def ls_get_def load_read_def platform_hup_def)

lemma pe_hup_poll: "\<exists>x'. poll_read_ready (std_ext []) alloc0 5 pe_hup = (Ret (Ready (Inr 9)), x')"
  using read_spec [OF pe_hup_good pe_hup_ok, of alloc0 5] by (auto simp: pe_hup_bits)

lemma clear_read_bits:
  assumes "pe_good E x" and "pe_failed x = None"
  defines "y \<equiv> store_read (load_read x AND NOT (readable E)) x"
  shows "pe_good E y" "pe_failed y = None" "pe_vis E Read y = pe_vis E Read x"
    "woken (snd y) = woken (snd x)" "load_read y AND readable E = 0"
proof -
  have "load_read y = load_read x AND NOT (readable E)"
    by (simp add: y_def load_read_def store_read_def split: prod.split)
  then show "load_read y AND readable E = 0" by simp
qed (use assms in \<open>simp_all add: y_def store_read_dir store_dir_fields\<close>)

lemma clear_read_ready_rearms:
  assumes "pe_good E x" and "pe_failed x = None"
  shows "\<exists>x'. clear_read_ready E al t x = (Ret (Inr ()), x') \<and> pe_good E x' \<and>
    (if pe_vis E Read x AND (readable E OR platform_hup E) = 0
     then pe_parked E Read t x' \<and> woken (snd x') = woken (snd x)
     else woken (snd x') = woken (snd x) @ [t])"
proof -
  let ?y = "store_read (load_read x AND NOT (readable E)) x"
  note y = clear_read_bits [OF assms]
  from read_spec [OF y(1,2), of al t] y(3-5) show ?thesis
    by (cases "pe_vis E Read x AND (readable E OR platform_hup E) = 0")
      (auto simp: clear_read_ready_def clear_then_poll_def)
qed

text \<open>C31: cached readiness is level-triggered: once \<^verbatim>\<open>poll_read_ready\<close> or \<^verbatim>\<open>poll_write_ready\<close> has reported readiness,
  the next call in the same direction reports at least the same bits again, although the registration's stream has been
  consumed in the meantime. \<^verbatim>\<open>clear_read_ready\<close> gives the readiness back without losing an event: if the stream shows
  neither \<^verbatim>\<open>readable\<close> nor \<^verbatim>\<open>hup\<close>, the task is parked and nobody is woken; if it shows one of them, be it a new event or
  a \<^verbatim>\<open>hup\<close> seen before, the task is woken at once.\<close>

theorem readiness_is_level_triggered:
  assumes "pe_good E x" and "pe_failed x = None"
  shows "(\<forall>v x'. poll_read_ready E al t x = (Ret (Ready (Inr v)), x') \<longrightarrow>
      (\<exists>v' x''. poll_read_ready E al t x' = (Ret (Ready (Inr v')), x'') \<and> v AND v' = v)) \<and>
    (\<forall>v x'. poll_write_ready E al t x = (Ret (Ready (Inr v)), x') \<longrightarrow>
      (\<exists>v' x''. poll_write_ready E al t x' = (Ret (Ready (Inr v')), x'') \<and> v AND v' = v)) \<and>
    (\<exists>x'. clear_read_ready E al t x = (Ret (Inr ()), x') \<and> pe_good E x' \<and>
      (if pe_vis E Read x AND (readable E OR platform_hup E) = 0
       then pe_parked E Read t x' \<and> woken (snd x') = woken (snd x)
       else woken (snd x') = woken (snd x) @ [t]))"
  using readiness_sticks [OF assms, of al t] clear_read_ready_rearms [OF assms, of al t] by blast

theorem readiness_is_level_triggered_witness:
  "\<exists>v x' y. poll_read_ready (std_ext []) alloc0 5 pe_hup = (Ret (Ready (Inr 9)), x') \<and>
     (\<exists>x''. poll_read_ready (std_ext []) alloc0 5 x' = (Ret (Ready (Inr v)), x'')) \<and> 9 AND v = 9 \<and>
     clear_read_ready (std_ext []) alloc0 5 pe_hup = (Ret (Inr ()), y)"
  using readiness_is_level_triggered [OF pe_hup_good pe_hup_ok, of alloc0 5] pe_hup_poll by blast

text \<open>The documentation of \<^verbatim>\<open>clear_read_ready\<close> says that \<^verbatim>\<open>poll_read_ready\<close> then returns \<^verbatim>\<open>NotReady\<close> until a new
  event has been received. Once the peer has hung up this is not so: readiness is reported again at once,
  with no event in between.\<close>

lemma clear_read_ready_keeps_hup:
  assumes "pe_good E x" and "pe_failed x = None" and "pe_vis E Read x AND platform_hup E \<noteq> 0"
  shows "\<exists>x' v x''. clear_read_ready E al t x = (Ret (Inr ()), x') \<and>
    poll_read_ready E al t x' = (Ret (Ready (Inr v)), x'')"
proof -
  let ?y = "store_read (load_read x AND NOT (readable E)) x"
  note y = clear_read_bits [OF assms(1,2)]
  have hit: "pe_vis E Read x AND (readable E OR platform_hup E) \<noteq> 0" using assms(3) by (simp add: and_or_nonzero)
  from read_spec [OF y(1,2), of al t] y(3-5) hit obtain z v where
    z: "poll_read_ready E al t ?y = (Ret (Ready (Inr v)), z)" "pe_good E z" "pe_failed z = None"
    "pe_vis E Read z = pe_vis E Read x AND platform_hup E" by auto
  let ?z = "(fst z, (snd z)\<lparr>woken := woken (snd z) @ [t]\<rparr>)"
  have run: "clear_read_ready E al t x = (Ret (Inr ()), ?z)"
    using z(1) by (simp add: clear_read_ready_def clear_then_poll_def)
  have same: "pe_entry E ?z = pe_entry E z" "pe_failed ?z = pe_failed z"
    using same_inners(1) [of "(snd z)\<lparr>woken := woken (snd z) @ [t]\<rparr>" "snd z" "fst z"]
      same_inners(3) [of "(snd z)\<lparr>woken := woken (snd z) @ [t]\<rparr>" "snd z" E "fst z"] by simp_all
  then have "pe_vis E Read ?z AND (readable E OR platform_hup E) \<noteq> 0"
    using z(4) assms(3) by (simp add: pe_vis_def and_or_nonzero)
  with read_spec [of E ?z al t] z(2,3) same(2) run show ?thesis by (auto split: if_splits)
qed

text \<open>C33: reading, writing and flushing a registered resource never loses the caller: the call returns, it never
  reports \<^verbatim>\<open>WouldBlock\<close>, and when it returns \<^verbatim>\<open>Pending\<close> the calling task is parked in the waker cell of its direction
  or has just been woken. This holds for every behaviour of the system calls.\<close>

theorem async_io_never_lost:
  assumes "pe_good E x"
  shows "(\<exists>r x'. PollEvented_poll_read E al sys_read t buf x = (Ret r, x') \<and> pe_good E x' \<and>
      (r = Pending \<longrightarrow> pe_parked E Read t x' \<or> woken (snd x') = woken (snd x) @ [t]) \<and>
      (\<forall>e. r = Ready (Inl e) \<longrightarrow> kind e \<noteq> WouldBlock)) \<and>
    (\<exists>r x'. PollEvented_poll_write E al sys_write t wbuf x = (Ret r, x') \<and> pe_good E x' \<and>
      (r = Pending \<longrightarrow> pe_parked E Write t x' \<or> woken (snd x') = woken (snd x) @ [t]) \<and>
      (\<forall>e. r = Ready (Inl e) \<longrightarrow> kind e \<noteq> WouldBlock)) \<and>
    (\<exists>r x'. PollEvented_poll_flush E al sys_flush t x = (Ret r, x') \<and> pe_good E x' \<and>
      (r = Pending \<longrightarrow> pe_parked E Write t x' \<or> woken (snd x') = woken (snd x) @ [t]) \<and>
      (\<forall>e. r = Ready (Inl e) \<longrightarrow> kind e \<noteq> WouldBlock))"
  unfolding PollEvented_poll_read_def PollEvented_poll_write_def PollEvented_poll_flush_def
  by (intro conjI read_io.attempt_ok write_io.attempt_ok assms sys_call_ok)

theorem async_io_never_lost_witness:
  "\<exists>r x'. PollEvented_poll_read (std_ext []) alloc0 (\<lambda>io buf w. (Inl (IoError WouldBlock ''again''), w)) 5 [0] pe_hup
     = (Ret r, x') \<and> pe_good (std_ext []) x'"
  using async_io_never_lost [OF pe_hup_good] by blast

text \<open>A resource registers itself when it is first polled.\<close>

lemma first_register:
  assumes "ext_ok E" and "try_current E (new_arc al) s = (Ret (Inr h), s1)" and "inners s1 (hp_inner h) = Some inn"
    and "inner_ok E inn" and "add_source E io inn (world s1) = (Inr k, inn', w)"
  defines "pe \<equiv> (PollEvented_new io)\<lparr>registration :=
      \<lparr>reg_inner = Some \<lparr>handle = h, token = k\<rparr>, reg_state = READY, boxes = []\<rparr>\<rparr>"
    and "s2 \<equiv> s1\<lparr>inners := (inners s1)(hp_inner h \<mapsto> inn'), world := w\<rparr>"
    and "io2 \<equiv> \<lparr>aba_guard = next_aba_guard inn, readiness = 0, reader = aw_new E, writer = aw_new E\<rparr>"
  shows "PollEvented_register E al (PollEvented_new io, s) = (Ret (Inr ()), (pe, s2))"
    and "associated E (registration pe) s2 \<lparr>handle = h, token = k\<rparr> inn' io2" and "pe_good E (pe, s2)"
    and "pe_failed (pe, s2) = None" and "pe_vis E d (pe, s2) = 0"
proof -
  note run = register_run [where f = "try_current E (new_arc al)" and s = s, OF assms(1-5)]
    and new = RegInner_new_ok [OF assms(1,3-5)]
  show "PollEvented_register E al (PollEvented_new io, s) = (Ret (Inr ()), (pe, s2))"
    using run
    by (simp add: PollEvented_register_def PollEvented_get_ref_def PollEvented_new_def on_reg_def op_simps
        Registration_register_def pe_def s2_def)
  show A: "associated E (registration pe) s2 \<lparr>handle = h, token = k\<rparr> inn' io2"
    using new by (simp add: associated_def pe_def s2_def io2_def)
  then have A2: "associated E (registration (fst (pe, s2))) (snd (pe, s2)) \<lparr>handle = h, token = k\<rparr> inn' io2" by simp
  note e = associated_entry [OF A2]
  show "pe_failed (pe, s2) = None" by (rule e(2))
  show "pe_vis E d (pe, s2) = 0" by (simp add: pe_vis_def e(1) visible_def io2_def)
  show "pe_good E (pe, s2)"
    unfolding pe_good_def using A assms(1) by (auto simp: pe_def PollEvented_new_def)
qed

lemma first_poll:
  assumes "ext_ok E" and "try_current E (new_arc al) s = (Ret (Inr h), s1)" and "inners s1 (hp_inner h) = Some inn"
    and "inner_ok E inn" and "add_source E io inn (world s1) = (Inr k, inn', w)"
  shows "\<exists>x. poll_read_ready E al t (PollEvented_new io, s) = (Ret Pending, x) \<and> pe_good E x \<and>
    pe_failed x = None \<and> pe_parked E Read t x \<and> woken (snd x) = woken s1 \<and>
    reg_inner (registration (fst x)) = Some \<lparr>handle = h, token = k\<rparr>"
proof -
  let ?pe = "(PollEvented_new io)\<lparr>registration :=
      \<lparr>reg_inner = Some \<lparr>handle = h, token = k\<rparr>, reg_state = READY, boxes = []\<rparr>\<rparr>"
  let ?s2 = "s1\<lparr>inners := (inners s1)(hp_inner h \<mapsto> inn'), world := w\<rparr>"
  note first = first_register [OF assms]
  have load: "load_read (?pe, ?s2) = 0" by (simp add: load_read_def PollEvented_new_def)
  have run: "poll_read_ready E al t (PollEvented_new io, s) = poll_read_ready E al t (?pe, ?s2)"
    using first(1) register_noop [OF first(3), of al] by (simp add: poll_read_ready_eq op_simps)
  from read_spec [OF first(3,4), of al t] load first(5) [of Read] obtain x where
    x: "poll_read_ready E al t (?pe, ?s2) = (Ret Pending, x)" "pe_good E x" "pe_failed x = None"
    "pe_parked E Read t x" "woken (snd x) = woken s1" "registration (fst x) = registration ?pe" by auto
  with run show ?thesis by auto
qed

text \<open>C34: an unregistered resource registers itself: the first \<^verbatim>\<open>poll_read_ready\<close> finds the current reactor and adds
  the source to it. From then on the reactor's thread may deliver events, also before the poll looks at the readiness:
  let it process \<open>evs\<close> in between. If some of them have the new source's token and are visible to readers, as \<^verbatim>\<open>readable\<close> or
  \<^verbatim>\<open>hup\<close>, the first poll returns \<^verbatim>\<open>Ready\<close> with exactly these bits; otherwise, in particular if nothing arrives, it
  parks the task and returns \<^verbatim>\<open>Pending\<close>. The resource is registered and in a good state in either case.\<close>

theorem first_poll_registers:
  assumes "ext_ok E" and "try_current E (new_arc al) s = (Ret (Inr h), s1)" and "inners s1 (hp_inner h) = Some inn"
    and "inner_ok E inn" and "add_source E io inn (world s1) = (Inr k, inn', w)"
    and "\<And>p r w. fst (mio_set_readiness E p r w) = Inr ()"
    and "v = event_bits (next_aba_guard inn OR k) evs AND Direction_mask E Read AND (readable E OR platform_hup E)"
  shows "\<exists>x. poll_read_ready_with E al (\<lambda>s. snd (process_events E (hp_inner h) evs s)) t (PollEvented_new io, s) =
      (Ret (if v = 0 then Pending else Ready (Inr v)), x) \<and> pe_good E x \<and> pe_failed x = None \<and>
    (v = 0 \<longrightarrow> pe_parked E Read t x) \<and> reg_inner (registration (fst x)) = Some \<lparr>handle = h, token = k\<rparr>"
proof -
  let ?i = "\<lparr>handle = h, token = k\<rparr>"
  let ?pe = "(PollEvented_new io)\<lparr>registration := \<lparr>reg_inner = Some ?i, reg_state = READY, boxes = []\<rparr>\<rparr>"
  let ?s2 = "s1\<lparr>inners := (inners s1)(hp_inner h \<mapsto> inn'), world := w\<rparr>"
  let ?s3 = "snd (process_events E (hp_inner h) evs ?s2)"
  note first = first_register [OF assms(1-5)]
  let ?io = "\<lparr>aba_guard = next_aba_guard inn, readiness = 0, reader = aw_new E, writer = aw_new E\<rparr>"
  note A = first(2) [unfolded associated_def]
  have live: "inners ?s2 (hp_inner h) = Some inn'" "inner_ok E inn'" "sl_get E (io_dispatch inn') k = Some ?io"
    using A by simp_all
  obtain inn3 io3 where e: "inners ?s3 (hp_inner h) = Some inn3" "inner_ok E inn3" "sl_get E (io_dispatch inn3) k = Some io3"
    "readiness io3 = event_bits (next_aba_guard inn OR k) evs"
    using process_events_accumulates [OF assms(1,6) live, of evs] by auto
  have A3: "associated E (registration (fst (?pe, ?s3))) (snd (?pe, ?s3)) ?i inn3 io3"
    using A e(1-3) by (simp add: associated_def)
  note ent = associated_entry [OF A3]
  have good: "pe_good E (?pe, ?s3)" unfolding pe_good_def using A3 assms(1) by (auto simp: PollEvented_new_def)
  have "pe_vis E Read (?pe, ?s3) = Direction_mask E Read AND event_bits (next_aba_guard inn OR k) evs"
    unfolding pe_vis_def ent(1) by (simp add: visible_def e(4))
  then have vis: "pe_vis E Read (?pe, ?s3) AND (readable E OR platform_hup E) = v" by (simp add: assms(7) ac_simps)
  have load: "load_read (?pe, ?s3) = 0" by (simp add: load_read_def PollEvented_new_def)
  have "poll_read_ready_with E al (\<lambda>s. snd (process_events E (hp_inner h) evs s)) t (PollEvented_new io, s) =
      poll_read_ready E al t (?pe, ?s3)"
    using first(1) by (simp add: poll_read_ready_with_def op_simps poll_read_ready_good [OF good])
  with read_spec [OF good ent(2), of al t] vis load show ?thesis by (cases "v = 0") auto
qed

theorem first_poll_registers_witness:
  "(\<exists>x. poll_read_ready_with (std_ext []) alloc0 (\<lambda>s. snd (process_events (std_ext []) 16 [] s)) 5 (PollEvented_new 7, sys16) =
      (Ret Pending, x) \<and> pe_parked (std_ext []) Read 5 x) \<and>
   (\<exists>x. poll_read_ready_with (std_ext []) alloc0 (\<lambda>s. snd (process_events (std_ext []) 16 [(4194304, 1), (0, 1)] s)) 5
      (PollEvented_new 7, sys16) = (Ret (Ready (Inr 1)), x))"
proof -
  let ?E = "std_ext []"
  let ?s1 = "sys16\<lparr>weak := (\<lambda>_. 1)(16 := Suc 1)\<rparr>"
  have 1: "try_current ?E (new_arc alloc0) sys16 = (Ret (Inr \<lparr>hp_inner = 16\<rparr>), ?s1)"
    by (simp add: try_current_def sys16_def sys0_def HandlePriv_fallback_def fallback_reify_eq)
  have 2: "inners ?s1 (hp_inner \<lparr>hp_inner = 16\<rparr>) = Some inner0" by (simp add: sys16_def)
  have 3: "fst (mio_set_readiness ?E p r w) = Inr ()" for p r w by (simp add: std_ext_def)
  note claim = first_poll_registers [OF std_ext_ok 1 2 inner0_ok inner0_add 3 refl, of _ 5]
  have bits: "event_bits (next_aba_guard inner0 OR 0) [(4194304, 1), (0, 1)] AND Direction_mask ?E Read AND
      (readable ?E OR platform_hup ?E) = 1"
    by (simp add: inner0_def Direction_mask_def platform_hup_def std_ext_def)
  have hit: "\<exists>x. poll_read_ready_with ?E alloc0 (\<lambda>s. snd (process_events ?E 16 [(4194304, 1), (0, 1)] s)) 5
      (PollEvented_new 7, sys16) = (Ret (Ready (Inr 1)), x)"
    using claim [of "[(4194304, 1), (0, 1)]", unfolded bits] by (auto simp del: process_events.simps)
  have none: "\<exists>x. poll_read_ready_with ?E alloc0 (\<lambda>s. snd (process_events ?E 16 [] s)) 5 (PollEvented_new 7, sys16) =
      (Ret Pending, x) \<and> pe_parked ?E Read 5 x"
    using claim [of "[]"] by (auto simp del: process_events.simps)
  from none hit show ?thesis by (rule conjI)
qed

lemma drop_associated:
  assumes "ext_ok E" and "associated E (registration pe) s i inn io"
  shows "\<exists>t inn'. PollEvented_drop E pe s = (Ret (), t) \<and> inners t = (inners s)(hp_inner (handle i) \<mapsto> inn') \<and>
    inner_ok E inn' \<and> sl_get E (io_dispatch inn') = (sl_get E (io_dispatch inn))(token i := None) \<and>
    weak t = (weak s)(hp_inner (handle i) := weak s (hp_inner (handle i)) - 1) \<and> woken t = woken s"
proof -
  note A = assms(2) [unfolded associated_def]
  define s1 where "s1 = (case pe_io pe of None \<Rightarrow> s
        | Some io \<Rightarrow> snd (snd (Registration_deregister E io (registration pe, s))))"
  have s1: "inners s1 = inners s" "weak s1 = weak s" "woken s1 = woken s"
    using A by (auto simp: s1_def Registration_deregister_def RegInner_deregister_def HandlePriv_inner_def
        split: option.splits prod.splits)
  have live: "inner_ok E inn" "sl_get E (io_dispatch inn) (token i) = Some io" using A by blast+
  obtain inn' where d: "drop_source E (token i) inn = (Ret (), inn')" "inner_ok E inn'"
    "sl_get E (io_dispatch inn') = (sl_get E (io_dispatch inn))(token i := None)"
    by (rule drop_source_ok [OF assms(1) live])
  let ?t = "HandlePriv_drop (handle i) (s1\<lparr>inners := (inners s1)(hp_inner (handle i) \<mapsto> inn')\<rparr>)"
  have "PollEvented_drop E pe s = Registration_drop E (registration pe) s1"
    by (simp add: PollEvented_drop_def s1_def)
  also have "\<dots> = (Ret (), ?t)"
    using A d(1) s1(1) by (simp add: Registration_drop_def RegInner_drop_def HandlePriv_inner_def)
  finally show ?thesis
    using d(2,3) s1 by (intro exI [of _ ?t] exI [of _ inn']) (simp add: HandlePriv_drop_def)
qed

end
