(* ===== verification/Sockets.thy ===== *)
theory Sockets
  imports Poll_Evented
begin

text \<open>
  What the socket types share. A socket is a struct with the one field \<^verbatim>\<open>io: PollEvented<...>\<close>; the model
  identifies it with that field. The calls it forwards to mio are fields of a record per socket family, each
  a function of the resource and the world; nothing is assumed about them.
\<close>

type_synonym Ipv4Addr = "32 word"
type_synonym Ipv6Addr = "128 word"

text \<open>\<^verbatim>\<open>std::net::SocketAddr\<close>: address and port, for IPv6 also the flow information and the scope.\<close>

datatype SocketAddr = V4 Ipv4Addr "16 word" | V6 Ipv6Addr "16 word" u32 u32

datatype Shutdown_how = ShutRead | ShutWrite | ShutBoth

type_synonym Duration = nat

type_synonym ('w, 'a) mio_call = "fd \<Rightarrow> 'w \<Rightarrow> 'a io_result \<times> 'w"

text \<open>\<^verbatim>\<open>self.io.get_ref().f()\<close>\<close>

definition sys_ref :: "(fd \<Rightarrow> 'w \<Rightarrow> 'a \<times> 'w) \<Rightarrow> (('sl, 'w) pst, 'a) op" where
  "sys_ref f = bnd PollEvented_get_ref (\<lambda>io (pe, s).
     case f io (world s) of (r, w) \<Rightarrow> (Ret r, (pe, s\<lparr>world := w\<rparr>)))"

text \<open>The sockets' \<^verbatim>\<open>Debug\<close> output is that of the resource, \<open>fmt_io\<close>.\<close>

definition socket_fmt :: "(fd \<Rightarrow> string) \<Rightarrow> (('sl, 'w) pst, string) op" where
  "socket_fmt fmt_io = bnd PollEvented_get_ref (\<lambda>io. ret (fmt_io io))"

text \<open>A call that concerns no socket of ours yet: \<^verbatim>\<open>bind\<close>, \<^verbatim>\<open>connect\<close>, the conversion of an accepted socket.\<close>

definition world_call :: "('w \<Rightarrow> 'a \<times> 'w) \<Rightarrow> (('sl, 'w) pst, 'a) op" where
  "world_call f = (\<lambda>(pe, s). case f (world s) of (r, w) \<Rightarrow> (Ret r, (pe, s\<lparr>world := w\<rparr>)))"

text \<open>The attempt of a system call where the source matches on its result instead of using \<^verbatim>\<open>is_wouldblock\<close>.\<close>

definition attempt_match ::
  "('s, usize io_result poll) op \<Rightarrow> ('s, unit io_result) op \<Rightarrow> ('s, 'a io_result) op \<Rightarrow>
     ('s, 'a io_result poll) op" where
  "attempt_match ready clear call = ready_try ready (\<lambda>_. bnd call (\<lambda>r. case r of
       Inr v \<Rightarrow> ret (Ready (Inr v))
     | Inl e \<Rightarrow> if kind e = WouldBlock then try_pollio clear (\<lambda>_. ret Pending) else ret (Ready (Inl e))))"

text \<open>A local of socket type goes out of scope when the function returns \<open>r\<close>.\<close>

definition drop_and_return ::
  "('aw, 'sl, 'w) ext \<Rightarrow> PollEvented \<Rightarrow> 'a \<Rightarrow> ('sl, 'w) sys \<Rightarrow> 'a outcome \<times> ('sl, 'w) sys" where
  "drop_and_return E pe r s = bnd (PollEvented_drop E pe) (\<lambda>_. ret r) s"

text \<open>The states of a connecting socket's future, the same in both families.\<close>

datatype ConnectFutureState = Waiting PollEvented | Error io_error | Empty

text \<open>A call whose result carries the buffer it filled: the buffer goes to the caller's slice.\<close>

definition filled :: "byte list \<Rightarrow> ('a \<times> byte list) io_result poll outcome \<Rightarrow> 'a io_result poll outcome \<times> byte list" where
  "filled buf r = (case r of
      Ret (Ready (Inr (v, buf'))) \<Rightarrow> (Ret (Ready (Inr v)), buf')
    | Ret (Ready (Inl e)) \<Rightarrow> (Ret (Ready (Inl e)), buf)
    | Ret Pending \<Rightarrow> (Ret Pending, buf)
    | Panic m \<Rightarrow> (Panic m, buf)
    | OutOfFuel \<Rightarrow> (OutOfFuel, buf))"

section \<open>Lemmas\<close>

lemma attempt_match_eq: "attempt_match ready clear call = attempt ready clear call"
proof -
  have "(\<lambda>r. case r of Inr v \<Rightarrow> ret (Ready (Inr v))
     | Inl e \<Rightarrow> if kind e = WouldBlock then try_pollio clear (\<lambda>_. ret Pending) else ret (Ready (Inl e))) =
    (\<lambda>r. if is_wouldblock r then try_pollio clear (\<lambda>_. ret Pending) else ret (Ready r))"
    by (rule ext) (auto simp: is_wouldblock_def split: sum.split)
  from arg_cong [OF this, of "bnd call"] show ?thesis
    unfolding attempt_match_def attempt_def by (simp only:)
qed

lemma sys_ref_eq: "sys_ref f = sys_call f"
  by (simp add: sys_ref_def sys_call_def PollEvented_get_ref_def PollEvented_get_mut_def)

lemma socket_fmt_eq: "socket_fmt fmt_io = sys_ref (\<lambda>io w. (fmt_io io, w))"
  unfolding socket_fmt_def sys_ref_def
  by (rule arg_cong [of _ _ "bnd PollEvented_get_ref"]) (simp add: fun_eq_iff)

lemma sys_ref_ok:
  assumes "pe_good E x"
  shows "\<exists>r x'. sys_ref f x = (Ret r, x') \<and> pe_good E x' \<and> woken (snd x') = woken (snd x)"
  unfolding sys_ref_eq by (rule sys_call_ok [OF assms])

lemma world_call_ok:
  assumes "pe_good E x"
  shows "\<exists>r x'. world_call f x = (Ret r, x') \<and> pe_good E x' \<and> woken (snd x') = woken (snd x)"
  using assms by (cases x) (auto simp: world_call_def split: prod.split)

text \<open>An attempt followed by a step on its result, as in accepting.\<close>

lemma attempt_then:
  assumes "\<exists>r x'. m x = (Ret r, x') \<and> pe_good E x' \<and> (r = Pending \<longrightarrow> Q x')"
    and "\<And>v x. pe_good E x \<Longrightarrow> \<exists>r x'. k v x = (Ret (Ready r), x') \<and> pe_good E x'"
  shows "\<exists>r x'. ready_try m k x = (Ret r, x') \<and> pe_good E x' \<and> (r = Pending \<longrightarrow> Q x')"
proof -
  obtain r x1 where m: "m x = (Ret r, x1)" "pe_good E x1" "r = Pending \<longrightarrow> Q x1" using assms(1) by blast
  show ?thesis
  proof (cases r)
    case Pending
    with m show ?thesis by (simp add: op_simps)
  next
    case (Ready q)
    with m show ?thesis using assms(2) [OF m(2)] by (cases q) (fastforce simp: op_simps)+
  qed
qed

end
