(* ===== verification/Tcp.thy ===== *)
theory Tcp
  imports Sockets
begin

text \<open>
  \<^verbatim>\<open>src/tcp/listener.rs\<close> and \<^verbatim>\<open>src/tcp/stream.rs\<close>: listening, accepting, connecting and the stream operations,
  which go through \<^verbatim>\<open>PollEvented\<close>.
\<close>

section \<open>The calls of mio\<close>

record 'w tcp_ops =
  tl_bind :: "SocketAddr \<Rightarrow> 'w \<Rightarrow> fd io_result \<times> 'w"
  tl_from_std :: "fd \<Rightarrow> 'w \<Rightarrow> fd io_result \<times> 'w"
  tl_local_addr :: "('w, SocketAddr) mio_call"
  tl_ttl :: "('w, u32) mio_call"
  tl_set_ttl :: "u32 \<Rightarrow> ('w, unit) mio_call"
  tl_accept_std :: "('w, fd \<times> SocketAddr) mio_call"
  tl_as_raw_fd :: "fd \<Rightarrow> 'w \<Rightarrow> int \<times> 'w"
  ts_from_stream :: "fd \<Rightarrow> 'w \<Rightarrow> fd io_result \<times> 'w"
  ts_connect :: "SocketAddr \<Rightarrow> 'w \<Rightarrow> fd io_result \<times> 'w"
  ts_local_addr :: "('w, SocketAddr) mio_call"
  ts_peer_addr :: "('w, SocketAddr) mio_call"
  ts_shutdown :: "Shutdown_how \<Rightarrow> ('w, unit) mio_call"
  ts_nodelay :: "('w, bool) mio_call"
  ts_set_nodelay :: "bool \<Rightarrow> ('w, unit) mio_call"
  ts_recv_buffer_size :: "('w, usize) mio_call"
  ts_set_recv_buffer_size :: "usize \<Rightarrow> ('w, unit) mio_call"
  ts_send_buffer_size :: "('w, usize) mio_call"
  ts_set_send_buffer_size :: "usize \<Rightarrow> ('w, unit) mio_call"
  ts_keepalive :: "('w, Duration option) mio_call"
  ts_set_keepalive :: "Duration option \<Rightarrow> ('w, unit) mio_call"
  ts_ttl :: "('w, u32) mio_call"
  ts_set_ttl :: "u32 \<Rightarrow> ('w, unit) mio_call"
  ts_linger :: "('w, Duration option) mio_call"
  ts_set_linger :: "Duration option \<Rightarrow> ('w, unit) mio_call"
  ts_take_error :: "('w, io_error option) mio_call"
  ts_read :: "fd \<Rightarrow> byte list \<Rightarrow> 'w \<Rightarrow> (usize \<times> byte list) io_result \<times> 'w"
  ts_write :: "fd \<Rightarrow> byte list \<Rightarrow> 'w \<Rightarrow> usize io_result \<times> 'w"
  ts_flush :: "('w, unit) mio_call"
  ts_as_raw_fd :: "fd \<Rightarrow> 'w \<Rightarrow> int \<times> 'w"

section \<open>The listener\<close>

type_synonym TcpListener = PollEvented
type_synonym TcpStream = PollEvented

definition TcpListener_new :: "fd \<Rightarrow> TcpListener" where
  "TcpListener_new listener = PollEvented_new listener"

definition TcpStream_new :: "fd \<Rightarrow> TcpStream" where
  "TcpStream_new connected = PollEvented_new connected"

definition TcpListener_bind :: "'w tcp_ops \<Rightarrow> SocketAddr \<Rightarrow> 'w \<Rightarrow> TcpListener io_result \<times> 'w" where
  "TcpListener_bind N addr w = (case tl_bind N addr w of
      (Inl e, w') \<Rightarrow> (Inl e, w')
    | (Inr l, w') \<Rightarrow> (Inr (TcpListener_new l), w'))"

definition TcpListener_try_from :: "'w tcp_ops \<Rightarrow> fd \<Rightarrow> 'w \<Rightarrow> TcpListener io_result \<times> 'w" where
  "TcpListener_try_from N socket w = (case tl_from_std N socket w of
      (r, w') \<Rightarrow> (map_sum id TcpListener_new r, w'))"

definition TcpListener_local_addr :: "'w tcp_ops \<Rightarrow> (('sl, 'w) pst, SocketAddr io_result) op" where
  "TcpListener_local_addr N = sys_ref (tl_local_addr N)"

definition TcpListener_ttl :: "'w tcp_ops \<Rightarrow> (('sl, 'w) pst, u32 io_result) op" where
  "TcpListener_ttl N = sys_ref (tl_ttl N)"

definition TcpListener_set_ttl :: "'w tcp_ops \<Rightarrow> u32 \<Rightarrow> (('sl, 'w) pst, unit io_result) op" where
  "TcpListener_set_ttl N ttl = sys_ref (tl_set_ttl N ttl)"

definition TcpListener_fmt :: "(fd \<Rightarrow> string) \<Rightarrow> (('sl, 'w) pst, string) op" where
  "TcpListener_fmt fmt_io = socket_fmt fmt_io"

definition TcpListener_as_raw_fd :: "'w tcp_ops \<Rightarrow> (('sl, 'w) pst, int) op" where
  "TcpListener_as_raw_fd N = sys_ref (tl_as_raw_fd N)"

text \<open>The accepted socket is a standard one, not yet known to mio.\<close>

definition TcpListener_poll_accept_std ::
  "('aw, 'sl, 'w) ext \<Rightarrow> alloc \<Rightarrow> 'w tcp_ops \<Rightarrow> task \<Rightarrow> (('sl, 'w) pst, (fd \<times> SocketAddr) io_result poll) op" where
  "TcpListener_poll_accept_std E al N cx =
     attempt_match (poll_read_ready E al cx) (clear_read_ready E al cx) (sys_ref (tl_accept_std N))"

definition TcpListener_poll_ready ::
  "('aw, 'sl, 'w) ext \<Rightarrow> alloc \<Rightarrow> 'w tcp_ops \<Rightarrow> task \<Rightarrow>
     (('sl, 'w) pst, (TcpStream \<times> SocketAddr) io_result poll) op" where
  "TcpListener_poll_ready E al N cx = ready_try (TcpListener_poll_accept_std E al N cx) (\<lambda>(io, addr).
     try_pollio (world_call (ts_from_stream N io)) (\<lambda>io1.
       ret (Ready (Inr (TcpStream_new io1, addr)))))"

text \<open>\<^verbatim>\<open>Incoming\<close> borrows the listener; \<^verbatim>\<open>incoming\<close> only wraps the reference.\<close>

record Incoming =
  incoming_inner :: TcpListener

definition TcpListener_incoming :: "TcpListener \<Rightarrow> Incoming" where
  "TcpListener_incoming l = \<lparr>incoming_inner = l\<rparr>"

definition Incoming_poll_next ::
  "('aw, 'sl, 'w) ext \<Rightarrow> alloc \<Rightarrow> 'w tcp_ops \<Rightarrow> task \<Rightarrow>
     (Incoming \<times> ('sl, 'w) sys, TcpStream io_result option poll) op" where
  "Incoming_poll_next E al N cx = (\<lambda>(inc, s).
     case TcpListener_poll_ready E al N cx (incoming_inner inc, s) of
       (Ret Pending, (l, s')) \<Rightarrow> (Ret Pending, (inc\<lparr>incoming_inner := l\<rparr>, s'))
     | (Ret (Ready (Inl e)), (l, s')) \<Rightarrow> (Ret (Ready (Some (Inl e))), (inc\<lparr>incoming_inner := l\<rparr>, s'))
     | (Ret (Ready (Inr (socket, _))), (l, s')) \<Rightarrow>
         (Ret (Ready (Some (Inr socket))), (inc\<lparr>incoming_inner := l\<rparr>, s'))
     | (Panic m, (l, s')) \<Rightarrow> (Panic m, (inc\<lparr>incoming_inner := l\<rparr>, s'))
     | (OutOfFuel, (l, s')) \<Rightarrow> (OutOfFuel, (inc\<lparr>incoming_inner := l\<rparr>, s')))"

section \<open>The stream\<close>

definition TcpStream_connect :: "'w tcp_ops \<Rightarrow> SocketAddr \<Rightarrow> 'w \<Rightarrow> ConnectFutureState \<times> 'w" where
  "TcpStream_connect N addr w = (case ts_connect N addr w of
      (Inr tcp, w') \<Rightarrow> (Waiting (TcpStream_new tcp), w')
    | (Inl e, w') \<Rightarrow> (Error e, w'))"

definition TcpStream_try_from_std :: "'w tcp_ops \<Rightarrow> fd \<Rightarrow> 'w \<Rightarrow> TcpStream io_result \<times> 'w" where
  "TcpStream_try_from_std N stream w = (case ts_from_stream N stream w of
      (Inl e, w') \<Rightarrow> (Inl e, w')
    | (Inr tcp, w') \<Rightarrow> (Inr (TcpStream_new tcp), w'))"

definition TcpStream_try_from_addr :: "'w tcp_ops \<Rightarrow> SocketAddr \<Rightarrow> 'w \<Rightarrow> TcpStream io_result \<times> 'w" where
  "TcpStream_try_from_addr N addr w = (case ts_connect N addr w of
      (Inl e, w') \<Rightarrow> (Inl e, w')
    | (Inr tcp, w') \<Rightarrow> (Inr (TcpStream_new tcp), w'))"

definition TcpStream_local_addr :: "'w tcp_ops \<Rightarrow> (('sl, 'w) pst, SocketAddr io_result) op" where
  "TcpStream_local_addr N = sys_ref (ts_local_addr N)"

definition TcpStream_peer_addr :: "'w tcp_ops \<Rightarrow> (('sl, 'w) pst, SocketAddr io_result) op" where
  "TcpStream_peer_addr N = sys_ref (ts_peer_addr N)"

definition TcpStream_shutdown :: "'w tcp_ops \<Rightarrow> Shutdown_how \<Rightarrow> (('sl, 'w) pst, unit io_result) op" where
  "TcpStream_shutdown N how = sys_ref (ts_shutdown N how)"

definition TcpStream_nodelay :: "'w tcp_ops \<Rightarrow> (('sl, 'w) pst, bool io_result) op" where
  "TcpStream_nodelay N = sys_ref (ts_nodelay N)"

definition TcpStream_set_nodelay :: "'w tcp_ops \<Rightarrow> bool \<Rightarrow> (('sl, 'w) pst, unit io_result) op" where
  "TcpStream_set_nodelay N nodelay = sys_ref (ts_set_nodelay N nodelay)"

definition TcpStream_recv_buffer_size :: "'w tcp_ops \<Rightarrow> (('sl, 'w) pst, usize io_result) op" where
  "TcpStream_recv_buffer_size N = sys_ref (ts_recv_buffer_size N)"

definition TcpStream_set_recv_buffer_size :: "'w tcp_ops \<Rightarrow> usize \<Rightarrow> (('sl, 'w) pst, unit io_result) op" where
  "TcpStream_set_recv_buffer_size N sz = sys_ref (ts_set_recv_buffer_size N sz)"

definition TcpStream_send_buffer_size :: "'w tcp_ops \<Rightarrow> (('sl, 'w) pst, usize io_result) op" where
  "TcpStream_send_buffer_size N = sys_ref (ts_send_buffer_size N)"

definition TcpStream_set_send_buffer_size :: "'w tcp_ops \<Rightarrow> usize \<Rightarrow> (('sl, 'w) pst, unit io_result) op" where
  "TcpStream_set_send_buffer_size N sz = sys_ref (ts_set_send_buffer_size N sz)"

definition TcpStream_keepalive :: "'w tcp_ops \<Rightarrow> (('sl, 'w) pst, Duration option io_result) op" where
  "TcpStream_keepalive N = sys_ref (ts_keepalive N)"

definition TcpStream_set_keepalive :: "'w tcp_ops \<Rightarrow> Duration option \<Rightarrow> (('sl, 'w) pst, unit io_result) op" where
  "TcpStream_set_keepalive N keepalive = sys_ref (ts_set_keepalive N keepalive)"

definition TcpStream_ttl :: "'w tcp_ops \<Rightarrow> (('sl, 'w) pst, u32 io_result) op" where
  "TcpStream_ttl N = sys_ref (ts_ttl N)"

definition TcpStream_set_ttl :: "'w tcp_ops \<Rightarrow> u32 \<Rightarrow> (('sl, 'w) pst, unit io_result) op" where
  "TcpStream_set_ttl N ttl = sys_ref (ts_set_ttl N ttl)"

definition TcpStream_linger :: "'w tcp_ops \<Rightarrow> (('sl, 'w) pst, Duration option io_result) op" where
  "TcpStream_linger N = sys_ref (ts_linger N)"

definition TcpStream_set_linger :: "'w tcp_ops \<Rightarrow> Duration option \<Rightarrow> (('sl, 'w) pst, unit io_result) op" where
  "TcpStream_set_linger N dur = sys_ref (ts_set_linger N dur)"

definition TcpStream_fmt :: "(fd \<Rightarrow> string) \<Rightarrow> (('sl, 'w) pst, string) op" where
  "TcpStream_fmt fmt_io = socket_fmt fmt_io"

definition TcpStream_as_raw_fd :: "'w tcp_ops \<Rightarrow> (('sl, 'w) pst, int) op" where
  "TcpStream_as_raw_fd N = sys_ref (ts_as_raw_fd N)"

definition TcpStream_poll_read ::
  "('aw, 'sl, 'w) ext \<Rightarrow> alloc \<Rightarrow> 'w tcp_ops \<Rightarrow> task \<Rightarrow> byte list \<Rightarrow>
     (('sl, 'w) pst, (usize \<times> byte list) io_result poll) op" where
  "TcpStream_poll_read E al N cx buf = PollEvented_poll_read E al (ts_read N) cx buf"

definition TcpStream_poll_write ::
  "('aw, 'sl, 'w) ext \<Rightarrow> alloc \<Rightarrow> 'w tcp_ops \<Rightarrow> task \<Rightarrow> byte list \<Rightarrow> (('sl, 'w) pst, usize io_result poll) op" where
  "TcpStream_poll_write E al N cx buf = PollEvented_poll_write E al (ts_write N) cx buf"

definition TcpStream_poll_flush ::
  "('aw, 'sl, 'w) ext \<Rightarrow> alloc \<Rightarrow> 'w tcp_ops \<Rightarrow> task \<Rightarrow> (('sl, 'w) pst, unit io_result poll) op" where
  "TcpStream_poll_flush E al N cx = PollEvented_poll_flush E al (ts_flush N) cx"

definition TcpStream_poll_close :: "task \<Rightarrow> (('sl, 'w) pst, unit io_result poll) op" where
  "TcpStream_poll_close cx = PollEvented_poll_close cx"

definition TcpStream_poll_read_ready ::
  "('aw, 'sl, 'w) ext \<Rightarrow> alloc \<Rightarrow> task \<Rightarrow> (('sl, 'w) pst, usize io_result poll) op" where
  "TcpStream_poll_read_ready E al cx = poll_read_ready E al cx"

definition TcpStream_poll_write_ready ::
  "('aw, 'sl, 'w) ext \<Rightarrow> alloc \<Rightarrow> task \<Rightarrow> (('sl, 'w) pst, usize io_result poll) op" where
  "TcpStream_poll_write_ready E al cx = poll_write_ready E al cx"

text \<open>
  The future of \<^verbatim>\<open>connect\<close>. The stream is moved out of the state first; only \<^verbatim>\<open>Pending\<close> moves it back, so on
  an error it is dropped and the state stays \<^verbatim>\<open>Empty\<close>.
\<close>

definition TcpConnectFuture_poll ::
  "('aw, 'sl, 'w) ext \<Rightarrow> alloc \<Rightarrow> 'w tcp_ops \<Rightarrow> task \<Rightarrow>
     (ConnectFutureState \<times> ('sl, 'w) sys, TcpStream io_result poll) op" where
  "TcpConnectFuture_poll E al N cx = (\<lambda>(st, s). case st of
      Waiting stream \<Rightarrow>
        (case poll_write_ready E al cx (stream, s) of
           (Ret Pending, (stream1, s1)) \<Rightarrow> (Ret Pending, (Waiting stream1, s1))
         | (Ret (Ready (Inl e)), (stream1, s1)) \<Rightarrow>
             (case drop_and_return E stream1 (Ready (Inl e)) s1 of (r, s2) \<Rightarrow> (r, (Empty, s2)))
         | (Ret (Ready (Inr _)), x1) \<Rightarrow>
             (case sys_ref (ts_take_error N) x1 of
                (Ret (Inl e), (stream2, s2)) \<Rightarrow>
                  (case drop_and_return E stream2 (Ready (Inl e)) s2 of (r, s3) \<Rightarrow> (r, (Empty, s3)))
              | (Ret (Inr (Some e)), (stream2, s2)) \<Rightarrow>
                  (case drop_and_return E stream2 (Ready (Inl e)) s2 of (r, s3) \<Rightarrow> (r, (Empty, s3)))
              | (Ret (Inr None), (stream2, s2)) \<Rightarrow> (Ret (Ready (Inr stream2)), (Empty, s2))
              | (Panic m, (_, s2)) \<Rightarrow> (Panic m, (Empty, s2))
              | (OutOfFuel, (_, s2)) \<Rightarrow> (OutOfFuel, (Empty, s2)))
         | (Panic m, (_, s1)) \<Rightarrow> (Panic m, (Empty, s1))
         | (OutOfFuel, (_, s1)) \<Rightarrow> (OutOfFuel, (Empty, s1)))
    | Error e \<Rightarrow> (Ret (Ready (Inl e)), (Empty, s))
    | Empty \<Rightarrow> (Panic ''can't poll TCP stream twice'', (Empty, s)))"

section \<open>Properties\<close>

text \<open>A TCP that accepts and connects at once; \<open>err\<close> is what the connection attempt leaves behind.\<close>

definition std_tcp :: "io_error option \<Rightarrow> nat tcp_ops" where
  "std_tcp err = \<lparr>tl_bind = (\<lambda>a w. (Inr w, Suc w)), tl_from_std = (\<lambda>f w. (Inr f, w)),
     tl_local_addr = (\<lambda>f w. (Inr (V4 0x7F000001 80), w)), tl_ttl = (\<lambda>f w. (Inr 64, w)),
     tl_set_ttl = (\<lambda>t f w. (Inr (), w)), tl_accept_std = (\<lambda>f w. (Inr (w, V4 0x7F000001 9), Suc w)),
     tl_as_raw_fd = (\<lambda>f w. (int f, w)), ts_from_stream = (\<lambda>f w. (Inr f, w)), ts_connect = (\<lambda>a w. (Inr w, Suc w)),
     ts_local_addr = (\<lambda>f w. (Inr (V4 0x7F000001 80), w)),
     ts_peer_addr = (\<lambda>f w. (Inr (V4 0x7F000001 9), w)), ts_shutdown = (\<lambda>h f w. (Inr (), w)),
     ts_nodelay = (\<lambda>f w. (Inr False, w)), ts_set_nodelay = (\<lambda>b f w. (Inr (), w)),
     ts_recv_buffer_size = (\<lambda>f w. (Inr 0, w)), ts_set_recv_buffer_size = (\<lambda>n f w. (Inr (), w)),
     ts_send_buffer_size = (\<lambda>f w. (Inr 0, w)), ts_set_send_buffer_size = (\<lambda>n f w. (Inr (), w)),
     ts_keepalive = (\<lambda>f w. (Inr None, w)), ts_set_keepalive = (\<lambda>d f w. (Inr (), w)),
     ts_ttl = (\<lambda>f w. (Inr 64, w)), ts_set_ttl = (\<lambda>t f w. (Inr (), w)), ts_linger = (\<lambda>f w. (Inr None, w)),
     ts_set_linger = (\<lambda>d f w. (Inr (), w)), ts_take_error = (\<lambda>f w. (Inr err, w)),
     ts_read = (\<lambda>f b w. (Inr (0, b), w)), ts_write = (\<lambda>f b w. (Inr 0, w)), ts_flush = (\<lambda>f w. (Inr (), w)),
     ts_as_raw_fd = (\<lambda>f w. (int f, w))\<rparr>"

text \<open>Accepting on a registered listener: whatever the kernel answers, the call returns and the listener stays good.\<close>

lemma accept_ok:
  assumes "pe_good E x"
  shows "\<exists>r x'. TcpListener_poll_ready E al N cx x = (Ret r, x') \<and> pe_good E x' \<and>
    (r = Pending \<longrightarrow> pe_parked E Read cx x' \<or> woken (snd x') = woken (snd x) @ [cx]) \<and>
    (\<forall>io a. r = Ready (Inr (io, a)) \<longrightarrow> (\<exists>f. io = PollEvented_new f))"
proof -
  let ?Q = "\<lambda>x'. pe_parked E Read cx x' \<or> woken (snd x') = woken (snd x) @ [cx]"
  let ?k = "\<lambda>(io, addr). try_pollio (world_call (ts_from_stream N io)) (\<lambda>io1.
       ret (Ready (Inr (TcpStream_new io1, addr))))"
  have k: "\<exists>r x'. ?k v y = (Ret (Ready r), x') \<and> pe_good E x'" if good: "pe_good E y" for v y
  proof -
    obtain r y' where "world_call (ts_from_stream N (fst v)) y = (Ret r, y')" "pe_good E y'"
      using world_call_ok [OF good, of "ts_from_stream N (fst v)"] by blast
    then show ?thesis by (cases r; cases v) (auto simp: op_simps)
  qed
  have "\<exists>r x'. TcpListener_poll_accept_std E al N cx x = (Ret r, x') \<and> pe_good E x' \<and> (r = Pending \<longrightarrow> ?Q x')"
    unfolding TcpListener_poll_accept_std_def attempt_match_eq
    using read_io.attempt_ok [where call = "sys_ref (tl_accept_std N)", OF assms sys_ref_ok] by blast
  from attempt_then [where m = "TcpListener_poll_accept_std E al N cx" and x = x and k = ?k and Q = ?Q, OF this k] have
    "\<exists>r x'. TcpListener_poll_ready E al N cx x = (Ret r, x') \<and> pe_good E x' \<and> (r = Pending \<longrightarrow> ?Q x')"
    unfolding TcpListener_poll_ready_def .
  moreover have "\<exists>f. io = PollEvented_new f"
    if "TcpListener_poll_ready E al N cx x = (Ret (Ready (Inr (io, a))), x')" for io a x'
    using that unfolding TcpListener_poll_ready_def
    by (auto simp: try_pollio_def TcpStream_new_def elim!: ready_try_RetE bnd_RetE split: sum.splits prod.splits)
  ultimately show ?thesis by blast
qed

text \<open>C35: the stream of incoming connections of a registered listener: polling it returns whatever the kernel answers,
  with the listener still good; when it returns \<^verbatim>\<open>Pending\<close> the task is parked for reading or has just been woken; the
  stream never ends, also not after an error; an accepted connection is a new, unregistered stream, so its first
  poll will register it.\<close>

theorem accept_never_lost:
  assumes "pe_good E (l, s)"
  shows "\<exists>r inc s'. Incoming_poll_next E al N cx (TcpListener_incoming l, s) = (Ret r, (inc, s')) \<and>
    pe_good E (incoming_inner inc, s') \<and> r \<noteq> Ready None \<and>
    (r = Pending \<longrightarrow> pe_parked E Read cx (incoming_inner inc, s') \<or> woken s' = woken s @ [cx]) \<and>
    (\<forall>io. r = Ready (Some (Inr io)) \<longrightarrow> (\<exists>f. io = PollEvented_new f))"
proof -
  obtain r l' s' where acc: "TcpListener_poll_ready E al N cx (l, s) = (Ret r, (l', s'))" "pe_good E (l', s')"
    "r = Pending \<longrightarrow> pe_parked E Read cx (l', s') \<or> woken s' = woken s @ [cx]"
    "\<forall>io a. r = Ready (Inr (io, a)) \<longrightarrow> (\<exists>f. io = PollEvented_new f)"
    using accept_ok [OF assms, of al N cx] by fastforce
  then show ?thesis
    by (auto simp: Incoming_poll_next_def TcpListener_incoming_def split: poll.split sum.split)
qed

theorem accept_never_lost_witness:
  "\<exists>r inc s'. Incoming_poll_next (std_ext []) alloc0 (std_tcp None) 5 (TcpListener_incoming (fst pe_hup), sys_hup)
     = (Ret r, (inc, s')) \<and> r \<noteq> Ready None"
proof -
  have "pe_good (std_ext []) (fst pe_hup, sys_hup)" using pe_hup_good by (simp add: pe_hup_def)
  from accept_never_lost [OF this] show ?thesis by blast
qed

lemma drop_good: "pe_good E (pe, s) \<Longrightarrow> \<exists>t. PollEvented_drop E pe s = (Ret (), t)"
proof -
  assume good: "pe_good E (pe, s)"
  show ?thesis
  proof (cases "pe_failed (pe, s)")
    case None
    then obtain i inn io where "associated E (registration pe) s i inn io" "ext_ok E"
      using good by (auto simp: pe_good_def)
    then show ?thesis using drop_associated by blast
  next
    case (Some e)
    obtain i where i: "reg_inner (registration pe) = Some i" using good by (auto simp: pe_good_def)
    then have bad: "token i = ERROR \<or> inners s (hp_inner (handle i)) = None"
      using Some by (auto simp: pe_failed_def split: if_splits)
    obtain io where io: "pe_io pe = Some io" using good by (auto simp: pe_good_def)
    have "snd (snd (Registration_deregister E io (registration pe, s))) = s"
      using bad i by (auto simp: Registration_deregister_def RegInner_deregister_def HandlePriv_inner_def)
    then show ?thesis
      using bad i io by (auto simp: PollEvented_drop_def Registration_drop_def RegInner_drop_def HandlePriv_inner_def)
  qed
qed

lemma drop_and_return_good:
  "pe_good E (pe, s) \<Longrightarrow> \<exists>t. drop_and_return E pe r s = (Ret r, t)"
  using drop_good by (fastforce simp: drop_and_return_def)

text \<open>C36: the future of \<^verbatim>\<open>TcpStream::connect\<close> is a proper future: polling it while it waits either returns \<^verbatim>\<open>Pending\<close>,
  still waiting, with the task parked for writing, or completes and is empty; it completes with a stream only
  if the kernel reports no pending error, and polling it again after completion panics.\<close>

theorem tcp_connect_future:
  assumes "pe_good E (stream, s)"
  shows "\<exists>r st' s'. TcpConnectFuture_poll E al N cx (Waiting stream, s) = (Ret r, (st', s')) \<and>
    (case r of
       Pending \<Rightarrow> \<exists>stream'. st' = Waiting stream' \<and> pe_good E (stream', s') \<and> pe_parked E Write cx (stream', s')
     | Ready q \<Rightarrow> st' = Empty \<and>
         fst (TcpConnectFuture_poll E al N cx' (st', s')) = Panic ''can't poll TCP stream twice'' \<and>
         (\<forall>stream'. q = Inr stream' \<longrightarrow> pe_good E (stream', s') \<and>
            (\<exists>io w. ts_take_error N io w = (Inr None, world s'))))"
proof -
  obtain p y where p: "poll_write_ready E al cx (stream, s) = (Ret p, y)" "pe_good E y"
    "p = Pending \<longrightarrow> pe_parked E Write cx y" using write_ready_ok [OF assms, of al cx] by blast
  obtain stream1 s1 where y: "y = (stream1, s1)" by fastforce
  show ?thesis
  proof (cases p)
    case Pending
    with p show ?thesis by (auto simp: TcpConnectFuture_poll_def y)
  next
    case (Ready q)
    show ?thesis
    proof (cases q)
      case (Inl e)
      obtain t where "drop_and_return E stream1 (Ready (Inl e) :: TcpStream io_result poll) s1 = (Ret (Ready (Inl e)), t)"
        by (rule exE [OF drop_and_return_good [OF p(2) [unfolded y]]])
      with p(1) Ready Inl show ?thesis by (auto simp: TcpConnectFuture_poll_def y)
    next
      case (Inr v)
      obtain io where io: "pe_io stream1 = Some io" using p(2) by (auto simp: pe_good_def y)
      obtain r w where te: "ts_take_error N io (world s1) = (r, w)" by fastforce
      have call: "sys_ref (ts_take_error N) y = (Ret r, (stream1, s1\<lparr>world := w\<rparr>))"
        using io te by (simp add: sys_ref_def PollEvented_get_ref_def y)
      have good: "pe_good E (stream1, s1\<lparr>world := w\<rparr>)" using p(2) y by simp
      show ?thesis
      proof (cases "r = Inr None")
        case True
        with p(1) Ready Inr call good te show ?thesis
          by (auto simp: TcpConnectFuture_poll_def y intro!: exI [of _ io] exI [of _ "world s1"])
      next
        case False
        then obtain e where e: "r = Inl e \<or> r = Inr (Some e)" by (cases r) auto
        obtain t where "drop_and_return E stream1 (Ready (Inl e) :: TcpStream io_result poll) (s1\<lparr>world := w\<rparr>) = (Ret (Ready (Inl e)), t)"
          by (rule exE [OF drop_and_return_good [OF good]])
        with p(1) Ready Inr call e show ?thesis by (auto simp: TcpConnectFuture_poll_def y)
      qed
    qed
  qed
qed

theorem tcp_connect_future_witness:
  "\<exists>r st' s'. TcpConnectFuture_poll (std_ext []) alloc0 (std_tcp (Some (IoError Other ''refused''))) 5
      (Waiting (fst pe_hup), sys_hup) = (Ret r, (st', s'))"
proof -
  have "pe_good (std_ext []) (fst pe_hup, sys_hup)" using pe_hup_good by (simp add: pe_hup_def)
  from tcp_connect_future [OF this] show ?thesis by blast
qed

end
