(* ===== verification/Udp.thy ===== *)
theory Udp
  imports Sockets
begin

text \<open>
  \<^verbatim>\<open>src/udp.rs\<close>: the UDP socket, its options, the \<^verbatim>\<open>AsyncDatagram\<close> operations and the two futures that
  borrow the socket.
\<close>

section \<open>The calls of mio\<close>

record 'w udp_ops =
  us_bind :: "SocketAddr \<Rightarrow> 'w \<Rightarrow> fd io_result \<times> 'w"
  us_from_socket :: "fd \<Rightarrow> 'w \<Rightarrow> fd io_result \<times> 'w"
  us_local_addr :: "('w, SocketAddr) mio_call"
  us_send_to :: "byte list \<Rightarrow> SocketAddr \<Rightarrow> ('w, usize) mio_call"
  us_recv_from :: "byte list \<Rightarrow> ('w, (usize \<times> SocketAddr) \<times> byte list) mio_call"
  us_broadcast :: "('w, bool) mio_call"
  us_set_broadcast :: "bool \<Rightarrow> ('w, unit) mio_call"
  us_multicast_loop_v4 :: "('w, bool) mio_call"
  us_set_multicast_loop_v4 :: "bool \<Rightarrow> ('w, unit) mio_call"
  us_multicast_ttl_v4 :: "('w, u32) mio_call"
  us_set_multicast_ttl_v4 :: "u32 \<Rightarrow> ('w, unit) mio_call"
  us_multicast_loop_v6 :: "('w, bool) mio_call"
  us_set_multicast_loop_v6 :: "bool \<Rightarrow> ('w, unit) mio_call"
  us_ttl :: "('w, u32) mio_call"
  us_set_ttl :: "u32 \<Rightarrow> ('w, unit) mio_call"
  us_join_multicast_v4 :: "Ipv4Addr \<Rightarrow> Ipv4Addr \<Rightarrow> ('w, unit) mio_call"
  us_join_multicast_v6 :: "Ipv6Addr \<Rightarrow> u32 \<Rightarrow> ('w, unit) mio_call"
  us_leave_multicast_v4 :: "Ipv4Addr \<Rightarrow> Ipv4Addr \<Rightarrow> ('w, unit) mio_call"
  us_leave_multicast_v6 :: "Ipv6Addr \<Rightarrow> u32 \<Rightarrow> ('w, unit) mio_call"
  us_as_raw_fd :: "fd \<Rightarrow> 'w \<Rightarrow> int \<times> 'w"

section \<open>The socket\<close>

type_synonym UdpSocket = PollEvented

definition UdpSocket_new :: "fd \<Rightarrow> UdpSocket" where
  "UdpSocket_new socket = PollEvented_new socket"

definition UdpSocket_bind :: "'w udp_ops \<Rightarrow> SocketAddr \<Rightarrow> 'w \<Rightarrow> UdpSocket io_result \<times> 'w" where
  "UdpSocket_bind N addr w = (case us_bind N addr w of (r, w') \<Rightarrow> (map_sum id UdpSocket_new r, w'))"

definition UdpSocket_try_from :: "'w udp_ops \<Rightarrow> fd \<Rightarrow> 'w \<Rightarrow> UdpSocket io_result \<times> 'w" where
  "UdpSocket_try_from N socket w = (case us_from_socket N socket w of
      (r, w') \<Rightarrow> (map_sum id UdpSocket_new r, w'))"

definition UdpSocket_local_addr :: "'w udp_ops \<Rightarrow> (('sl, 'w) pst, SocketAddr io_result) op" where
  "UdpSocket_local_addr N = sys_ref (us_local_addr N)"

definition UdpSocket_broadcast :: "'w udp_ops \<Rightarrow> (('sl, 'w) pst, bool io_result) op" where
  "UdpSocket_broadcast N = sys_ref (us_broadcast N)"

definition UdpSocket_set_broadcast :: "'w udp_ops \<Rightarrow> bool \<Rightarrow> (('sl, 'w) pst, unit io_result) op" where
  "UdpSocket_set_broadcast N on = sys_ref (us_set_broadcast N on)"

definition UdpSocket_multicast_loop_v4 :: "'w udp_ops \<Rightarrow> (('sl, 'w) pst, bool io_result) op" where
  "UdpSocket_multicast_loop_v4 N = sys_ref (us_multicast_loop_v4 N)"

definition UdpSocket_set_multicast_loop_v4 :: "'w udp_ops \<Rightarrow> bool \<Rightarrow> (('sl, 'w) pst, unit io_result) op" where
  "UdpSocket_set_multicast_loop_v4 N on = sys_ref (us_set_multicast_loop_v4 N on)"

definition UdpSocket_multicast_ttl_v4 :: "'w udp_ops \<Rightarrow> (('sl, 'w) pst, u32 io_result) op" where
  "UdpSocket_multicast_ttl_v4 N = sys_ref (us_multicast_ttl_v4 N)"

definition UdpSocket_set_multicast_ttl_v4 :: "'w udp_ops \<Rightarrow> u32 \<Rightarrow> (('sl, 'w) pst, unit io_result) op" where
  "UdpSocket_set_multicast_ttl_v4 N ttl = sys_ref (us_set_multicast_ttl_v4 N ttl)"

definition UdpSocket_multicast_loop_v6 :: "'w udp_ops \<Rightarrow> (('sl, 'w) pst, bool io_result) op" where
  "UdpSocket_multicast_loop_v6 N = sys_ref (us_multicast_loop_v6 N)"

definition UdpSocket_set_multicast_loop_v6 :: "'w udp_ops \<Rightarrow> bool \<Rightarrow> (('sl, 'w) pst, unit io_result) op" where
  "UdpSocket_set_multicast_loop_v6 N on = sys_ref (us_set_multicast_loop_v6 N on)"

definition UdpSocket_ttl :: "'w udp_ops \<Rightarrow> (('sl, 'w) pst, u32 io_result) op" where
  "UdpSocket_ttl N = sys_ref (us_ttl N)"

definition UdpSocket_set_ttl :: "'w udp_ops \<Rightarrow> u32 \<Rightarrow> (('sl, 'w) pst, unit io_result) op" where
  "UdpSocket_set_ttl N ttl = sys_ref (us_set_ttl N ttl)"

definition UdpSocket_join_multicast_v4 ::
  "'w udp_ops \<Rightarrow> Ipv4Addr \<Rightarrow> Ipv4Addr \<Rightarrow> (('sl, 'w) pst, unit io_result) op" where
  "UdpSocket_join_multicast_v4 N multiaddr interface = sys_ref (us_join_multicast_v4 N multiaddr interface)"

definition UdpSocket_join_multicast_v6 ::
  "'w udp_ops \<Rightarrow> Ipv6Addr \<Rightarrow> u32 \<Rightarrow> (('sl, 'w) pst, unit io_result) op" where
  "UdpSocket_join_multicast_v6 N multiaddr interface = sys_ref (us_join_multicast_v6 N multiaddr interface)"

definition UdpSocket_leave_multicast_v4 ::
  "'w udp_ops \<Rightarrow> Ipv4Addr \<Rightarrow> Ipv4Addr \<Rightarrow> (('sl, 'w) pst, unit io_result) op" where
  "UdpSocket_leave_multicast_v4 N multiaddr interface = sys_ref (us_leave_multicast_v4 N multiaddr interface)"

definition UdpSocket_leave_multicast_v6 ::
  "'w udp_ops \<Rightarrow> Ipv6Addr \<Rightarrow> u32 \<Rightarrow> (('sl, 'w) pst, unit io_result) op" where
  "UdpSocket_leave_multicast_v6 N multiaddr interface = sys_ref (us_leave_multicast_v6 N multiaddr interface)"

definition UdpSocket_fmt :: "(fd \<Rightarrow> string) \<Rightarrow> (('sl, 'w) pst, string) op" where
  "UdpSocket_fmt fmt_io = socket_fmt fmt_io"

definition UdpSocket_as_raw_fd :: "'w udp_ops \<Rightarrow> (('sl, 'w) pst, int) op" where
  "UdpSocket_as_raw_fd N = sys_ref (us_as_raw_fd N)"

section \<open>Datagrams\<close>

definition UdpSocket_poll_send_to ::
  "('aw, 'sl, 'w) ext \<Rightarrow> alloc \<Rightarrow> 'w udp_ops \<Rightarrow> task \<Rightarrow> byte list \<Rightarrow> SocketAddr \<Rightarrow>
     (('sl, 'w) pst, usize io_result poll) op" where
  "UdpSocket_poll_send_to E al N cx buf receiver =
     attempt_match (poll_write_ready E al cx) (clear_write_ready E al cx) (sys_ref (us_send_to N buf receiver))"

definition UdpSocket_poll_recv_from ::
  "('aw, 'sl, 'w) ext \<Rightarrow> alloc \<Rightarrow> 'w udp_ops \<Rightarrow> task \<Rightarrow> byte list \<Rightarrow>
     (('sl, 'w) pst, ((usize \<times> SocketAddr) \<times> byte list) io_result poll) op" where
  "UdpSocket_poll_recv_from E al N cx buf =
     attempt_match (poll_read_ready E al cx) (clear_read_ready E al cx) (sys_ref (us_recv_from N buf))"

definition UdpSocket_poll_read_ready ::
  "('aw, 'sl, 'w) ext \<Rightarrow> alloc \<Rightarrow> task \<Rightarrow> (('sl, 'w) pst, usize io_result poll) op" where
  "UdpSocket_poll_read_ready E al cx = poll_read_ready E al cx"

definition UdpSocket_poll_write_ready ::
  "('aw, 'sl, 'w) ext \<Rightarrow> alloc \<Rightarrow> task \<Rightarrow> (('sl, 'w) pst, usize io_result poll) op" where
  "UdpSocket_poll_write_ready E al cx = poll_write_ready E al cx"

section \<open>The futures\<close>

text \<open>The futures borrow the socket, and \<^verbatim>\<open>RecvFrom\<close> the caller's buffer; the model keeps both in the record.\<close>

record UdpSendTo =
  udp_send_socket :: UdpSocket
  udp_send_buf :: "byte list"
  udp_target :: SocketAddr

record UdpRecvFrom =
  udp_recv_socket :: UdpSocket
  udp_recv_buf :: "byte list"

definition UdpSocket_send_to :: "UdpSocket \<Rightarrow> byte list \<Rightarrow> SocketAddr \<Rightarrow> UdpSendTo" where
  "UdpSocket_send_to socket buf target =
     \<lparr>udp_send_socket = socket, udp_send_buf = buf, udp_target = target\<rparr>"

definition UdpSocket_recv_from :: "UdpSocket \<Rightarrow> byte list \<Rightarrow> UdpRecvFrom" where
  "UdpSocket_recv_from socket buf = \<lparr>udp_recv_socket = socket, udp_recv_buf = buf\<rparr>"

definition UdpSendTo_poll ::
  "('aw, 'sl, 'w) ext \<Rightarrow> alloc \<Rightarrow> 'w udp_ops \<Rightarrow> task \<Rightarrow> (UdpSendTo \<times> ('sl, 'w) sys, usize io_result poll) op" where
  "UdpSendTo_poll E al N cx = (\<lambda>(fut, s).
     case UdpSocket_poll_send_to E al N cx (udp_send_buf fut) (udp_target fut) (udp_send_socket fut, s) of
       (r, (socket, s')) \<Rightarrow> (r, (fut\<lparr>udp_send_socket := socket\<rparr>, s')))"

definition UdpRecvFrom_poll ::
  "('aw, 'sl, 'w) ext \<Rightarrow> alloc \<Rightarrow> 'w udp_ops \<Rightarrow> task \<Rightarrow>
     (UdpRecvFrom \<times> ('sl, 'w) sys, (usize \<times> SocketAddr) io_result poll) op" where
  "UdpRecvFrom_poll E al N cx = (\<lambda>(fut, s).
     case UdpSocket_poll_recv_from E al N cx (udp_recv_buf fut) (udp_recv_socket fut, s) of
       (r, (socket, s')) \<Rightarrow> (case filled (udp_recv_buf fut) r of
         (r', buf) \<Rightarrow> (r', (fut\<lparr>udp_recv_socket := socket, udp_recv_buf := buf\<rparr>, s'))))"

end
