(* ===== verification/Uds.thy ===== *)
theory Uds
  imports Sockets
begin

text \<open>
  \<^verbatim>\<open>src/uds/\<close>: Unix domain sockets: datagrams (\<^verbatim>\<open>datagram.rs\<close>), listening and accepting (\<^verbatim>\<open>listener.rs\<close>),
  streams and the future of \<^verbatim>\<open>connect\<close> (\<^verbatim>\<open>stream.rs\<close>), the credentials of the peer (\<^verbatim>\<open>ucred.rs\<close>).
\<close>

section \<open>The calls of mio-uds and libc\<close>

type_synonym path = "byte list"

text \<open>\<^verbatim>\<open>std::os::unix::net::SocketAddr\<close>.\<close>

datatype UnixAddr = Unnamed | Pathname path | Abstract "byte list"

record 'w uds_ops =
  ud_bind :: "path \<Rightarrow> 'w \<Rightarrow> fd io_result \<times> 'w"
  ud_pair :: "'w \<Rightarrow> (fd \<times> fd) io_result \<times> 'w"
  ud_unbound :: "'w \<Rightarrow> fd io_result \<times> 'w"
  ud_local_addr :: "('w, UnixAddr) mio_call"
  ud_peer_addr :: "('w, UnixAddr) mio_call"
  ud_shutdown :: "Shutdown_how \<Rightarrow> ('w, unit) mio_call"
  ud_send_to :: "byte list \<Rightarrow> path \<Rightarrow> ('w, usize) mio_call"
  ud_recv_from :: "byte list \<Rightarrow> ('w, (usize \<times> UnixAddr) \<times> byte list) mio_call"
  ud_take_error :: "('w, io_error option) mio_call"
  ud_as_raw_fd :: "fd \<Rightarrow> 'w \<Rightarrow> int \<times> 'w"
  ul_bind :: "path \<Rightarrow> 'w \<Rightarrow> fd io_result \<times> 'w"
  ul_from_listener :: "fd \<Rightarrow> 'w \<Rightarrow> fd io_result \<times> 'w"
  ul_local_addr :: "('w, UnixAddr) mio_call"
  ul_accept_std :: "('w, (fd \<times> UnixAddr) option) mio_call"
  ul_take_error :: "('w, io_error option) mio_call"
  ul_as_raw_fd :: "fd \<Rightarrow> 'w \<Rightarrow> int \<times> 'w"
  ux_from_stream :: "fd \<Rightarrow> 'w \<Rightarrow> fd io_result \<times> 'w"
  ux_connect :: "path \<Rightarrow> 'w \<Rightarrow> fd io_result \<times> 'w"
  ux_pair :: "'w \<Rightarrow> (fd \<times> fd) io_result \<times> 'w"
  ux_local_addr :: "('w, UnixAddr) mio_call"
  ux_peer_addr :: "('w, UnixAddr) mio_call"
  ux_shutdown :: "Shutdown_how \<Rightarrow> ('w, unit) mio_call"
  ux_take_error :: "('w, io_error option) mio_call"
  ux_read :: "fd \<Rightarrow> byte list \<Rightarrow> 'w \<Rightarrow> (usize \<times> byte list) io_result \<times> 'w"
  ux_write :: "fd \<Rightarrow> byte list \<Rightarrow> 'w \<Rightarrow> usize io_result \<times> 'w"
  ux_flush :: "('w, unit) mio_call"
  ux_as_raw_fd :: "fd \<Rightarrow> 'w \<Rightarrow> int \<times> 'w"

text \<open>The C structure \<^verbatim>\<open>ucred\<close> of Linux, and the calls: \<^verbatim>\<open>getsockopt\<close> may overwrite the buffer and its size.\<close>

record ucred =
  c_pid :: u32
  c_uid :: u32
  c_gid :: u32

record 'w libc_ops =
  cfg_linux :: bool
  getsockopt_peercred :: "int \<Rightarrow> ucred \<Rightarrow> u32 \<Rightarrow> 'w \<Rightarrow> (int \<times> ucred \<times> u32) \<times> 'w"
  getpeereid :: "int \<Rightarrow> 'w \<Rightarrow> (int \<times> u32 \<times> u32) \<times> 'w"
  last_os_error :: "'w \<Rightarrow> io_error"

section \<open>Datagrams\<close>

type_synonym UnixDatagram = PollEvented

definition UnixDatagram_new :: "fd \<Rightarrow> UnixDatagram" where
  "UnixDatagram_new socket = PollEvented_new socket"

definition UnixDatagram_bind :: "'w uds_ops \<Rightarrow> path \<Rightarrow> 'w \<Rightarrow> UnixDatagram io_result \<times> 'w" where
  "UnixDatagram_bind N path w = (case ud_bind N path w of
      (Inl e, w') \<Rightarrow> (Inl e, w')
    | (Inr socket, w') \<Rightarrow> (Inr (UnixDatagram_new socket), w'))"

definition UnixDatagram_pair :: "'w uds_ops \<Rightarrow> 'w \<Rightarrow> (UnixDatagram \<times> UnixDatagram) io_result \<times> 'w" where
  "UnixDatagram_pair N w = (case ud_pair N w of
      (Inl e, w') \<Rightarrow> (Inl e, w')
    | (Inr (a, b), w') \<Rightarrow> (Inr (UnixDatagram_new a, UnixDatagram_new b), w'))"

definition UnixDatagram_unbound :: "'w uds_ops \<Rightarrow> 'w \<Rightarrow> UnixDatagram io_result \<times> 'w" where
  "UnixDatagram_unbound N w = (case ud_unbound N w of
      (Inl e, w') \<Rightarrow> (Inl e, w')
    | (Inr socket, w') \<Rightarrow> (Inr (UnixDatagram_new socket), w'))"

definition UnixDatagram_local_addr :: "'w uds_ops \<Rightarrow> (('sl, 'w) pst, UnixAddr io_result) op" where
  "UnixDatagram_local_addr N = sys_ref (ud_local_addr N)"

definition UnixDatagram_peer_addr :: "'w uds_ops \<Rightarrow> (('sl, 'w) pst, UnixAddr io_result) op" where
  "UnixDatagram_peer_addr N = sys_ref (ud_peer_addr N)"

definition UnixDatagram_shutdown :: "'w uds_ops \<Rightarrow> Shutdown_how \<Rightarrow> (('sl, 'w) pst, unit io_result) op" where
  "UnixDatagram_shutdown N how = sys_ref (ud_shutdown N how)"

definition UnixDatagram_take_error :: "'w uds_ops \<Rightarrow> (('sl, 'w) pst, io_error option io_result) op" where
  "UnixDatagram_take_error N = sys_ref (ud_take_error N)"

definition UnixDatagram_fmt :: "(fd \<Rightarrow> string) \<Rightarrow> (('sl, 'w) pst, string) op" where
  "UnixDatagram_fmt fmt_io = socket_fmt fmt_io"

definition UnixDatagram_as_raw_fd :: "'w uds_ops \<Rightarrow> (('sl, 'w) pst, int) op" where
  "UnixDatagram_as_raw_fd N = sys_ref (ud_as_raw_fd N)"

text \<open>Sending matches on the result, receiving asks \<^verbatim>\<open>is_wouldblock\<close>.\<close>

definition UnixDatagram_poll_send_to ::
  "('aw, 'sl, 'w) ext \<Rightarrow> alloc \<Rightarrow> 'w uds_ops \<Rightarrow> task \<Rightarrow> byte list \<Rightarrow> path \<Rightarrow>
     (('sl, 'w) pst, usize io_result poll) op" where
  "UnixDatagram_poll_send_to E al N cx buf receiver =
     attempt_match (poll_write_ready E al cx) (clear_write_ready E al cx) (sys_ref (ud_send_to N buf receiver))"

definition UnixDatagram_poll_recv_from ::
  "('aw, 'sl, 'w) ext \<Rightarrow> alloc \<Rightarrow> 'w uds_ops \<Rightarrow> task \<Rightarrow> byte list \<Rightarrow>
     (('sl, 'w) pst, ((usize \<times> UnixAddr) \<times> byte list) io_result poll) op" where
  "UnixDatagram_poll_recv_from E al N cx buf =
     attempt (poll_read_ready E al cx) (clear_read_ready E al cx) (sys_ref (ud_recv_from N buf))"

definition UnixDatagram_poll_read_ready ::
  "('aw, 'sl, 'w) ext \<Rightarrow> alloc \<Rightarrow> task \<Rightarrow> (('sl, 'w) pst, usize io_result poll) op" where
  "UnixDatagram_poll_read_ready E al cx = poll_read_ready E al cx"

definition UnixDatagram_poll_write_ready ::
  "('aw, 'sl, 'w) ext \<Rightarrow> alloc \<Rightarrow> task \<Rightarrow> (('sl, 'w) pst, usize io_result poll) op" where
  "UnixDatagram_poll_write_ready E al cx = poll_write_ready E al cx"

record UnixSendTo =
  unix_send_socket :: UnixDatagram
  unix_send_buf :: "byte list"
  unix_target :: path

record UnixRecvFrom =
  unix_recv_socket :: UnixDatagram
  unix_recv_buf :: "byte list"

definition UnixDatagram_send_to :: "UnixDatagram \<Rightarrow> byte list \<Rightarrow> path \<Rightarrow> UnixSendTo" where
  "UnixDatagram_send_to socket buf target =
     \<lparr>unix_send_socket = socket, unix_send_buf = buf, unix_target = target\<rparr>"

definition UnixDatagram_recv_from :: "UnixDatagram \<Rightarrow> byte list \<Rightarrow> UnixRecvFrom" where
  "UnixDatagram_recv_from socket buf = \<lparr>unix_recv_socket = socket, unix_recv_buf = buf\<rparr>"

definition UnixSendTo_poll ::
  "('aw, 'sl, 'w) ext \<Rightarrow> alloc \<Rightarrow> 'w uds_ops \<Rightarrow> task \<Rightarrow> (UnixSendTo \<times> ('sl, 'w) sys, usize io_result poll) op" where
  "UnixSendTo_poll E al N cx = (\<lambda>(fut, s).
     case UnixDatagram_poll_send_to E al N cx (unix_send_buf fut) (unix_target fut) (unix_send_socket fut, s) of
       (r, (socket, s')) \<Rightarrow> (r, (fut\<lparr>unix_send_socket := socket\<rparr>, s')))"

definition UnixRecvFrom_poll ::
  "('aw, 'sl, 'w) ext \<Rightarrow> alloc \<Rightarrow> 'w uds_ops \<Rightarrow> task \<Rightarrow>
     (UnixRecvFrom \<times> ('sl, 'w) sys, (usize \<times> UnixAddr) io_result poll) op" where
  "UnixRecvFrom_poll E al N cx = (\<lambda>(fut, s).
     case UnixDatagram_poll_recv_from E al N cx (unix_recv_buf fut) (unix_recv_socket fut, s) of
       (r, (socket, s')) \<Rightarrow> (case filled (unix_recv_buf fut) r of
         (r', buf) \<Rightarrow> (r', (fut\<lparr>unix_recv_socket := socket, unix_recv_buf := buf\<rparr>, s'))))"

section \<open>The listener\<close>

type_synonym UnixListener = PollEvented
type_synonym UnixStream = PollEvented

definition UnixListener_new :: "fd \<Rightarrow> UnixListener" where
  "UnixListener_new listener = PollEvented_new listener"

definition UnixStream_new :: "fd \<Rightarrow> UnixStream" where
  "UnixStream_new stream = PollEvented_new stream"

definition UnixListener_bind :: "'w uds_ops \<Rightarrow> path \<Rightarrow> 'w \<Rightarrow> UnixListener io_result \<times> 'w" where
  "UnixListener_bind N path w = (case ul_bind N path w of
      (Inl e, w') \<Rightarrow> (Inl e, w')
    | (Inr listener, w') \<Rightarrow> (Inr (PollEvented_new listener), w'))"

definition UnixListener_try_from :: "'w uds_ops \<Rightarrow> fd \<Rightarrow> 'w \<Rightarrow> UnixListener io_result \<times> 'w" where
  "UnixListener_try_from N socket w = (case ul_from_listener N socket w of
      (r, w') \<Rightarrow> (map_sum id UnixListener_new r, w'))"

definition UnixListener_local_addr :: "'w uds_ops \<Rightarrow> (('sl, 'w) pst, UnixAddr io_result) op" where
  "UnixListener_local_addr N = sys_ref (ul_local_addr N)"

definition UnixListener_take_error :: "'w uds_ops \<Rightarrow> (('sl, 'w) pst, io_error option io_result) op" where
  "UnixListener_take_error N = sys_ref (ul_take_error N)"

definition UnixListener_fmt :: "(fd \<Rightarrow> string) \<Rightarrow> (('sl, 'w) pst, string) op" where
  "UnixListener_fmt fmt_io = socket_fmt fmt_io"

definition UnixListener_as_raw_fd :: "'w uds_ops \<Rightarrow> (('sl, 'w) pst, int) op" where
  "UnixListener_as_raw_fd N = sys_ref (ul_as_raw_fd N)"

text \<open>\<^verbatim>\<open>mio_uds\<close> reports an empty queue as \<^verbatim>\<open>Ok(None)\<close> as well as by \<^verbatim>\<open>WouldBlock\<close>.\<close>

definition UnixListener_poll_accept_std ::
  "('aw, 'sl, 'w) ext \<Rightarrow> alloc \<Rightarrow> 'w uds_ops \<Rightarrow> task \<Rightarrow> (('sl, 'w) pst, (fd \<times> UnixAddr) io_result poll) op" where
  "UnixListener_poll_accept_std E al N cx = ready_try (poll_read_ready E al cx) (\<lambda>_.
     bnd (sys_ref (ul_accept_std N)) (\<lambda>r. case r of
       Inr (Some (sock, addr)) \<Rightarrow> ret (Ready (Inr (sock, addr)))
     | Inr None \<Rightarrow> try_pollio (clear_read_ready E al cx) (\<lambda>_. ret Pending)
     | Inl err \<Rightarrow> if kind err = WouldBlock then try_pollio (clear_read_ready E al cx) (\<lambda>_. ret Pending)
                   else ret (Ready (Inl err))))"

definition UnixListener_poll_ready ::
  "('aw, 'sl, 'w) ext \<Rightarrow> alloc \<Rightarrow> 'w uds_ops \<Rightarrow> task \<Rightarrow>
     (('sl, 'w) pst, (UnixStream \<times> UnixAddr) io_result poll) op" where
  "UnixListener_poll_ready E al N cx = ready_try (UnixListener_poll_accept_std E al N cx) (\<lambda>(io, addr).
     try_pollio (world_call (ux_from_stream N io)) (\<lambda>io1.
       ret (Ready (Inr (UnixStream_new io1, addr)))))"

text \<open>Here \<^verbatim>\<open>incoming\<close> consumes the listener.\<close>

record UnixIncoming =
  unix_incoming_inner :: UnixListener

definition UnixIncoming_new :: "UnixListener \<Rightarrow> UnixIncoming" where
  "UnixIncoming_new listener = \<lparr>unix_incoming_inner = listener\<rparr>"

definition UnixListener_incoming :: "UnixListener \<Rightarrow> UnixIncoming" where
  "UnixListener_incoming self = UnixIncoming_new self"

definition UnixIncoming_poll_next ::
  "('aw, 'sl, 'w) ext \<Rightarrow> alloc \<Rightarrow> 'w uds_ops \<Rightarrow> task \<Rightarrow>
     (UnixIncoming \<times> ('sl, 'w) sys, UnixStream io_result option poll) op" where
  "UnixIncoming_poll_next E al N cx = (\<lambda>(inc, s).
     case UnixListener_poll_ready E al N cx (unix_incoming_inner inc, s) of
       (r, (l, s')) \<Rightarrow> (case r of
           Ret Pending \<Rightarrow> Ret Pending
         | Ret (Ready (Inl e)) \<Rightarrow> Ret (Ready (Some (Inl e)))
         | Ret (Ready (Inr (socket, _))) \<Rightarrow> Ret (Ready (Some (Inr socket)))
         | Panic m \<Rightarrow> Panic m
         | OutOfFuel \<Rightarrow> OutOfFuel, (inc\<lparr>unix_incoming_inner := l\<rparr>, s')))"

section \<open>The stream\<close>

definition UnixStream_connect :: "'w uds_ops \<Rightarrow> path \<Rightarrow> 'w \<Rightarrow> ConnectFutureState \<times> 'w" where
  "UnixStream_connect N path w = (case ux_connect N path w of
      (Inr stream, w') \<Rightarrow> (Waiting (UnixStream_new stream), w')
    | (Inl e, w') \<Rightarrow> (Error e, w'))"

definition UnixStream_pair :: "'w uds_ops \<Rightarrow> 'w \<Rightarrow> (UnixStream \<times> UnixStream) io_result \<times> 'w" where
  "UnixStream_pair N w = (case ux_pair N w of
      (Inl e, w') \<Rightarrow> (Inl e, w')
    | (Inr (a, b), w') \<Rightarrow> (Inr (UnixStream_new a, UnixStream_new b), w'))"

definition UnixStream_local_addr :: "'w uds_ops \<Rightarrow> (('sl, 'w) pst, UnixAddr io_result) op" where
  "UnixStream_local_addr N = sys_ref (ux_local_addr N)"

definition UnixStream_peer_addr :: "'w uds_ops \<Rightarrow> (('sl, 'w) pst, UnixAddr io_result) op" where
  "UnixStream_peer_addr N = sys_ref (ux_peer_addr N)"

definition UnixStream_shutdown :: "'w uds_ops \<Rightarrow> Shutdown_how \<Rightarrow> (('sl, 'w) pst, unit io_result) op" where
  "UnixStream_shutdown N how = sys_ref (ux_shutdown N how)"

definition UnixStream_take_error :: "'w uds_ops \<Rightarrow> (('sl, 'w) pst, io_error option io_result) op" where
  "UnixStream_take_error N = sys_ref (ux_take_error N)"

definition UnixStream_fmt :: "(fd \<Rightarrow> string) \<Rightarrow> (('sl, 'w) pst, string) op" where
  "UnixStream_fmt fmt_io = socket_fmt fmt_io"

definition UnixStream_as_raw_fd :: "'w uds_ops \<Rightarrow> (('sl, 'w) pst, int) op" where
  "UnixStream_as_raw_fd N = sys_ref (ux_as_raw_fd N)"

definition UnixStream_poll_read ::
  "('aw, 'sl, 'w) ext \<Rightarrow> alloc \<Rightarrow> 'w uds_ops \<Rightarrow> task \<Rightarrow> byte list \<Rightarrow>
     (('sl, 'w) pst, (usize \<times> byte list) io_result poll) op" where
  "UnixStream_poll_read E al N cx buf = PollEvented_poll_read E al (ux_read N) cx buf"

definition UnixStream_poll_write ::
  "('aw, 'sl, 'w) ext \<Rightarrow> alloc \<Rightarrow> 'w uds_ops \<Rightarrow> task \<Rightarrow> byte list \<Rightarrow> (('sl, 'w) pst, usize io_result poll) op" where
  "UnixStream_poll_write E al N cx buf = PollEvented_poll_write E al (ux_write N) cx buf"

definition UnixStream_poll_flush ::
  "('aw, 'sl, 'w) ext \<Rightarrow> alloc \<Rightarrow> 'w uds_ops \<Rightarrow> task \<Rightarrow> (('sl, 'w) pst, unit io_result poll) op" where
  "UnixStream_poll_flush E al N cx = PollEvented_poll_flush E al (ux_flush N) cx"

definition UnixStream_poll_close :: "task \<Rightarrow> (('sl, 'w) pst, unit io_result poll) op" where
  "UnixStream_poll_close cx = PollEvented_poll_close cx"

definition UnixStream_poll_read_ready ::
  "('aw, 'sl, 'w) ext \<Rightarrow> alloc \<Rightarrow> task \<Rightarrow> (('sl, 'w) pst, usize io_result poll) op" where
  "UnixStream_poll_read_ready E al cx = poll_read_ready E al cx"

definition UnixStream_poll_write_ready ::
  "('aw, 'sl, 'w) ext \<Rightarrow> alloc \<Rightarrow> task \<Rightarrow> (('sl, 'w) pst, usize io_result poll) op" where
  "UnixStream_poll_write_ready E al cx = poll_write_ready E al cx"

text \<open>
  The future of \<^verbatim>\<open>connect\<close>. Unlike in TCP the stream is only borrowed while it waits, so an error leaves the
  state \<^verbatim>\<open>Waiting\<close>; the stream is moved out only on success.
\<close>

definition UnixConnectFuture_poll ::
  "('aw, 'sl, 'w) ext \<Rightarrow> alloc \<Rightarrow> 'w uds_ops \<Rightarrow> task \<Rightarrow>
     (ConnectFutureState \<times> ('sl, 'w) sys, UnixStream io_result poll) op" where
  "UnixConnectFuture_poll E al N cx = (\<lambda>(st, s). case st of
      Waiting stream \<Rightarrow>
        (case poll_write_ready E al cx (stream, s) of
           (Ret Pending, (stream1, s1)) \<Rightarrow> (Ret Pending, (Waiting stream1, s1))
         | (Ret (Ready (Inl e)), (stream1, s1)) \<Rightarrow> (Ret (Ready (Inl e)), (Waiting stream1, s1))
         | (Ret (Ready (Inr _)), x1) \<Rightarrow>
             (case sys_ref (ux_take_error N) x1 of
                (Ret (Inl e), (stream2, s2)) \<Rightarrow> (Ret (Ready (Inl e)), (Waiting stream2, s2))
              | (Ret (Inr (Some e)), (stream2, s2)) \<Rightarrow> (Ret (Ready (Inl e)), (Waiting stream2, s2))
              | (Ret (Inr None), (stream2, s2)) \<Rightarrow> (Ret (Ready (Inr stream2)), (Empty, s2))
              | (Panic m, (stream2, s2)) \<Rightarrow> (Panic m, (Waiting stream2, s2))
              | (OutOfFuel, (stream2, s2)) \<Rightarrow> (OutOfFuel, (Waiting stream2, s2)))
         | (Panic m, (stream1, s1)) \<Rightarrow> (Panic m, (Waiting stream1, s1))
         | (OutOfFuel, (stream1, s1)) \<Rightarrow> (OutOfFuel, (Waiting stream1, s1)))
    | Error e \<Rightarrow> (Ret (Ready (Inl e)), (Empty, s))
    | Empty \<Rightarrow> (Panic ''can't poll stream twice'', (Empty, s)))"

section \<open>Credentials of the peer\<close>

record UCred =
  uid :: u32
  gid :: u32

text \<open>Sizes in bytes, on a 64-bit target.\<close>

definition size_of_ucred :: usize where "size_of_ucred = 12"
definition size_of_u32 :: usize where "size_of_u32 = 4"
definition size_of_usize :: usize where "size_of_usize = 8"

definition get_peer_cred_linux :: "'w uds_ops \<Rightarrow> 'w libc_ops \<Rightarrow> (('sl, 'w) pst, UCred io_result) op" where
  "get_peer_cred_linux N C = bnd (UnixStream_as_raw_fd N) (\<lambda>raw_fd.
     let cred = \<lparr>c_pid = 0, c_uid = 0, c_gid = 0\<rparr>
     in if \<not> size_of_u32 \<le> size_of_usize
        then panic ''assertion failed: mem::size_of::<u32>() <= mem::size_of::<usize>()''
        else if \<not> size_of_ucred \<le> ucast (- 1 :: u32)
        then panic ''assertion failed: ucred_size <= u32::max_value() as usize''
        else bnd (world_call (getsockopt_peercred C raw_fd cred (ucast size_of_ucred))) (\<lambda>(r, cred1, ucred_size).
          if r = 0 \<and> ucast ucred_size = size_of_ucred
          then ret (Inr \<lparr>uid = c_uid cred1, gid = c_gid cred1\<rparr>)
          else bnd (world_call (\<lambda>w. (last_os_error C w, w))) (\<lambda>e. ret (Inl e))))"

definition get_peer_cred_macos :: "'w uds_ops \<Rightarrow> 'w libc_ops \<Rightarrow> (('sl, 'w) pst, UCred io_result) op" where
  "get_peer_cred_macos N C = bnd (UnixStream_as_raw_fd N) (\<lambda>raw_fd.
     bnd (world_call (getpeereid C raw_fd)) (\<lambda>(r, u, g).
       if r = 0 then ret (Inr \<lparr>uid = u, gid = g\<rparr>)
       else bnd (world_call (\<lambda>w. (last_os_error C w, w))) (\<lambda>e. ret (Inl e))))"

definition UnixStream_peer_cred :: "'w uds_ops \<Rightarrow> 'w libc_ops \<Rightarrow> (('sl, 'w) pst, UCred io_result) op" where
  "UnixStream_peer_cred N C = (if cfg_linux C then get_peer_cred_linux N C else get_peer_cred_macos N C)"

section \<open>Specification vocabulary\<close>

text \<open>The listener's \<^verbatim>\<open>Ok(None)\<close> is treated like \<^verbatim>\<open>WouldBlock\<close>.\<close>

definition accepted :: "'a option io_result \<Rightarrow> 'a io_result" where
  "accepted r = (case r of Inl e \<Rightarrow> Inl e | Inr None \<Rightarrow> Inl (IoError WouldBlock []) | Inr (Some v) \<Rightarrow> Inr v)"

text \<open>Unix sockets that connect at once; \<open>err\<close> is the error the first connection left behind, taken once.\<close>

definition std_uds :: "io_error \<Rightarrow> nat uds_ops" where
  "std_uds err = \<lparr>ud_bind = (\<lambda>p w. (Inr w, Suc w)), ud_pair = (\<lambda>w. (Inr (w, Suc w), Suc (Suc w))),
     ud_unbound = (\<lambda>w. (Inr w, Suc w)), ud_local_addr = (\<lambda>f w. (Inr Unnamed, w)),
     ud_peer_addr = (\<lambda>f w. (Inr Unnamed, w)), ud_shutdown = (\<lambda>h f w. (Inr (), w)),
     ud_send_to = (\<lambda>b p f w. (Inr (of_nat (length b)), w)), ud_recv_from = (\<lambda>b f w. (Inr ((0, Unnamed), b), w)),
     ud_take_error = (\<lambda>f w. (Inr None, w)), ud_as_raw_fd = (\<lambda>f w. (int f, w)),
     ul_bind = (\<lambda>p w. (Inr w, Suc w)), ul_from_listener = (\<lambda>f w. (Inr f, w)),
     ul_local_addr = (\<lambda>f w. (Inr Unnamed, w)), ul_accept_std = (\<lambda>f w. (Inr None, w)),
     ul_take_error = (\<lambda>f w. (Inr None, w)), ul_as_raw_fd = (\<lambda>f w. (int f, w)),
     ux_from_stream = (\<lambda>f w. (Inr f, w)), ux_connect = (\<lambda>p w. (Inr w, Suc w)),
     ux_pair = (\<lambda>w. (Inr (w, Suc w), Suc (Suc w))), ux_local_addr = (\<lambda>f w. (Inr Unnamed, w)),
     ux_peer_addr = (\<lambda>f w. (Inr Unnamed, w)), ux_shutdown = (\<lambda>h f w. (Inr (), w)),
     ux_take_error = (\<lambda>f w. (Inr (if w = 0 then Some err else None), Suc w)),
     ux_read = (\<lambda>f b w. (Inr (0, b), w)), ux_write = (\<lambda>f b w. (Inr 0, w)), ux_flush = (\<lambda>f w. (Inr (), w)),
     ux_as_raw_fd = (\<lambda>f w. (int f, w))\<rparr>"

section \<open>Accepting\<close>

lemma unix_accept_eq:
  "UnixListener_poll_accept_std E al N cx = attempt (poll_read_ready E al cx) (clear_read_ready E al cx)
     (bnd (sys_ref (ul_accept_std N)) (\<lambda>r. ret (accepted r)))"
proof -
  have "(\<lambda>r. case r of Inr (Some (sock, addr)) \<Rightarrow> ret (Ready (Inr (sock, addr)))
       | Inr None \<Rightarrow> try_pollio (clear_read_ready E al cx) (\<lambda>_. ret Pending)
       | Inl err \<Rightarrow> if kind err = WouldBlock then try_pollio (clear_read_ready E al cx) (\<lambda>_. ret Pending)
                     else ret (Ready (Inl err))) =
    (\<lambda>r. bnd (ret (accepted r)) (\<lambda>r. if is_wouldblock r
       then try_pollio (clear_read_ready E al cx) (\<lambda>_. ret Pending) else ret (Ready r)))"
    by (auto simp: fun_eq_iff accepted_def is_wouldblock_def split: sum.splits option.splits)
  from arg_cong [OF this, of "\<lambda>k. ready_try (poll_read_ready E al cx) (\<lambda>_. bnd (sys_ref (ul_accept_std N)) k)"]
  show ?thesis unfolding UnixListener_poll_accept_std_def attempt_def bnd_assoc by (simp only:)
qed

lemma unix_accept_call_ok:
  assumes "pe_good E x"
  shows "\<exists>r x'. bnd (sys_ref (ul_accept_std N)) (\<lambda>r. ret (accepted r)) x = (Ret r, x') \<and> pe_good E x' \<and>
    woken (snd x') = woken (snd x)"
proof -
  obtain r x' where "sys_ref (ul_accept_std N) x = (Ret r, x')" "pe_good E x'" "woken (snd x') = woken (snd x)"
    using sys_ref_ok [OF assms, of "ul_accept_std N"] by blast
  then show ?thesis by simp
qed

section \<open>Properties\<close>

text \<open>Write readiness stays: a call on the resource in between does not change that.\<close>

lemma world_fields [simp]:
  "pe_failed (pe, s\<lparr>world := w\<rparr>) = pe_failed (pe, s)" "pe_vis E d (pe, s\<lparr>world := w\<rparr>) = pe_vis E d (pe, s)"
  "load_write (pe, s\<lparr>world := w\<rparr>) = load_write (pe, s)"
  by (simp_all add: pe_vis_def load_write_def same_inners(1,3) [of "s\<lparr>world := w\<rparr>" s])

lemma write_again:
  assumes "pe_good E x" and "pe_failed x = None" and "poll_write_ready E al t x = (Ret (Ready (Inr v)), (pe, s))"
  shows "pe_good E (pe, s)" and "\<exists>v' y. poll_write_ready E al t (pe, s\<lparr>world := w\<rparr>) = (Ret (Ready (Inr v')), y) \<and>
    pe_keep y = pe_keep (pe, s\<lparr>world := w\<rparr>)"
proof -
  from write_spec [OF assms(1,2), of al t] assms(3) have x:
    "pe_good E (pe, s)" "pe_failed (pe, s) = None" "pe_vis E Write (pe, s) = pe_vis E Write x AND platform_hup E"
    "load_write (pe, s) = load_write x OR pe_vis E Write x"
    and hit: "load_write x AND writable E \<noteq> 0 \<or> pe_vis E Write x AND (writable E OR platform_hup E) \<noteq> 0"
    by (auto split: if_splits)
  show "pe_good E (pe, s)" by (rule x(1))
  have "load_write (pe, s) AND writable E \<noteq> 0 \<or> pe_vis E Write (pe, s) AND (writable E OR platform_hup E) \<noteq> 0"
    using hit unfolding x(3,4) by (auto simp: bit_eq_iff bit_simps)
  with write_spec [of E "(pe, s\<lparr>world := w\<rparr>)" al t] x(1,2) show
    "\<exists>v' y. poll_write_ready E al t (pe, s\<lparr>world := w\<rparr>) = (Ret (Ready (Inr v')), y) \<and>
      pe_keep y = pe_keep (pe, s\<lparr>world := w\<rparr>)"
    by (auto split: if_splits)
qed

text \<open>The outcome of the future of \<^verbatim>\<open>connect\<close>, given what its \<^verbatim>\<open>poll_write_ready\<close> and \<^verbatim>\<open>take_error\<close> return.\<close>

lemma uds_connect_run:
  assumes "poll_write_ready E al cx (stream, s) = (Ret (Ready (Inr v)), (stream1, s1))"
    and "pe_io stream1 = Some io" and "ux_take_error N io (world s1) = (r, w)"
  shows "UnixConnectFuture_poll E al N cx (Waiting stream, s) = (case r of
      Inr None \<Rightarrow> (Ret (Ready (Inr stream1)), (Empty, s1\<lparr>world := w\<rparr>))
    | Inr (Some e) \<Rightarrow> (Ret (Ready (Inl e)), (Waiting stream1, s1\<lparr>world := w\<rparr>))
    | Inl e \<Rightarrow> (Ret (Ready (Inl e)), (Waiting stream1, s1\<lparr>world := w\<rparr>)))"
proof -
  have "sys_ref (ux_take_error N) (stream1, s1) = (Ret r, (stream1, s1\<lparr>world := w\<rparr>))"
    using assms(2,3) by (simp add: sys_ref_def PollEvented_get_ref_def)
  with assms(1) show ?thesis by (auto simp: UnixConnectFuture_poll_def split: sum.splits option.splits)
qed

text \<open>C37: the future of \<^verbatim>\<open>UnixStream::connect\<close> while it waits: \<^verbatim>\<open>Pending\<close> leaves it waiting with the task parked for
  writing; it completes with a stream only if the kernel reports no pending error, and is empty then; but an error
  does not finish it, unlike in TCP: the stream of the failed connection stays in it, and since \<^verbatim>\<open>take_error\<close> clears the
  error, polling again returns that stream as connected.\<close>

theorem uds_connect_future:
  assumes "pe_good E (stream, s)" and "pe_failed (stream, s) = None"
  shows "\<exists>r st' s'. UnixConnectFuture_poll E al N cx (Waiting stream, s) = (Ret r, (st', s')) \<and>
    (case r of
       Pending \<Rightarrow> \<exists>stream'. st' = Waiting stream' \<and> pe_good E (stream', s') \<and> pe_parked E Write cx (stream', s')
     | Ready (Inr stream') \<Rightarrow> st' = Empty \<and> pe_good E (stream', s') \<and>
         (\<exists>io w. ux_take_error N io w = (Inr None, world s'))
     | Ready (Inl e) \<Rightarrow> \<exists>stream'. st' = Waiting stream' \<and> pe_good E (stream', s') \<and>
         ((\<forall>io. fst (ux_take_error N io (world s')) = Inr None) \<longrightarrow>
           (\<exists>stream'' s''. UnixConnectFuture_poll E al N cx (st', s') = (Ret (Ready (Inr stream'')), (Empty, s'')))))"
proof (cases "\<exists>v y. poll_write_ready E al cx (stream, s) = (Ret (Ready (Inr v)), y)")
  case False
  with write_spec [OF assms, of al cx] obtain pe t where
    "poll_write_ready E al cx (stream, s) = (Ret Pending, (pe, t))" "pe_good E (pe, t)" "pe_parked E Write cx (pe, t)"
    by (force split: if_splits)
  then show ?thesis by (auto simp: UnixConnectFuture_poll_def)
next
  case True
  then obtain v pe t where v: "poll_write_ready E al cx (stream, s) = (Ret (Ready (Inr v)), (pe, t))" by fastforce
  note again = write_again [OF assms v]
  obtain io where io: "pe_io pe = Some io" using again(1) by (auto simp: pe_good_def)
  obtain r w where te: "ux_take_error N io (world t) = (r, w)" by fastforce
  have "\<exists>stream'' s''. UnixConnectFuture_poll E al N cx (Waiting pe, t\<lparr>world := w\<rparr>) =
      (Ret (Ready (Inr stream'')), (Empty, s''))" if clear: "\<forall>io. fst (ux_take_error N io w) = Inr None"
  proof -
    from again(2) [of w] obtain v' pe' t' where v': "poll_write_ready E al cx (pe, t\<lparr>world := w\<rparr>) =
        (Ret (Ready (Inr v')), (pe', t'))" "pe_io pe' = Some io" "world t' = w" using io by auto
    obtain w' where "ux_take_error N io (world t') = (Inr None, w')" using clear v'(3) by (metis prod.collapse)
    from uds_connect_run [OF v'(1,2) this] show ?thesis by simp
  qed
  with uds_connect_run [OF v io te] again(1) te show ?thesis by (auto split: sum.splits option.splits)
qed

lemma pe_hup_write: "pe_vis (std_ext []) Write pe_hup = 8" "writable (std_ext []) = 2"
  by (simp_all add: pe_vis_def pe_entry_def pe_hup_def sys_hup_def reg0_def visible_def io_hup_def Direction_mask_def
      std_ext_def ls_get_def platform_hup_def)

theorem uds_connect_future_witness:
  "\<exists>stream st' s' s''. UnixConnectFuture_poll (std_ext []) alloc0 (std_uds (IoError Other ''refused'')) 5
      (Waiting (fst pe_hup), sys_hup) = (Ret (Ready (Inl (IoError Other ''refused''))), (st', s')) \<and>
    UnixConnectFuture_poll (std_ext []) alloc0 (std_uds (IoError Other ''refused'')) 5 (st', s') =
      (Ret (Ready (Inr stream)), (Empty, s''))"
proof -
  let ?N = "std_uds (IoError Other ''refused'')"
  have pe: "(fst pe_hup, sys_hup) = pe_hup" by (simp add: pe_hup_def)
  obtain v y where v: "poll_write_ready (std_ext []) alloc0 5 (fst pe_hup, sys_hup) = (Ret (Ready (Inr v)), y)"
    "pe_keep y = pe_keep pe_hup"
    using write_spec [OF pe_hup_good pe_hup_ok, of alloc0 5] by (auto simp: pe pe_hup_write pe_hup_bits split: if_splits)
  have y: "pe_io (fst y) = Some 7" "world (snd y) = 0" using v(2) by (auto simp: pe_hup_def sys_hup_def sys0_def)
  have "ux_take_error ?N 7 (world (snd y)) = (Inr (Some (IoError Other ''refused'')), 1)" by (simp add: y std_uds_def)
  from uds_connect_run [where ?stream1.0 = "fst y" and ?s1.0 = "snd y", OF _ y(1) this] v(1) have
    run: "UnixConnectFuture_poll (std_ext []) alloc0 ?N 5 (Waiting (fst pe_hup), sys_hup) =
      (Ret (Ready (Inl (IoError Other ''refused''))), (Waiting (fst y), (snd y)\<lparr>world := 1\<rparr>))" by simp
  have "\<forall>io. fst (ux_take_error ?N io (world ((snd y)\<lparr>world := 1\<rparr>))) = Inr None" by (simp add: std_uds_def)
  with uds_connect_future [of "std_ext []" "fst pe_hup" sys_hup alloc0 ?N 5] pe_hup_good pe_hup_ok run show ?thesis
    by (auto simp: pe)
qed

end
