(* ===== verification/Runtime.thy ===== *)
theory Runtime
  imports Tcp Udp Uds
begin

text \<open>
  A whole program: any number of resources (\<^verbatim>\<open>PollEvented\<close>, on which every socket is built) that share the process, its
  reactors and the fallback handle. The theory states when such a program is well-formed, shows that every public
  operation, every drop and every turn of a reactor keeps it so, and derives that none of them ever panics.

  A call is a step of its own; what happens inside one when threads interleave is the subject of
  \<open>Registration_Protocol\<close>, \<open>Dispatch_Lock\<close> and \<open>Handle_Global\<close>.
\<close>

section \<open>Vocabulary\<close>

text \<open>The entry at a key of the reactor at an address; the reactor and the entry a resource refers to.\<close>

definition entry_at :: "('aw, 'sl, 'w) ext \<Rightarrow> ('sl, 'w) sys \<Rightarrow> usize \<times> usize \<Rightarrow> 'aw scheduled_io option" where
  "entry_at E s = (\<lambda>(a, k). case inners s a of None \<Rightarrow> None | Some inn \<Rightarrow> sl_get E (io_dispatch inn) k)"

definition pe_addr :: "PollEvented \<Rightarrow> usize option" where
  "pe_addr pe = (case reg_inner (registration pe) of None \<Rightarrow> None | Some i \<Rightarrow> Some (hp_inner (handle i)))"

definition pe_slot :: "('sl, 'w) sys \<Rightarrow> PollEvented \<Rightarrow> (usize \<times> usize) option" where
  "pe_slot s pe = (case reg_inner (registration pe) of
      None \<Rightarrow> None
    | Some i \<Rightarrow> if token i = ERROR \<or> inners s (hp_inner (handle i)) = None then None
               else Some (hp_inner (handle i), token i))"

text \<open>How many resources hold a weak pointer to a reactor, and how many refer to one entry.\<close>

definition weak_refs :: "PollEvented list \<Rightarrow> usize \<Rightarrow> nat" where
  "weak_refs ps a = length (filter (\<lambda>pe. pe_addr pe = Some a) ps)"

definition owners :: "('sl, 'w) sys \<Rightarrow> PollEvented list \<Rightarrow> usize \<times> usize \<Rightarrow> nat" where
  "owners s ps p = length (filter (\<lambda>pe. pe_slot s pe = Some p) ps)"

definition fallback_refs :: "('sl, 'w) sys \<Rightarrow> usize \<Rightarrow> nat" where
  "fallback_refs s a = (if a \<noteq> 0 \<and> HANDLE_FALLBACK s = a then 1 else 0)"

definition pe_fresh :: "PollEvented \<Rightarrow> bool" where
  "pe_fresh pe \<longleftrightarrow> registration pe = Registration_new"

definition pe_cell_ok :: "PollEvented \<Rightarrow> bool" where
  "pe_cell_ok pe \<longleftrightarrow> pe_io pe \<noteq> None \<and>
     (pe_fresh pe \<or> reg_state (registration pe) = READY \<and> reg_inner (registration pe) \<noteq> None)"

text \<open>
  Well-formed: every reactor satisfies its invariant; every resource is new or associated, and its entry exists
  while its reactor lives; no two resources share an entry; the weak counts cover all pointers, so that the
  allocator cannot give the address of a reactor away while somebody refers to it.
\<close>

definition rt_wf :: "('aw, 'sl, 'w) ext \<Rightarrow> PollEvented list \<times> ('sl, 'w) sys \<Rightarrow> bool" where
  "rt_wf E = (\<lambda>(ps, s).
     CURRENT_REACTOR s = None \<and>
     (\<forall>a inn. inners s a = Some inn \<longrightarrow> inner_ok E inn) \<and>
     (\<forall>pe \<in> set ps. pe_cell_ok pe \<and> (\<forall>p. pe_slot s pe = Some p \<longrightarrow> entry_at E s p \<noteq> None)) \<and>
     (\<forall>p. owners s ps p \<le> 1) \<and>
     (\<forall>a. weak_refs ps a + fallback_refs s a \<le> weak s a))"

text \<open>An address the allocator may return for a new \<^verbatim>\<open>Arc<Inner>\<close>.\<close>

definition fresh_addr :: "('sl, 'w) sys \<Rightarrow> usize \<Rightarrow> bool" where
  "fresh_addr s a \<longleftrightarrow> a \<noteq> 0 \<and> inners s a = None \<and> weak s a = 0"

text \<open>
  A socket as the rest of the program sees it: new; dead, because its association failed or its reactor is gone; or
  live, with its reactor and the readiness and the waiting tasks of its entry. \<open>own\<close> is what a call on a socket may do to
  it: a new socket may become registered, with no readiness yet; a live one stays live and with its reactor, only loses
  readiness, never \<^verbatim>\<open>hup\<close>, and does not lose a waiting task except to another one; a dead one stays dead.
\<close>

datatype sock = Fresh | Dead | Live usize usize "task option" "task option"

definition abs_sock :: "('aw, 'sl, 'w) ext \<Rightarrow> ('sl, 'w) sys \<Rightarrow> PollEvented \<Rightarrow> sock" where
  "abs_sock E s pe = (if pe_fresh pe then Fresh else
     (case pe_slot s pe of
        None \<Rightarrow> Dead
      | Some p \<Rightarrow> (case entry_at E s p of
          None \<Rightarrow> Dead
        | Some io \<Rightarrow> Live (fst p) (readiness io) (waiter E Read io) (waiter E Write io))))"

definition own :: "('aw, 'sl, 'w) ext \<Rightarrow> sock \<Rightarrow> sock \<Rightarrow> bool" where
  "own E x y = (case x of
      Fresh \<Rightarrow> (case y of Live _ r _ _ \<Rightarrow> r = 0 | _ \<Rightarrow> True)
    | Dead \<Rightarrow> y = Dead
    | Live h r a b \<Rightarrow> (case y of
        Live h' r' a' b' \<Rightarrow> h' = h \<and> r' AND NOT r = 0 \<and> r' AND platform_hup E = r AND platform_hup E \<and>
          (a' = None \<longrightarrow> a = None) \<and> (b' = None \<longrightarrow> b = None)
      | _ \<Rightarrow> False))"

text \<open>
  The context of a call: the resources before and after the one it is made on, and what must not change for them: the
  entries that are none of the call's business and the slots of the other resources; and what the socket was.
\<close>

record 'aw ctx =
  c_entries :: "usize \<times> usize \<Rightarrow> 'aw scheduled_io option"
  c_slots :: "PollEvented \<Rightarrow> (usize \<times> usize) option"
  c_start :: sock

definition left_alone :: "('aw, 'sl, 'w) ext \<Rightarrow> 'aw ctx \<Rightarrow> PollEvented list \<Rightarrow> ('sl, 'w) sys \<Rightarrow> bool" where
  "left_alone E G qs s \<longleftrightarrow> c_entries G \<subseteq>\<^sub>m entry_at E s \<and> (\<forall>q \<in> set qs. pe_slot s q = c_slots G q)"

definition in_ctx ::
  "('aw, 'sl, 'w) ext \<Rightarrow> alloc \<Rightarrow> PollEvented list \<Rightarrow> PollEvented list \<Rightarrow> 'aw ctx \<Rightarrow> ('sl, 'w) pst \<Rightarrow> bool" where
  "in_ctx E al l r G = (\<lambda>(pe, s). rt_wf E (l @ pe # r, s) \<and>
     (pe_fresh pe \<longrightarrow> fresh_addr s (new_arc al)) \<and> left_alone E G (l @ r) s \<and>
     (\<forall>p. pe_slot s pe = Some p \<longrightarrow> c_entries G p = None) \<and> own E (c_start G) (abs_sock E s pe))"

text \<open>The entries a call on a resource must leave alone, and the context it starts in.\<close>

definition others :: "('aw, 'sl, 'w) ext \<Rightarrow> PollEvented \<Rightarrow> ('sl, 'w) sys \<Rightarrow> usize \<times> usize \<Rightarrow> 'aw scheduled_io option" where
  "others E pe s = (\<lambda>p. if pe_slot s pe = Some p then None else entry_at E s p)"

definition ctx_of :: "('aw, 'sl, 'w) ext \<Rightarrow> PollEvented \<Rightarrow> ('sl, 'w) sys \<Rightarrow> 'aw ctx" where
  "ctx_of E pe s = \<lparr>c_entries = others E pe s, c_slots = pe_slot s, c_start = abs_sock E s pe\<rparr>"

section \<open>The program\<close>

text \<open>A call whose result is not looked at.\<close>

definition discard :: "('s, 'a) op \<Rightarrow> ('s, unit) op" where
  "discard m = bnd m (\<lambda>_. ret ())"

text \<open>Everything a program can call on a socket it holds; \<open>sys_ref f\<close> stands for the queries and the options, results left out.\<close>

inductive_set calls :: "('aw, 'sl, 'w) ext \<Rightarrow> alloc \<Rightarrow> (('sl, 'w) pst, unit) op set"
  for E :: "('aw, 'sl, 'w) ext" and al :: alloc where
  "discard (poll_read_ready E al t) \<in> calls E al"
| "discard (poll_write_ready E al t) \<in> calls E al"
| "discard (clear_read_ready E al t) \<in> calls E al"
| "discard (clear_write_ready E al t) \<in> calls E al"
| "discard (PollEvented_poll_read E al rd t buf) \<in> calls E al"
| "discard (PollEvented_poll_write E al wr t buf) \<in> calls E al"
| "discard (PollEvented_poll_flush E al fl t) \<in> calls E al"
| "discard (PollEvented_poll_close t) \<in> calls E al"
| "discard (TcpListener_poll_ready E al N t) \<in> calls E al"
| "discard (UdpSocket_poll_send_to E al U t buf target) \<in> calls E al"
| "discard (UdpSocket_poll_recv_from E al U t buf) \<in> calls E al"
| "discard (UnixDatagram_poll_send_to E al X t buf path) \<in> calls E al"
| "discard (UnixDatagram_poll_recv_from E al X t buf) \<in> calls E al"
| "discard (UnixListener_poll_ready E al X t) \<in> calls E al"
| "discard (TcpListener_fmt dbg) \<in> calls E al"
| "discard (TcpStream_fmt dbg) \<in> calls E al"
| "discard (UdpSocket_fmt dbg) \<in> calls E al"
| "discard (UnixDatagram_fmt dbg) \<in> calls E al"
| "discard (UnixListener_fmt dbg) \<in> calls E al"
| "discard (UnixStream_fmt dbg) \<in> calls E al"
| "sys_ref f \<in> calls E al"

text \<open>
  What is left when the future of a \<^verbatim>\<open>connect\<close> that waits on a socket has been polled: the socket in the future,
  the socket it returned, or nothing.
\<close>

definition after_connect :: "ConnectFutureState \<Rightarrow> PollEvented io_result poll outcome \<Rightarrow> PollEvented list" where
  "after_connect st q = (case st of
      Waiting stream \<Rightarrow> [stream]
    | _ \<Rightarrow> (case q of Ret (Ready (Inr stream)) \<Rightarrow> [stream] | _ \<Rightarrow> []))"

text \<open>The steps of a program: resources come and go, are called upon, and reactors run, also fail.\<close>

inductive rt_step ::
  "('aw, 'sl, 'w) ext \<Rightarrow> PollEvented list \<times> ('sl, 'w) sys \<Rightarrow> PollEvented list \<times> ('sl, 'w) sys \<Rightarrow> bool" for E where
  rt_open: "rt_step E (ps, s) (PollEvented_new io # ps, s\<lparr>world := w\<rparr>)"
| rt_call: "m \<in> calls E al \<Longrightarrow> fresh_addr s (new_arc al) \<Longrightarrow> m (pe, s) = (q, (pe', s')) \<Longrightarrow>
     rt_step E (l @ pe # r, s) (l @ pe' # r, s')"
| rt_tcp_connect: "fresh_addr s (new_arc al) \<Longrightarrow> TcpConnectFuture_poll E al N t (Waiting pe, s) = (q, (st, s')) \<Longrightarrow>
     rt_step E (l @ pe # r, s) (l @ after_connect st q @ r, s')"
| rt_uds_connect: "fresh_addr s (new_arc al) \<Longrightarrow> UnixConnectFuture_poll E al X t (Waiting pe, s) = (q, (st, s')) \<Longrightarrow>
     rt_step E (l @ pe # r, s) (l @ after_connect st q @ r, s')"
| rt_drop: "PollEvented_drop E pe s = (q, s') \<Longrightarrow> rt_step E (l @ pe # r, s) (l @ r, s')"
| rt_reactor: "fresh_addr s addr \<Longrightarrow> Reactor_new E addr s = (q, s') \<Longrightarrow> rt_step E (ps, s) (ps, s')"
| rt_turn: "inners s (r_inner rct) \<noteq> None \<Longrightarrow> Reactor_turn E max_wait (rct, s) = (q, (rct', s')) \<Longrightarrow>
     rt_step E (ps, s) (ps, s')"
| rt_reactor_drop: "rt_step E (ps, s) (ps, Reactor_drop E rct s)"

definition rt_init :: "PollEvented list \<times> ('sl, 'w) sys \<Rightarrow> bool" where
  "rt_init x \<longleftrightarrow> fst x = [] \<and> inners (snd x) = Map.empty \<and> HANDLE_FALLBACK (snd x) = 0 \<and> CURRENT_REACTOR (snd x) = None"

section \<open>Totality of the resource's operations\<close>

lemma keeps_drain:
  assumes "keeps K poll_ready" and "\<And>c x. K x \<Longrightarrow> K (store c x)"
  shows "keeps K (drain poll_ready store m n c b)"
proof (induction n arbitrary: c b)
  case 0
  show ?case by (simp add: keeps_def)
next
  case (Suc n)
  have "keeps K (\<lambda>s1. let cached1 = c OR v; s2 = store cached1 s1; ret1 = b OR (v AND m)
       in if ret1 \<noteq> 0 then (Ret (Ready (Inr ret1)), s2) else drain poll_ready store m n cached1 ret1 s2)" for v
    by (rule keepsI) (auto simp: Let_def split: if_splits intro: assms(2) keepsD [OF Suc.IH])
  from keeps_ready_try [OF assms(1) this] show ?case by (simp add: keeps_def)
qed

lemma keeps_poll_cached:
  assumes "keeps K poll_ready" and "keeps K take_ready" and "\<And>c x. K x \<Longrightarrow> K (store c x)"
  shows "keeps K (poll_cached poll_ready take_ready load store b m)"
proof (rule keepsI)
  fix x r x'
  assume x: "K x" "poll_cached poll_ready take_ready load store b m x = (r, x')"
  let ?k = "\<lambda>q s1. case q of None \<Rightarrow> (Ret (Ready (Inr (load x))), s1)
    | Some ready \<Rightarrow> let cached1 = load x OR ready in (Ret (Ready (Inr cached1)), store cached1 s1)"
  have "keeps K (?k q)" for q by (rule keepsI) (auto simp: Let_def split: option.splits intro: assms(3))
  note take = keepsD [OF keeps_try_pollio [OF assms(2) this] x(1)]
  have "keeps K (drain poll_ready store m 2 (load x) 0)" by (rule keeps_drain [OF assms(1)]) (rule assms(3))
  note drain = keepsD [OF this x(1)]
  show "K x'"
  proof (cases "load x AND b = 0")
    case True
    with x(2) have "drain poll_ready store m 2 (load x) 0 x = (r, x')" by (simp add: poll_cached_def)
    then show ?thesis by (rule drain)
  next
    case False
    with x(2) have "try_pollio take_ready ?k x = (r, x')" by (simp add: poll_cached_def Let_def)
    then show ?thesis by (rule take)
  qed
qed

lemma total_attempt [total_intros]:
  "total_on K ready \<Longrightarrow> total_on K clear \<Longrightarrow> total_on K call \<Longrightarrow> total_on K (attempt ready clear call)"
  unfolding attempt_def by (auto intro!: total_intros)

section \<open>Well-formedness\<close>

lemma rt_wfD:
  assumes "rt_wf E (ps, s)"
  shows "CURRENT_REACTOR s = None" and "inners s a = Some inn \<Longrightarrow> inner_ok E inn"
    and "pe \<in> set ps \<Longrightarrow> pe_cell_ok pe" and "pe \<in> set ps \<Longrightarrow> pe_slot s pe = Some p \<Longrightarrow> entry_at E s p \<noteq> None"
    and "owners s ps p \<le> 1" and "weak_refs ps a + fallback_refs s a \<le> weak s a"
  using assms unfolding rt_wf_def by blast+

lemma rt_wfI:
  assumes "CURRENT_REACTOR s = None" and "\<And>a inn. inners s a = Some inn \<Longrightarrow> inner_ok E inn"
    and "\<And>pe. pe \<in> set ps \<Longrightarrow> pe_cell_ok pe \<and> (\<forall>p. pe_slot s pe = Some p \<longrightarrow> entry_at E s p \<noteq> None)"
    and "\<And>p. owners s ps p \<le> 1" and "\<And>a. weak_refs ps a + fallback_refs s a \<le> weak s a"
  shows "rt_wf E (ps, s)"
  unfolding rt_wf_def prod.case using assms by blast

lemma weak_refs_simps [simp]:
  "weak_refs [] a = 0" "weak_refs (pe # ps) a = (if pe_addr pe = Some a then 1 else 0) + weak_refs ps a"
  "weak_refs (ps @ qs) a = weak_refs ps a + weak_refs qs a"
  by (simp_all add: weak_refs_def)

lemma owners_simps [simp]:
  "owners s [] p = 0" "owners s (pe # ps) p = (if pe_slot s pe = Some p then 1 else 0) + owners s ps p"
  "owners s (ps @ qs) p = owners s ps p + owners s qs p"
  by (simp_all add: owners_def)

lemma owners_mono:
  assumes "\<And>pe. pe \<in> set ps \<Longrightarrow> pe_slot s' pe = Some p \<Longrightarrow> pe_slot s pe = Some p"
  shows "owners s' ps p \<le> owners s ps p"
  using assms by (induction ps) auto

lemma owners_pos: "0 < owners s ps p \<longleftrightarrow> (\<exists>pe \<in> set ps. pe_slot s pe = Some p)"
  by (induction ps) auto

lemma weak_refs_pos: "0 < weak_refs ps a \<longleftrightarrow> (\<exists>pe \<in> set ps. pe_addr pe = Some a)"
  by (induction ps) auto

lemma pe_slot_addr: "pe_slot s pe = Some (a, k) \<Longrightarrow> pe_addr pe = Some a \<and> inners s a \<noteq> None"
  by (auto simp: pe_slot_def pe_addr_def split: option.splits if_splits)

lemma pe_slot_cong:
  assumes "\<And>a. pe_addr pe = Some a \<Longrightarrow> inners s' a = None \<longleftrightarrow> inners s a = None"
  shows "pe_slot s' pe = pe_slot s pe"
  using assms by (auto simp: pe_slot_def pe_addr_def split: option.splits)


text \<open>What the operating system does in a step is no business of well-formedness.\<close>

lemma rt_wf_world [simp]: "rt_wf E (ps, s\<lparr>world := w\<rparr>) = rt_wf E (ps, s)"
proof -
  have "pe_slot (s\<lparr>world := w\<rparr>) = pe_slot s" "entry_at E (s\<lparr>world := w\<rparr>) = entry_at E s"
    by (simp_all add: pe_slot_def entry_at_def fun_eq_iff split: option.split)
  then show ?thesis by (simp add: rt_wf_def owners_def fallback_refs_def)
qed

lemma fresh_addr_world [simp]: "fresh_addr (s\<lparr>world := w\<rparr>) a = fresh_addr s a"
  by (simp add: fresh_addr_def)

text \<open>Steps that keep every reactor, every entry and every handle keep well-formedness.\<close>

lemma rt_wf_mono:
  assumes "rt_wf E (ps, s)" and "map (\<lambda>pe. (registration pe, pe_io pe)) ps' = map (\<lambda>pe. (registration pe, pe_io pe)) ps"
    and "CURRENT_REACTOR s' = CURRENT_REACTOR s" "HANDLE_FALLBACK s' = HANDLE_FALLBACK s" "weak s' = weak s"
    and "\<And>a. inners s' a = None \<longleftrightarrow> inners s a = None" and "\<And>a inn. inners s' a = Some inn \<Longrightarrow> inner_ok E inn"
    and "\<And>p. entry_at E s p \<noteq> None \<Longrightarrow> entry_at E s' p \<noteq> None"
  shows "rt_wf E (ps', s')"
proof -
  note wf = rt_wfD [OF assms(1)]
  have slot: "pe_slot s' pe = pe_slot s pe" for pe by (rule pe_slot_cong) (rule assms(6))
  have regs: "map registration ps' = map registration ps" using arg_cong [OF assms(2), of "map fst"] by (simp add: comp_def)
  have cong: "length (filter (\<lambda>pe. Q (registration pe)) ps') = length (filter (\<lambda>pe. Q (registration pe)) ps)" for Q
    using arg_cong [OF regs, of "\<lambda>rs. length (filter Q rs)"] by (simp add: filter_map comp_def)
  have mem: "\<exists>pe \<in> set ps. registration pe = registration pe' \<and> pe_io pe = pe_io pe'" if "pe' \<in> set ps'" for pe'
  proof -
    have "(registration pe', pe_io pe') \<in> set (map (\<lambda>pe. (registration pe, pe_io pe)) ps')" using that by simp
    then show ?thesis unfolding assms(2) by auto
  qed
  have "pe_cell_ok pe' \<and> (\<forall>p. pe_slot s' pe' = Some p \<longrightarrow> entry_at E s' p \<noteq> None)" if m: "pe' \<in> set ps'" for pe'
  proof -
    obtain pe where pe: "pe \<in> set ps" "registration pe = registration pe'" "pe_io pe = pe_io pe'" using mem [OF m] by blast
    then have "pe_cell_ok pe' = pe_cell_ok pe" "pe_slot s pe' = pe_slot s pe"
      by (simp_all add: pe_cell_ok_def pe_fresh_def pe_slot_def)
    with wf(3,4) [OF pe(1)] show ?thesis by (simp add: slot assms(8))
  qed
  moreover have "owners s' ps' p = owners s ps p" for p
    unfolding owners_def slot unfolding pe_slot_def by (rule cong)
  moreover have "weak_refs ps' a = weak_refs ps a" for a
    unfolding weak_refs_def pe_addr_def by (rule cong)
  ultimately show ?thesis using wf(1,5,6) assms(3-5,7) by (simp add: rt_wf_def fallback_refs_def)
qed

lemma entry_at_set:
  assumes "ext_ok E" and "inners s a = Some inn" and "inner_ok E inn" and "sl_get E (io_dispatch inn) k = Some io"
  shows "entry_at E (s\<lparr>inners := (inners s)(a \<mapsto> inn\<lparr>io_dispatch := sl_set E (io_dispatch inn) k io'\<rparr>)\<rparr>) =
    (entry_at E s)((a, k) \<mapsto> io')"
  using slab_set(1) [OF assms(1) inner_ok_fits [OF assms(3)] assms(4)] assms(2)
  by (auto simp: entry_at_def fun_eq_iff)

section \<open>A call on one resource\<close>

lemma own_refl [simp]: "own E x x"
  by (cases x) (simp_all add: own_def)

lemma own_trans: "own E x y \<Longrightarrow> own E y z \<Longrightarrow> own E x z"
  by (cases x; cases y; cases z) (auto simp: own_def bit_eq_iff bit_simps)

lemma abs_sock_cong:
  "pe_fresh pe' = pe_fresh pe \<Longrightarrow> pe_slot s' pe' = pe_slot s pe \<Longrightarrow> entry_at E s' = entry_at E s \<Longrightarrow>
   abs_sock E s' pe' = abs_sock E s pe"
  by (simp add: abs_sock_def split: option.split)

lemma abs_sock_world [simp]: "abs_sock E (s\<lparr>world := w\<rparr>) = abs_sock E s"
proof (rule ext, rule abs_sock_cong)
  show "pe_slot (s\<lparr>world := w\<rparr>) pe = pe_slot s pe" for pe by (rule pe_slot_cong) simp
qed (simp_all add: entry_at_def)

lemma in_ctx_of:
  "rt_wf E (l @ pe # r, s) \<Longrightarrow> (pe_fresh pe \<Longrightarrow> fresh_addr s (new_arc al)) \<Longrightarrow> in_ctx E al l r (ctx_of E pe s) (pe, s)"
  by (auto simp: in_ctx_def left_alone_def ctx_of_def others_def map_le_def dom_def split: if_splits)

lemma in_ctx_good:
  assumes "ext_ok E" and "in_ctx E al l r G x" and "\<not> pe_fresh (fst x)"
  shows "pe_good E x"
proof -
  obtain pe s where x: "x = (pe, s)" by fastforce
  then have wf: "rt_wf E (l @ pe # r, s)" using assms(2) by (simp add: in_ctx_def)
  have cell: "pe_io pe \<noteq> None" "reg_state (registration pe) = READY" "reg_inner (registration pe) \<noteq> None"
    using rt_wfD(3) [OF wf, of pe] assms(3) by (auto simp: pe_cell_ok_def x)
  moreover have "\<exists>i inn io. associated E (registration pe) s i inn io" if "pe_failed x = None"
  proof -
    from that cell(3) obtain i inn where i: "reg_inner (registration pe) = Some i" "token i \<noteq> ERROR"
      "inners s (hp_inner (handle i)) = Some inn"
      by (auto simp: pe_failed_def x split: if_splits)
    then have "pe_slot s pe = Some (hp_inner (handle i), token i)" by (simp add: pe_slot_def)
    then have "entry_at E s (hp_inner (handle i), token i) \<noteq> None" by (intro rt_wfD(4) [OF wf, of pe]) simp_all
    then show ?thesis using i cell(2) rt_wfD(2) [OF wf i(3)] by (auto simp: associated_def entry_at_def)
  qed
  ultimately show ?thesis using assms(1) by (simp add: pe_good_def x)
qed


lemma rt_wf_good:
  assumes "ext_ok E" and "rt_wf E (ps, s)" and "pe \<in> set ps" and "\<not> pe_fresh pe"
  shows "pe_good E (pe, s)"
proof -
  obtain l r where "ps = l @ pe # r" using split_list [OF assms(3)] by blast
  with assms(2,4) have "in_ctx E al l r (ctx_of E pe s) (pe, s)" for al by (intro in_ctx_of) simp_all
  from in_ctx_good [OF assms(1) this] assms(4) show ?thesis by simp
qed

lemma in_ctx_frame:
  assumes "in_ctx E al l r G (pe, s)" and "registration pe' = registration pe" "pe_io pe' = pe_io pe"
    and "inners s' = inners s" "CURRENT_REACTOR s' = CURRENT_REACTOR s" "HANDLE_FALLBACK s' = HANDLE_FALLBACK s"
    "weak s' = weak s"
  shows "in_ctx E al l r G (pe', s')"
proof -
  have wf: "rt_wf E (l @ pe # r, s)" using assms(1) by (simp add: in_ctx_def)
  have same: "entry_at E s' = entry_at E s" "pe_slot s' pe' = pe_slot s pe" "fresh_addr s' = fresh_addr s"
    "pe_fresh pe' = pe_fresh pe"
    using assms(2-) by (simp_all add: entry_at_def pe_slot_def fresh_addr_def pe_fresh_def fun_eq_iff split: option.split)
  have "rt_wf E (l @ pe' # r, s')"
    by (rule rt_wf_mono [OF wf]) (use assms(2-) same rt_wfD(2) [OF wf] in simp_all)
  moreover have "pe_slot s' = pe_slot s" using assms(4) by (simp add: pe_slot_def fun_eq_iff split: option.split)
  moreover have "abs_sock E s' pe' = abs_sock E s pe" by (rule abs_sock_cong) (use same in simp_all)
  ultimately show ?thesis using assms(1) same by (simp add: in_ctx_def left_alone_def)
qed

lemma total_sys_call [total_intros]: "total_on (in_ctx E al l r G) (sys_call f)"
proof -
  have "\<exists>q x'. sys_call f (pe, s) = (Ret q, x') \<and> in_ctx E al l r G x'" if x: "in_ctx E al l r G (pe, s)" for pe s
  proof -
    have "rt_wf E (l @ pe # r, s)" using x by (simp add: in_ctx_def)
    then obtain io where io: "pe_io pe = Some io" using rt_wfD(3) [of E "l @ pe # r" s pe] by (auto simp: pe_cell_ok_def)
    obtain q w where "f io (world s) = (q, w)" by fastforce
    with io have "sys_call f (pe, s) = (Ret q, (pe, s\<lparr>world := w\<rparr>))" by (simp add: sys_call_def PollEvented_get_mut_def)
    moreover have "in_ctx E al l r G (pe, s\<lparr>world := w\<rparr>)" by (rule in_ctx_frame [OF x]) simp_all
    ultimately show ?thesis by blast
  qed
  then show ?thesis by (simp add: total_on_def)
qed

lemma total_sys_ref [total_intros]: "total_on (in_ctx E al l r G) (sys_ref f)"
  unfolding sys_ref_eq by (rule total_sys_call)

lemma total_world_call [total_intros]: "total_on (in_ctx E al l r G) (world_call f)"
  by (auto simp: total_on_def world_call_def split: prod.split intro: in_ctx_frame)

lemma total_wake_by_ref [total_intros]: "total_on (in_ctx E al l r G) (wake_by_ref t)"
  by (auto simp: total_on_def intro: in_ctx_frame)

lemma in_ctx_store:
  assumes "in_ctx E al l r G x"
  shows "in_ctx E al l r G (store_dir d c x)"
proof -
  obtain pe s pe' s' where x: "x = (pe, s)" "store_dir d c x = (pe', s')" by fastforce
  then have f: "registration pe' = registration pe" "pe_io pe' = pe_io pe" "s' = s"
    using store_dir_fields [of d c x] by simp_all
  show ?thesis unfolding x(2) f(3) by (rule in_ctx_frame [OF assms [unfolded x(1)] f(1,2)]) simp_all
qed

text \<open>Polling the registration changes at most the resource's own entry.\<close>

lemma own_poll:
  assumes "ext_ok E" and "poll_entry E cx d io = (q, io')"
  shows "own E (Live a (readiness io) (waiter E Read io) (waiter E Write io))
    (Live a (readiness io') (waiter E Read io') (waiter E Write io'))"
proof -
  note spec = poll_entry_spec [OF assms(2)]
  have "waiter E e io' = None \<longrightarrow> waiter E e io = None" for e
    using spec(4,5) assms(1) by (cases d; cases e) (auto simp: waiter_def cell_of_def split: option.splits if_splits)
  then show ?thesis by (auto simp: own_def spec(2) bit_eq_iff bit_simps)
qed

lemma in_ctx_set_entry:
  assumes "ext_ok E" and "in_ctx E al l r G (pe, s)" and "\<not> pe_fresh pe" and "associated E (registration pe) s i inn io"
    and "poll_entry E cx d io = (q, io')"
  defines "s' \<equiv> s\<lparr>inners := (inners s)(hp_inner (handle i) \<mapsto> inn\<lparr>io_dispatch := sl_set E (io_dispatch inn) (token i) io'\<rparr>)\<rparr>"
  shows "in_ctx E al l r G (pe, s')"
proof -
  have wf: "rt_wf E (l @ pe # r, s)" using assms(2) by (simp add: in_ctx_def)
  note run = associated_poll [OF assms(1,4,5), folded s'_def] and A = assms(4) [unfolded associated_def]
  have ent: "entry_at E s' = (entry_at E s)((hp_inner (handle i), token i) \<mapsto> io')"
    unfolding s'_def using A by (intro entry_at_set [OF assms(1)]) auto
  have slot: "pe_slot s pe = Some (hp_inner (handle i), token i)" "pe_slot s' = pe_slot s"
    using A by (auto simp: pe_slot_def s'_def fun_eq_iff split: option.split)
  have "entry_at E s p \<noteq> None \<Longrightarrow> entry_at E s' p \<noteq> None" for p by (simp add: ent)
  moreover have "inners s' a = Some inn' \<Longrightarrow> inner_ok E inn'" for a inn'
    using run(2) rt_wfD(2) [OF wf, of a] by (auto simp: s'_def associated_def split: if_splits)
  ultimately have "rt_wf E (l @ pe # r, s')" by (intro rt_wf_mono [OF wf]) (use A in \<open>auto simp: s'_def\<close>)
  moreover have "entry_at E s (hp_inner (handle i), token i) = Some io" using A by (simp add: entry_at_def)
  then have "own E (abs_sock E s pe) (abs_sock E s' pe)"
    using own_poll [OF assms(1,5)] assms(3) slot by (simp add: abs_sock_def ent)
  ultimately show ?thesis
    using assms(2,3) slot own_trans by (auto simp: in_ctx_def left_alone_def ent map_le_def)
qed

lemma in_ctx_poll:
  assumes "ext_ok E" and "in_ctx E al l r G (pe, s)" and "reg_poll_ready E env b cx d (registration pe, s) = (q, (reg', s'))"
  shows "in_ctx E al l r G (pe\<lparr>registration := reg'\<rparr>, s')"
proof (cases "pe_fresh pe")
  case True
  then have "reg' = registration pe" "s' = s"
    using assms(3) by (auto simp: pe_fresh_def Registration_new_def reg_poll_ready_def numeral_2_eq_2)
  with assms(2) show ?thesis by simp
next
  case False
  then have good: "pe_good E (pe, s)" by (intro in_ctx_good [OF assms(1,2)]) simp
  show ?thesis
  proof (cases "pe_failed (pe, s)")
    case (Some e)
    with reg_poll_failed [OF good Some, of env b cx d] assms(2,3) show ?thesis by simp
  next
    case None
    then obtain i inn io where A: "associated E (registration pe) s i inn io" using good by (auto simp: pe_good_def)
    obtain q' io' where p: "poll_entry E cx d io = (q', io')" by fastforce
    from in_ctx_set_entry [OF assms(1,2) False A p] associated_poll(1) [OF assms(1) A p, of env b] assms(3)
    show ?thesis by auto
  qed
qed

lemma keeps_on_reg:
  assumes "ext_ok E"
  shows "keeps (in_ctx E al l r G) (on_reg (reg_poll_ready E env b cx d))"
    and "keeps (in_ctx E al l r G) (on_reg (bnd (reg_poll_ready E env b cx d) (\<lambda>q. ret (f q))))"
proof -
  show "keeps (in_ctx E al l r G) (on_reg (reg_poll_ready E env b cx d))"
    by (rule keepsI) (auto simp: on_reg_def split: prod.splits dest: in_ctx_poll [OF assms])
  show "keeps (in_ctx E al l r G) (on_reg (bnd (reg_poll_ready E env b cx d) (\<lambda>q. ret (f q))))"
    by (rule keepsI) (auto simp: on_reg_def bnd_def split: prod.splits outcome.splits dest: in_ctx_poll [OF assms])
qed


section \<open>Registering\<close>

lemma fresh_unlinked:
  assumes "rt_wf E (ps, s)" and "fresh_addr s a" and "pe \<in> set ps"
  shows "pe_addr pe \<noteq> Some a" and "HANDLE_FALLBACK s \<noteq> a"
  using rt_wfD(6) [OF assms(1), of a] assms(2,3) weak_refs_pos [of ps a]
  by (auto simp: fresh_addr_def fallback_refs_def split: if_splits)

text \<open>A reactor that appears at a fresh address, and perhaps dies at once, concerns nobody.\<close>

lemma rt_wf_reactor:
  assumes "rt_wf E (ps, s)" and "fresh_addr s b" and "inners s' = (inners s)(b := o_inn)"
    and "\<And>inn. o_inn = Some inn \<Longrightarrow> inner_ok E inn" and "CURRENT_REACTOR s' = CURRENT_REACTOR s"
    and "weak s' = (weak s)(b := n)" and "HANDLE_FALLBACK s' = HANDLE_FALLBACK s \<or> HANDLE_FALLBACK s' = b \<and> 0 < n"
  shows "rt_wf E (ps, s')" and "entry_at E s \<subseteq>\<^sub>m entry_at E s'" and "pe \<in> set ps \<Longrightarrow> pe_slot s' pe = pe_slot s pe"
proof -
  note wf = rt_wfD [OF assms(1)] and free = fresh_unlinked [OF assms(1,2)]
  have b: "inners s b = None" "weak s b = 0" "b \<noteq> 0" using assms(2) by (auto simp: fresh_addr_def)
  show le: "entry_at E s \<subseteq>\<^sub>m entry_at E s'"
  proof (unfold map_le_def, rule ballI)
    fix p
    assume "p \<in> dom (entry_at E s)"
    then have "fst p \<noteq> b" using b(1) by (auto simp: entry_at_def split: prod.splits option.splits)
    then show "entry_at E s p = entry_at E s' p" by (cases p) (simp add: entry_at_def assms(3))
  qed
  show slot: "pe_slot s' pe = pe_slot s pe" if "pe \<in> set ps" for pe
    using free(1) [OF that] by (intro pe_slot_cong) (auto simp: assms(3))
  have zero: "weak_refs ps b = 0" using wf(6) [of b] b(2) by simp
  have refs: "weak_refs ps a + fallback_refs s' a \<le> weak s' a" for a
  proof (cases "a = b")
    case True
    have "HANDLE_FALLBACK s \<noteq> b" using wf(6) [of b] b(2,3) by (auto simp: fallback_refs_def)
    with True zero assms(7) show ?thesis by (auto simp: assms(6) fallback_refs_def)
  next
    case False
    then have "fallback_refs s' a \<le> fallback_refs s a" using assms(7) by (auto simp: fallback_refs_def)
    with wf(6) [of a] False show ?thesis by (simp add: assms(6))
  qed
  have "owners s' ps p \<le> 1" for p
  proof -
    have "owners s' ps p \<le> owners s ps p" by (rule owners_mono) (simp add: slot)
    with wf(5) [of p] show ?thesis by simp
  qed
  moreover have "entry_at E s' p \<noteq> None" if "pe \<in> set ps" "pe_slot s' pe = Some p" for pe p
    using wf(4) [OF that(1), of p] that(2) slot [OF that(1)] map_le_at [OF le, of p] by simp
  moreover have "inners s' a = Some inn \<Longrightarrow> inner_ok E inn" for a inn
    using wf(2) [of a inn] assms(4) by (auto simp: assms(3) split: if_splits)
  ultimately show "rt_wf E (ps, s')" using wf(1,3) refs assms(5) by (simp add: rt_wf_def)
qed

lemma new_inner_ok:
  assumes "ext_ok E"
  shows "inner_ok E \<lparr>inner_io = p, next_aba_guard = 0, io_dispatch = sl_with_capacity E n, inner_wakeup = q\<rparr>"
  using assms by (simp add: inner_ok_def empty_slab_get)

lemma Reactor_new_spec:
  assumes "Reactor_new E addr s = (res, t)"
  obtains (err) e where "res = Ret (Inl e)" and "inners t = inners s" and "weak t = weak s"
      and "HANDLE_FALLBACK t = HANDLE_FALLBACK s" and "CURRENT_REACTOR t = CURRENT_REACTOR s"
    | (ok) rct p q where "res = Ret (Inr rct)" and "r_inner rct = addr"
      and "inners t = (inners s)(addr \<mapsto> \<lparr>inner_io = p, next_aba_guard = 0,
        io_dispatch = sl_with_capacity E 1, inner_wakeup = q\<rparr>)"
      and "weak t = weak s" and "HANDLE_FALLBACK t = HANDLE_FALLBACK s" and "CURRENT_REACTOR t = CURRENT_REACTOR s"
  using assms unfolding Reactor_new_def Let_def
  by (auto split: prod.splits sum.splits)

lemma fallback_init_current:
  "fallback_init E rct s = (res, t) \<Longrightarrow> CURRENT_REACTOR t = CURRENT_REACTOR s"
  by (auto simp: fallback_init_def Reactor_handle_def Handle_into_priv_def set_fallback_def Let_def bnd_def
      compare_and_swap_def HandlePriv_drop_def Reactor_drop_def Reactor_background_def Background_new_def
      Handle_clone_def HandlePriv_clone_def Handle_drop_def Background_forget_def
      split: option.splits prod.splits sum.splits outcome.splits if_splits)


lemma fallback_reify_wf:
  assumes "rt_wf E (ps, s)" and "HANDLE_FALLBACK s \<noteq> 0"
  defines "g \<equiv> HANDLE_FALLBACK s"
  defines "t \<equiv> s\<lparr>weak := (weak s)(g := Suc (weak s g))\<rparr>"
  shows "fallback_reify (HANDLE_FALLBACK s) s = (Ret (Inr \<lparr>hp_inner = g\<rparr>), t)" and "rt_wf E (ps, t)"
    and "weak_refs ps a + fallback_refs t a + (if hp_inner \<lparr>hp_inner = g\<rparr> = a then 1 else 0) \<le> weak t a"
    and "entry_at E s \<subseteq>\<^sub>m entry_at E t" and "pe_slot t q = pe_slot s q"
proof -
  note wf = rt_wfD [OF assms(1)]
  show "fallback_reify (HANDLE_FALLBACK s) s = (Ret (Inr \<lparr>hp_inner = g\<rparr>), t)"
    using assms(2) by (simp add: fallback_reify_eq g_def t_def)
  have refs: "weak_refs ps a + fallback_refs t a + (if g = a then 1 else 0) \<le> weak t a" for a
    using wf(6) [of a] by (auto simp: fallback_refs_def t_def g_def split: if_splits)
  then show "weak_refs ps a + fallback_refs t a + (if hp_inner \<lparr>hp_inner = g\<rparr> = a then 1 else 0) \<le> weak t a" by simp
  have same: "entry_at E t = entry_at E s" "pe_slot t = pe_slot s"
    by (simp_all add: entry_at_def pe_slot_def t_def fun_eq_iff split: option.split)
  then show "entry_at E s \<subseteq>\<^sub>m entry_at E t" and "pe_slot t q = pe_slot s q" by simp_all
  have "weak_refs ps a + fallback_refs t a \<le> weak t a" for a using refs [of a] by simp
  moreover have "owners t ps p \<le> 1" for p using wf(5) [of p] same by (simp add: owners_def)
  ultimately show "rt_wf E (ps, t)" using wf(1-4) same by (auto simp: rt_wf_def t_def)
qed

text \<open>Finding the current reactor: it fails and changes nothing that matters, or returns a counted handle.\<close>

lemma try_current_wf:
  assumes "ext_ok E" and "rt_wf E (ps, s)" and "fresh_addr s addr"
  obtains (err) e s' where "try_current E addr s = (Ret (Inl e), s')" "inners s' = inners s" "weak s' = weak s"
      "HANDLE_FALLBACK s' = HANDLE_FALLBACK s" "CURRENT_REACTOR s' = CURRENT_REACTOR s"
    | (ok) h s' where "try_current E addr s = (Ret (Inr h), s')" "rt_wf E (ps, s')"
      "\<And>a. weak_refs ps a + fallback_refs s' a + (if hp_inner h = a then 1 else 0) \<le> weak s' a"
      "entry_at E s \<subseteq>\<^sub>m entry_at E s'" "\<And>q. q \<in> set ps \<Longrightarrow> pe_slot s' q = pe_slot s q"
proof -
  note wf = rt_wfD [OF assms(2)] and fresh = assms(3) [unfolded fresh_addr_def]
  show thesis
  proof (cases "HANDLE_FALLBACK s = 0")
    case False
    then have run: "try_current E addr s = fallback_reify (HANDLE_FALLBACK s) s"
      using wf(1) by (simp add: try_current_def HandlePriv_fallback_def)
    from fallback_reify_wf [OF assms(2) False] show thesis unfolding run [symmetric] by (intro ok)
  next
    case True
    obtain res s1 where new: "Reactor_new E addr s = (res, s1)" by fastforce
    then show thesis
    proof (cases rule: Reactor_new_spec)
      case (err e)
      then have "try_current E addr s = (Ret (Inl (IoError Other ''failed to create reactor'')), s1)"
        using wf(1) True new by (simp add: try_current_def HandlePriv_fallback_def)
      with err show thesis by (intro that(1))
    next
      case (ok rct p q)
      have "HANDLE_FALLBACK s1 = 0" using True ok by simp
      from fallback_init_won [OF this, of E rct] obtain t where t: "fallback_init E rct s1 = (Ret (Inr \<lparr>hp_inner = addr\<rparr>), t)"
        "HANDLE_FALLBACK t = addr" "weak t = (weak s)(addr := Suc (Suc 0))"
        "inners t = (case fst (thread_spawn E (world s1)) of Inl _ \<Rightarrow> (inners s1)(addr := None) | Inr _ \<Rightarrow> inners s1)"
        using ok fresh by auto
      have run: "try_current E addr s = (Ret (Inr \<lparr>hp_inner = addr\<rparr>), t)"
        using wf(1) True new ok(1) t(1) by (simp add: try_current_def HandlePriv_fallback_def)
      obtain o_inn where inn: "inners t = (inners s)(addr := o_inn)" "\<And>inn. o_inn = Some inn \<Longrightarrow> inner_ok E inn"
        using t(4) ok(3) new_inner_ok [OF assms(1)] by (cases "fst (thread_spawn E (world s1))") auto
      have "CURRENT_REACTOR t = CURRENT_REACTOR s" using fallback_init_current [OF t(1)] ok by simp
      note R = rt_wf_reactor [OF assms(2,3) inn this t(3)]
      have "rt_wf E (ps, t)" "entry_at E s \<subseteq>\<^sub>m entry_at E t" "\<And>q. q \<in> set ps \<Longrightarrow> pe_slot t q = pe_slot s q"
        using R t(2) by simp_all
      moreover have "weak_refs ps a + fallback_refs t a + (if hp_inner \<lparr>hp_inner = addr\<rparr> = a then 1 else 0) \<le> weak t a" for a
        using wf(6) [of a] fresh t(2,3) by (auto simp: fallback_refs_def)
      ultimately show thesis using run by (intro that(2))
    qed
  qed
qed

text \<open>Adding a source keeps the entries there are, whether it succeeds or not.\<close>

lemma add_source_entries:
  assumes "ext_ok E" and "inner_ok E inn" and "add_source E io inn w = (res, inn', w')"
  shows "sl_get E (io_dispatch inn) \<subseteq>\<^sub>m sl_get E (io_dispatch inn')"
  using assms(3)
proof (cases rule: add_source_cases)
  case (inserted key slab q)
  with slab_insert(1,2) [OF assms(1) inner_ok_fits [OF assms(2)] inserted(2)] show ?thesis by (auto simp: map_le_def)
qed simp

lemma RegInner_new_returns:
  obtains i res s' where "RegInner_new E io h s = (Ret (i, res), s')"
  by (cases "HandlePriv_inner h s"; cases "add_source E io (the (HandlePriv_inner h s)) (world s)";
      cases "fst (add_source E io (the (HandlePriv_inner h s)) (world s))") (auto simp: RegInner_new_def)

lemma RegInner_new_cases:
  assumes "RegInner_new E io h s = (Ret (i, res), s')"
  obtains (gone) "inners s (hp_inner h) = None" "i = \<lparr>handle = h, token = ERROR\<rparr>" "s' = s"
    | (tried) inn q inn' w where "inners s (hp_inner h) = Some inn" "add_source E io inn (world s) = (q, inn', w)"
      "i = \<lparr>handle = h, token = (case q of Inl _ \<Rightarrow> ERROR | Inr k \<Rightarrow> k)\<rparr>"
      "s' = s\<lparr>inners := (inners s)(hp_inner h \<mapsto> inn'), world := w\<rparr>"
  using assms by (auto simp: RegInner_new_def HandlePriv_inner_def split: option.splits prod.splits sum.splits)

lemma RegInner_new_frame:
  assumes "ext_ok E" and "rt_wf E (ps, s)" and "RegInner_new E io h s = (Ret (i, res), s')"
  shows "handle i = h" "weak s' = weak s" "HANDLE_FALLBACK s' = HANDLE_FALLBACK s"
    "CURRENT_REACTOR s' = CURRENT_REACTOR s" "inners s' a = None \<longleftrightarrow> inners s a = None"
    "inners s' a = Some inn \<Longrightarrow> inner_ok E inn"
proof -
  show "inners s' a = Some inn \<Longrightarrow> inner_ok E inn"
    using assms(3)
  proof (cases rule: RegInner_new_cases)
    case (tried inn0 q inn' w)
    have "inner_ok E inn'" by (rule add_source_ok [OF assms(1) rt_wfD(2) [OF assms(2) tried(1)] tried(2)])
    then show "inners s' a = Some inn \<Longrightarrow> inner_ok E inn"
      using rt_wfD(2) [OF assms(2), of a] by (simp add: tried split: if_splits)
  qed (use rt_wfD(2) [OF assms(2), of a] in simp)
qed (use assms(3) in \<open>cases rule: RegInner_new_cases; simp\<close>)+

lemma RegInner_new_entries:
  assumes "ext_ok E" and "rt_wf E (ps, s)" and "RegInner_new E io h s = (Ret (i, res), s')"
  shows "entry_at E s \<subseteq>\<^sub>m entry_at E s'"
    and "token i \<noteq> ERROR \<Longrightarrow> entry_at E s (hp_inner h, token i) = None \<and>
      (\<exists>io. entry_at E s' (hp_inner h, token i) = Some io \<and> readiness io = 0)"
proof -
  show "entry_at E s \<subseteq>\<^sub>m entry_at E s'"
    using assms(3)
  proof (cases rule: RegInner_new_cases)
    case (tried inn q inn' w)
    then have "sl_get E (io_dispatch inn) \<subseteq>\<^sub>m sl_get E (io_dispatch inn')"
      by (intro add_source_entries [OF assms(1) rt_wfD(2) [OF assms(2)]])
    from map_le_at [OF this] show ?thesis
      by (auto simp: map_le_def entry_at_def tried split: option.splits)
  qed simp
  show "token i \<noteq> ERROR \<Longrightarrow> entry_at E s (hp_inner h, token i) = None \<and>
      (\<exists>io. entry_at E s' (hp_inner h, token i) = Some io \<and> readiness io = 0)"
    using assms(3)
  proof (cases rule: RegInner_new_cases)
    case (tried inn q inn' w)
    assume "token i \<noteq> ERROR"
    then obtain k where k: "q = Inr k" by (cases q) (auto simp: tried)
    from RegInner_new_ok(2,3) [OF assms(1) tried(1) rt_wfD(2) [OF assms(2) tried(1)] tried(2) [unfolded k]] show ?thesis
      by (simp add: entry_at_def tried k)
  qed simp
qed

lemma fresh_fields:
  assumes "pe_fresh pe"
  shows "pe_addr pe = None" and "pe_slot s pe = None" and "reg_inner (registration pe) = None"
    "reg_state (registration pe) = INIT"
  using assms by (simp_all add: pe_fresh_def Registration_new_def pe_addr_def pe_slot_def)

lemma register2_new:
  assumes "f s = (Ret (Inr h), s1)" and "RegInner_new E io h s1 = (Ret (i, res), s2)"
  shows "register2 E id id io f (Registration_new, s) = (Ret (case res of Inl e \<Rightarrow> Inl e | Inr _ \<Rightarrow> Inr True),
    (\<lparr>reg_inner = Some i, reg_state = READY, boxes = []\<rparr>, s2))"
proof -
  have "LOCKED AND NOT LIFECYCLE_MASK = 0" by (simp add: LOCKED_def LIFECYCLE_MASK_def)
  then show ?thesis
    using assms by (simp add: register2_def Registration_new_def compare_and_swap_def register_locked_def
        register_publish_def Let_def consume_none)
qed

text \<open>The resource that has just been associated takes its place among the others.\<close>

lemma rt_wf_associate:
  assumes "ext_ok E" and "rt_wf E (l @ pe # r, s)" and "pe_fresh pe" and "RegInner_new E io h s = (Ret (i, res), s')"
    and "\<And>a. weak_refs (l @ pe # r) a + fallback_refs s a + (if hp_inner h = a then 1 else 0) \<le> weak s a"
  defines "pe' \<equiv> pe\<lparr>registration := \<lparr>reg_inner = Some i, reg_state = READY, boxes = []\<rparr>\<rparr>"
  shows "rt_wf E (l @ pe' # r, s')" and "entry_at E s \<subseteq>\<^sub>m entry_at E s'"
    and "pe_slot s' pe' = Some p \<Longrightarrow> entry_at E s p = None"
    and "pe_slot s' pe' = Some p \<Longrightarrow> \<exists>io. entry_at E s' p = Some io \<and> readiness io = 0" and "pe_slot s' q = pe_slot s q"
proof -
  note wf = rt_wfD [OF assms(2)] and fresh = fresh_fields [OF assms(3)]
  note F = RegInner_new_frame [OF assms(1,2,4)] RegInner_new_entries [OF assms(1,2,4)]
  show "entry_at E s \<subseteq>\<^sub>m entry_at E s'" by (rule F(7))
  show other: "pe_slot s' x = pe_slot s x" for x by (rule pe_slot_cong) (rule F(5))
  have new: "p = (hp_inner h, token i) \<and> token i \<noteq> ERROR" if "pe_slot s' pe' = Some p" for p
    using that F(1) by (auto simp: pe_slot_def pe'_def split: if_splits)
  then show vacant: "pe_slot s' pe' = Some p \<Longrightarrow> entry_at E s p = None"
    and zero: "pe_slot s' pe' = Some p \<Longrightarrow> \<exists>io. entry_at E s' p = Some io \<and> readiness io = 0" for p using F(8) by blast+
  have own: "owners s' (l @ pe' # r) p \<le> 1" for p
  proof (cases "pe_slot s' pe' = Some p")
    case True
    then have "owners s (l @ r) p = 0" using vacant [OF True] wf(4) [of _ p] owners_pos [of s "l @ r" p] by fastforce
    with True show ?thesis by (simp add: owners_def other)
  next
    case False
    with wf(5) [of p] show ?thesis by (simp add: owners_def other fresh(2))
  qed
  have live: "pe_cell_ok x \<and> (\<forall>p. pe_slot s' x = Some p \<longrightarrow> entry_at E s' p \<noteq> None)" if "x \<in> set (l @ pe' # r)" for x
  proof (cases "x = pe'")
    case True
    have "pe_cell_ok pe'" using wf(3) [of pe] by (simp add: pe_cell_ok_def pe'_def)
    with True zero show ?thesis by fastforce
  next
    case False
    with that have "x \<in> set (l @ pe # r)" by auto
    from wf(3,4) [OF this] map_le_at [OF F(7)] show ?thesis by (metis other)
  qed
  have "pe_addr pe' = Some (hp_inner h)" using F(1) by (simp add: pe_addr_def pe'_def)
  then have refs: "weak_refs (l @ pe' # r) a + fallback_refs s' a \<le> weak s' a" for a
    using assms(5) [of a] fresh(1) F(2,3) by (simp add: fallback_refs_def)
  show "rt_wf E (l @ pe' # r, s')" by (rule rt_wfI [OF _ F(6) live own refs]) (simp_all add: F(4) wf(1))
qed


lemma in_ctx_associate:
  assumes "ext_ok E" and "in_ctx E al l r G (pe, s)" and "pe_fresh pe" and "rt_wf E (l @ pe # r, s1)"
    and "entry_at E s \<subseteq>\<^sub>m entry_at E s1" and "\<And>q. q \<in> set (l @ pe # r) \<Longrightarrow> pe_slot s1 q = pe_slot s q"
    and "\<And>a. weak_refs (l @ pe # r) a + fallback_refs s1 a + (if hp_inner h = a then 1 else 0) \<le> weak s1 a"
    and "RegInner_new E io h s1 = (Ret (i, res), s2)"
  defines "pe' \<equiv> pe\<lparr>registration := \<lparr>reg_inner = Some i, reg_state = READY, boxes = []\<rparr>\<rparr>"
  shows "in_ctx E al l r G (pe', s2)" and "pe_good E (pe', s2)"
proof -
  note C = assms(2) [unfolded in_ctx_def prod.case]
  note A = rt_wf_associate [OF assms(1,4,3,8,7), folded pe'_def]
  have old: "\<not> pe_fresh pe'" by (simp add: pe'_def pe_fresh_def Registration_new_def)
  have le: "entry_at E s \<subseteq>\<^sub>m entry_at E s2" by (rule map_le_trans [OF assms(5) A(2)])
  have "c_entries G p = None" if "pe_slot s2 pe' = Some p" for p
    using A(3) [OF that] map_le_at [of "c_entries G" "entry_at E s1" p] map_le_trans [OF _ assms(5)] C
    unfolding left_alone_def by fastforce
  moreover have "own E Fresh (abs_sock E s2 pe')" using A(4) old by (auto simp: abs_sock_def own_def split: option.split)
  moreover have "pe_slot s2 q = pe_slot s q" if "q \<in> set (l @ r)" for q using A(5) [of q] assms(6) [of q] that by simp
  ultimately show ctx: "in_ctx E al l r G (pe', s2)"
    using A(1) old map_le_trans [OF _ le] C assms(3) own_trans by (auto simp: in_ctx_def left_alone_def abs_sock_def)
  show "pe_good E (pe', s2)" by (rule in_ctx_good [OF assms(1) ctx]) (simp add: old)
qed

lemma register_in_ctx:
  assumes "ext_ok E" and "in_ctx E al l r G x"
  obtains (err) e x' where "PollEvented_register E al x = (Ret (Inl e), x')" "in_ctx E al l r G x'"
    | (ok) x' where "PollEvented_register E al x = (Ret (Inr ()), x')" "in_ctx E al l r G x'" "pe_good E x'"
proof -
  obtain pe s where x: "x = (pe, s)" by fastforce
  note C = assms(2) [unfolded x in_ctx_def prod.case]
  show thesis
  proof (cases "pe_fresh pe")
    case False
    then have "pe_good E x" by (intro in_ctx_good [OF assms]) (simp add: x)
    with register_noop [OF this] assms(2) show thesis by (intro ok)
  next
    case True
    then have reg: "registration pe = Registration_new" by (simp add: pe_fresh_def)
    obtain io where io: "pe_io pe = Some io" using rt_wfD(3) [of E "l @ pe # r" s pe] C by (auto simp: pe_cell_ok_def)
    have wf: "rt_wf E (l @ pe # r, s)" and addr: "fresh_addr s (new_arc al)" using C True by blast+
    have run: "PollEvented_register E al x = try_io (on_reg (register2 E id id io (try_current E (new_arc al)))) (\<lambda>_. ret (Inr ())) x"
      using io by (simp add: PollEvented_register_def PollEvented_get_ref_def x Registration_register_def)
    from assms(1) wf addr show thesis
    proof (cases rule: try_current_wf)
      case (err e s')
      then have "PollEvented_register E al x = (Ret (Inl e), (pe, s'))"
        unfolding run using fresh_fields(4) [OF True] by (simp add: x on_reg_def register2_def op_simps)
      moreover have "in_ctx E al l r G (pe, s')"
        by (rule in_ctx_frame [OF assms(2) [unfolded x]]) (simp_all add: err)
      ultimately show thesis by (rule that(1))
    next
      case (ok h s1)
      obtain i res s2 where new: "RegInner_new E io h s1 = (Ret (i, res), s2)" by (rule RegInner_new_returns)
      note A = in_ctx_associate [OF assms(1) assms(2) [unfolded x] True ok(2,4,5,3) new]
      note reg2 = register2_new [where f = "try_current E (new_arc al)", OF ok(1) new]
      show thesis using that reg2 A unfolding run by (cases res) (simp_all add: x on_reg_def reg op_simps)
    qed
  qed
qed

text \<open>An operation that registers the resource first and then needs it registered.\<close>

lemma total_registered:
  assumes "ext_ok E" and "keeps (in_ctx E al l r G) c" and "\<And>x. pe_good E x \<Longrightarrow> \<exists>q y. c x = (Ret q, y)"
  shows "total_on (in_ctx E al l r G) (try_pollio (PollEvented_register E al) (\<lambda>_. c))"
  unfolding total_on_def
proof (intro allI impI)
  fix x
  assume x: "in_ctx E al l r G x"
  from assms(1) x show "\<exists>q x'. try_pollio (PollEvented_register E al) (\<lambda>_. c) x = (Ret q, x') \<and> in_ctx E al l r G x'"
  proof (cases rule: register_in_ctx)
    case (err e x')
    then show ?thesis by (simp add: op_simps)
  next
    case (ok x')
    obtain q y where "c x' = (Ret q, y)" using assms(3) [OF ok(3)] by blast
    with keepsD [OF assms(2) ok(2) this] ok(1) show ?thesis by (simp add: op_simps)
  qed
qed

lemma total_poll_read_ready [total_intros]:
  assumes "ext_ok E"
  shows "total_on (in_ctx E al l r G) (poll_read_ready E al t)"
  unfolding poll_read_ready_eq
proof (rule total_registered [OF assms keeps_poll_cached])
  fix x
  assume "pe_good E x"
  from read_ready_ok [OF this, of al t] show "\<exists>q y. poll_cached (on_reg (Registration_poll_read_ready E (node_at al) t))
      (on_reg (Registration_take_read_ready E)) load_read store_read (readable E) (readable E OR platform_hup E) x = (Ret q, y)"
    by (auto simp: poll_read_ready_good [OF \<open>pe_good E x\<close>])
qed (simp_all add: Registration_poll_read_ready_def Registration_take_read_ready_def keeps_on_reg [OF assms]
    store_read_dir in_ctx_store)

lemma total_poll_write_ready [total_intros]:
  assumes "ext_ok E"
  shows "total_on (in_ctx E al l r G) (poll_write_ready E al t)"
  unfolding poll_write_ready_eq
proof (rule total_registered [OF assms keeps_poll_cached])
  fix x
  assume "pe_good E x"
  from write_ready_ok [OF this, of al t] show "\<exists>q y. poll_cached (on_reg (Registration_poll_write_ready E (node_at al) t))
      (on_reg (Registration_take_write_ready E)) load_write store_write (writable E) (writable E OR platform_hup E) x = (Ret q, y)"
    by (auto simp: poll_write_ready_good [OF \<open>pe_good E x\<close>])
qed (simp_all add: Registration_poll_write_ready_def Registration_take_write_ready_def keeps_on_reg [OF assms]
    store_write_dir in_ctx_store)

lemma total_clear_then_poll [total_intros]:
  "total_on (in_ctx E al l r G) m \<Longrightarrow> total_on (in_ctx E al l r G) (clear_then_poll t m)"
  unfolding clear_then_poll_def
  by (rule total_bnd) (auto split: poll.split sum.split intro!: total_intros)

lemma total_after_store:
  "total_on (in_ctx E al l r G) m \<Longrightarrow> total_on (in_ctx E al l r G) (\<lambda>x. m (store_dir d (f x) x))"
  unfolding total_on_def using in_ctx_store by blast

lemma total_clear_read_ready [total_intros]:
  "ext_ok E \<Longrightarrow> total_on (in_ctx E al l r G) (clear_read_ready E al t)"
  unfolding clear_read_ready_def [abs_def] store_read_dir
  by (intro total_after_store total_clear_then_poll total_poll_read_ready)

lemma total_clear_write_ready [total_intros]:
  "ext_ok E \<Longrightarrow> total_on (in_ctx E al l r G) (clear_write_ready E al t)"
  unfolding clear_write_ready_def [abs_def] store_write_dir
  by (intro total_after_store total_clear_then_poll total_poll_write_ready)

lemma total_calls:
  assumes "ext_ok E" and "m \<in> calls E al"
  shows "total_on (in_ctx E al l r G) m"
  using assms(2)
  by cases (auto simp: discard_def PollEvented_poll_read_def PollEvented_poll_write_def PollEvented_poll_flush_def
      PollEvented_poll_close_def TcpListener_poll_ready_def TcpListener_poll_accept_std_def attempt_match_eq
      UdpSocket_poll_send_to_def UdpSocket_poll_recv_from_def UnixDatagram_poll_send_to_def
      UnixDatagram_poll_recv_from_def UnixListener_poll_ready_def UnixListener_poll_accept_std_def TcpListener_fmt_def TcpStream_fmt_def
      UdpSocket_fmt_def UnixDatagram_fmt_def UnixListener_fmt_def UnixStream_fmt_def socket_fmt_eq
      split: prod.split option.split sum.split intro!: total_intros assms(1))


section \<open>Dropping\<close>

lemma rt_wf_remove:
  assumes "rt_wf E (l @ pe # r, s)" and "CURRENT_REACTOR s' = CURRENT_REACTOR s" "HANDLE_FALLBACK s' = HANDLE_FALLBACK s"
    and "\<And>a. weak s' a = weak s a - (if pe_addr pe = Some a then 1 else 0)"
    and "\<And>a. inners s' a = None \<longleftrightarrow> inners s a = None" and "\<And>a inn. inners s' a = Some inn \<Longrightarrow> inner_ok E inn"
    and "\<And>p. pe_slot s pe \<noteq> Some p \<Longrightarrow> entry_at E s' p = entry_at E s p"
  shows "rt_wf E (l @ r, s')"
proof (rule rt_wfI)
  note wf = rt_wfD [OF assms(1)]
  have slot: "pe_slot s' q = pe_slot s q" for q by (rule pe_slot_cong) (rule assms(5))
  show "CURRENT_REACTOR s' = None" using wf(1) assms(2) by simp
  show "inners s' a = Some inn \<Longrightarrow> inner_ok E inn" for a inn by (rule assms(6))
  show "owners s' (l @ r) p \<le> 1" for p using wf(5) [of p] by (simp add: owners_def slot split: if_splits)
  show "weak_refs (l @ r) a + fallback_refs s' a \<le> weak s' a" for a
    using wf(6) [of a] assms(4) [of a] by (simp add: fallback_refs_def assms(3) split: if_splits)
  show "pe_cell_ok q \<and> (\<forall>p. pe_slot s' q = Some p \<longrightarrow> entry_at E s' p \<noteq> None)" if "q \<in> set (l @ r)" for q
  proof (intro conjI allI impI)
    have mem: "q \<in> set (l @ pe # r)" using that by auto
    then show "pe_cell_ok q" by (rule wf(3))
    fix p
    assume p: "pe_slot s' q = Some p"
    then have "0 < owners s (l @ r) p" using that unfolding owners_pos slot by blast
    then have "pe_slot s pe \<noteq> Some p" using wf(5) [of p] by (auto split: if_splits)
    with wf(4) [OF mem, of p] p assms(7) show "entry_at E s' p \<noteq> None" by (simp add: slot)
  qed
qed

lemma drop_globals:
  assumes "PollEvented_drop E pe s = (q, s')"
  shows "HANDLE_FALLBACK s' = HANDLE_FALLBACK s" and "CURRENT_REACTOR s' = CURRENT_REACTOR s"
  using assms
  by (auto simp: PollEvented_drop_def Registration_drop_def RegInner_drop_def Registration_deregister_def Let_def
      RegInner_deregister_def HandlePriv_drop_def split: option.splits prod.splits if_splits outcome.splits)

lemma drop_failed:
  assumes "reg_inner (registration pe) = Some i" and "token i = ERROR \<or> inners s (hp_inner (handle i)) = None"
  shows "PollEvented_drop E pe s = (Ret (), HandlePriv_drop (handle i) s)"
  using assms
  by (auto simp: PollEvented_drop_def Registration_drop_def RegInner_drop_def Registration_deregister_def Let_def
      RegInner_deregister_def HandlePriv_inner_def split: option.split)

lemma drop_fresh:
  assumes "pe_fresh pe"
  shows "PollEvented_drop E pe s = (Ret (), s)"
  using fresh_fields(3) [OF assms]
  by (simp add: PollEvented_drop_def Registration_drop_def Registration_deregister_def split: option.split)

lemma pe_slot_same: "(\<And>a. inners s' a = None \<longleftrightarrow> inners s a = None) \<Longrightarrow> pe_slot s' = pe_slot s"
  by (rule ext) (rule pe_slot_cong)

lemma drop_wf:
  assumes "ext_ok E" and "rt_wf E (l @ pe # r, s)"
  obtains s' where "PollEvented_drop E pe s = (Ret (), s')" "rt_wf E (l @ r, s')"
    "\<forall>p. pe_slot s pe \<noteq> Some p \<longrightarrow> entry_at E s' p = entry_at E s p" "pe_slot s' = pe_slot s"
proof (cases "reg_inner (registration pe)")
  case None
  then have fresh: "pe_fresh pe" using rt_wfD(3) [OF assms(2), of pe] by (auto simp: pe_cell_ok_def)
  show thesis
    by (rule that [OF drop_fresh [OF fresh] rt_wf_remove [OF assms(2)]])
      (simp_all add: fresh_fields(1) [OF fresh] rt_wfD(2) [OF assms(2)])
next
  case (Some i)
  let ?a = "hp_inner (handle i)"
  have addr: "pe_addr pe = Some ?a" by (simp add: pe_addr_def Some)
  show thesis
  proof (cases "token i = ERROR \<or> inners s ?a = None")
    case True
    let ?s = "HandlePriv_drop (handle i) s"
    have same: "inners ?s = inners s" "CURRENT_REACTOR ?s = CURRENT_REACTOR s" "HANDLE_FALLBACK ?s = HANDLE_FALLBACK s"
      "weak ?s = (weak s)(?a := weak s ?a - 1)" by (simp_all add: HandlePriv_drop_def)
    then have ent: "entry_at E ?s = entry_at E s" by (simp add: entry_at_def)
    show thesis
      by (rule that [OF drop_failed [OF Some True] rt_wf_remove [OF assms(2)]])
        (use same ent addr rt_wfD(2) [OF assms(2)] pe_slot_same [of ?s s] in auto)
  next
    case False
    then obtain inn where inn: "inners s ?a = Some inn" by auto
    have slot: "pe_slot s pe = Some (?a, token i)" using False by (simp add: pe_slot_def Some)
    then obtain io where io: "sl_get E (io_dispatch inn) (token i) = Some io"
      using rt_wfD(4) [OF assms(2), of pe "(?a, token i)"] inn by (auto simp: entry_at_def)
    have "reg_state (registration pe) = READY"
      using rt_wfD(3) [OF assms(2), of pe] fresh_fields(3) [of pe] Some by (auto simp: pe_cell_ok_def)
    then have "associated E (registration pe) s i inn io"
      using Some False inn io rt_wfD(2) [OF assms(2) inn] by (simp add: associated_def)
    from drop_associated [OF assms(1) this] obtain t inn' where t: "PollEvented_drop E pe s = (Ret (), t)"
      "inners t = (inners s)(?a \<mapsto> inn')" "inner_ok E inn'"
      "sl_get E (io_dispatch inn') = (sl_get E (io_dispatch inn))(token i := None)"
      "weak t = (weak s)(?a := weak s ?a - 1)" by blast
    have ent: "entry_at E t p = entry_at E s p" if "pe_slot s pe \<noteq> Some p" for p
      using that inn by (cases p) (auto simp: entry_at_def t(2,4) slot)
    have "pe_slot t = pe_slot s" using inn t(2) by (intro pe_slot_same) auto
    then show thesis
      by (intro that [OF t(1) rt_wf_remove [OF assms(2)]])
        (use drop_globals [OF t(1)] t(2,3,5) inn addr ent rt_wfD(2) [OF assms(2)] in \<open>auto split: if_splits\<close>)
  qed
qed


section \<open>The reactor\<close>

lemma dispatch_entries:
  assumes "ext_ok E" and "inner_ok E inn"
  shows "sl_get E (io_dispatch (snd (dispatch E tok ready inn))) k = None \<longleftrightarrow> sl_get E (io_dispatch inn) k = None"
proof (cases "sl_get E (io_dispatch inn) (tok AND MAX_SOURCES)")
  case None
  then show ?thesis by (simp add: dispatch_miss)
next
  case (Some io)
  then show ?thesis
    using slab_set(1) [OF assms(1) inner_ok_fits [OF assms(2)] Some]
    by (cases "aba_guard io = tok AND NOT MAX_SOURCES")
      (simp_all add: dispatch_stale dispatch_hit [OF ext_ok_ready [OF assms(1)] Some])
qed

lemma dispatch_wf:
  assumes "ext_ok E" and "rt_wf E (ps, s)" and "inners s a = Some inn" and "dispatch E tok r inn = (ts, inn')"
  shows "rt_wf E (ps, s\<lparr>inners := (inners s)(a \<mapsto> inn'), woken := ws\<rparr>)"
proof -
  let ?s = "s\<lparr>inners := (inners s)(a \<mapsto> inn'), woken := ws\<rparr>"
  note ok = rt_wfD(2) [OF assms(2)]
  have "inner_ok E inn'" and ent: "sl_get E (io_dispatch inn') k = None \<longleftrightarrow> sl_get E (io_dispatch inn) k = None" for k
    using dispatch_ok [OF assms(1) ok [OF assms(3)], of tok r] dispatch_entries [OF assms(1) ok [OF assms(3)], of tok r k]
      assms(4) by simp_all
  moreover have "entry_at E s p \<noteq> None \<Longrightarrow> entry_at E ?s p \<noteq> None" for p
    using ent [of "snd p"] assms(3) by (cases p) (auto simp: entry_at_def simp del: not_None_eq)
  ultimately show ?thesis by (intro rt_wf_mono [OF assms(2)]) (use ok assms(3) in \<open>auto split: if_splits\<close>)
qed

lemma process_events_returns:
  assumes "\<And>p v w. fst (mio_set_readiness E p v w) = Inr ()" and "inners s a \<noteq> None"
  shows "fst (process_events E a evs s) = Ret ()"
  using assms(2)
proof (induction evs arbitrary: s)
  case (Cons ev evs)
  obtain tok ready inn where ev: "ev = (tok, ready)" "inners s a = Some inn" using Cons.prems by (cases ev) auto
  obtain v w where v: "mio_set_readiness E (inner_wakeup inn) 0 (world s) = (v, w)" by fastforce
  have "v = Inr ()" using assms(1) [of "inner_wakeup inn" 0 "world s"] v by simp
  with ev v Cons.IH show ?case by (auto simp: Reactor_dispatch_def bnd_def split: prod.splits)
qed simp

lemma turn_cases:
  assumes "Reactor_turn E max_wait (rct, s) = (q, (rct', s'))" and "inners s (r_inner rct) \<noteq> None"
  obtains (failed) e w where "q = Ret (Inl e)" "s' = s\<lparr>world := w\<rparr>"
    | (polled) evs w q1 where "process_events E (r_inner rct) evs (s\<lparr>world := w\<rparr>) = (q1, s')"
      "q1 = Ret () \<Longrightarrow> q = Ret (Inr ())"
proof -
  obtain inn where inn: "inners s (r_inner rct) = Some inn" using assms(2) by blast
  obtain v w where v: "mio_poll E (inner_io inn) max_wait (world s) = (v, w)" by fastforce
  show thesis
  proof (cases v)
    case (Inl e)
    with assms(1) inn v show thesis by (intro failed) (auto simp: Reactor_turn_def Reactor_poll_def op_simps)
  next
    case (Inr evs)
    obtain q1 s1 where e: "process_events E (r_inner rct) evs (s\<lparr>world := w\<rparr>) = (q1, s1)" by fastforce
    with assms(1) inn v Inr show thesis
      by (intro polled [of evs w q1]) (cases q1; auto simp: Reactor_turn_def Reactor_poll_def op_simps bnd_def)+
  qed
qed

lemma turn_wf:
  assumes "ext_ok E" and "rt_wf E (ps, s)" and "inners s (r_inner rct) \<noteq> None"
    and "Reactor_turn E max_wait (rct, s) = (q, (rct', s'))"
  shows "rt_wf E (ps, s')" and "(\<And>p v w. fst (mio_set_readiness E p v w) = Inr ()) \<Longrightarrow> \<exists>res. q = Ret res"
proof -
  obtain inn where inn: "inners s (r_inner rct) = Some inn" using assms(3) by blast
  have "rt_wf E (ps, s') \<and> ((\<forall>p v w. fst (mio_set_readiness E p v w) = Inr ()) \<longrightarrow> (\<exists>res. q = Ret res))"
    using assms(4,3)
  proof (cases rule: turn_cases)
    case (failed e w)
    with assms(2) show ?thesis by simp
  next
    case (polled evs w q1)
    have "inners (s\<lparr>world := w\<rparr>) (r_inner rct) = Some inn" using inn by simp
    from process_events_steps [where R = "\<lambda>s s'. rt_wf E (ps, s) \<longrightarrow> rt_wf E (ps, s')", OF assms(1) this
        rt_wfD(2) [OF assms(2) inn] polled(1)] have "rt_wf E (ps, s')"
      using dispatch_wf [OF assms(1)] assms(2) by simp
    moreover have "\<exists>res. q = Ret res" if "\<forall>p v w. fst (mio_set_readiness E p v w) = Inr ()"
      using process_events_returns [of E "s\<lparr>world := w\<rparr>" "r_inner rct" evs] that polled assms(3) by simp
    ultimately show ?thesis by blast
  qed
  then show "rt_wf E (ps, s')" and "(\<And>p v w. fst (mio_set_readiness E p v w) = Inr ()) \<Longrightarrow> \<exists>res. q = Ret res" by blast+
qed

lemma reactor_drop_wf:
  assumes "rt_wf E (ps, s)"
  shows "rt_wf E (ps, Reactor_drop E rct s)"
proof (cases "inners s (r_inner rct)")
  case None
  with assms show ?thesis by (simp add: Reactor_drop_def)
next
  case (Some inn)
  note wf = rt_wfD [OF assms]
  let ?s = "s\<lparr>inners := (inners s)(r_inner rct := None), woken := woken s @ inner_drop E inn\<rparr>"
  have slot: "pe_slot ?s pe = Some p \<Longrightarrow> pe_slot s pe = Some p \<and> fst p \<noteq> r_inner rct" for pe p
    by (auto simp: pe_slot_def split: option.splits if_splits)
  have "rt_wf E (ps, ?s)"
  proof (rule rt_wfI)
    show "owners ?s ps p \<le> 1" for p
      using owners_mono [of ps ?s p s] slot wf(5) [of p] by (meson order_trans)
    show "pe_cell_ok pe \<and> (\<forall>p. pe_slot ?s pe = Some p \<longrightarrow> entry_at E ?s p \<noteq> None)" if "pe \<in> set ps" for pe
      using wf(3,4) [OF that] slot [of pe] by (fastforce simp: entry_at_def)
  qed (use wf(1,2,6) in \<open>auto simp: fallback_refs_def split: if_splits\<close>)
  with Some show ?thesis by (simp add: Reactor_drop_def)
qed

section \<open>Soundness\<close>

lemma in_ctx_others:
  "rt_wf E (l @ pe # r, s) \<Longrightarrow> fresh_addr s (new_arc al) \<Longrightarrow> in_ctx E al l r (ctx_of E pe s) (pe, s)"
  by (rule in_ctx_of)

lemma left_alone_others: "left_alone E (ctx_of E pe s) qs s' \<Longrightarrow> others E pe s \<subseteq>\<^sub>m entry_at E s'"
  by (simp add: left_alone_def ctx_of_def)

lemma call_wf:
  assumes "ext_ok E" and "rt_wf E (l @ pe # r, s)" and "m \<in> calls E al" and "fresh_addr s (new_arc al)"
  obtains pe' s' where "m (pe, s) = (Ret (), (pe', s'))" "rt_wf E (l @ pe' # r, s')"
    "left_alone E (ctx_of E pe s) (l @ r) s'" "own E (abs_sock E s pe) (abs_sock E s' pe')"
proof -
  from total_onE [OF total_calls [OF assms(1,3)] in_ctx_others [OF assms(2,4)]] obtain u x' where
    x': "m (pe, s) = (Ret u, x')" "in_ctx E al l r (ctx_of E pe s) x'" by blast
  obtain pe' s' where y: "x' = (pe', s')" by fastforce
  show thesis by (rule that) (use x' in \<open>auto simp: y in_ctx_def ctx_of_def\<close>)
qed

lemma drop_in_ctx:
  assumes "ext_ok E" and "in_ctx E al l r G (pe, s)"
  obtains s' where "drop_and_return E pe v s = (Ret v, s')" "rt_wf E (l @ r, s')" "left_alone E G (l @ r) s'"
proof -
  have C: "rt_wf E (l @ pe # r, s)" "left_alone E G (l @ r) s" "\<And>p. pe_slot s pe = Some p \<Longrightarrow> c_entries G p = None"
    using assms(2) by (auto simp: in_ctx_def)
  obtain s' where s': "PollEvented_drop E pe s = (Ret (), s')" "rt_wf E (l @ r, s')"
    "\<forall>p. pe_slot s pe \<noteq> Some p \<longrightarrow> entry_at E s' p = entry_at E s p" "pe_slot s' = pe_slot s"
    by (rule drop_wf [OF assms(1) C(1)])
  have "c_entries G \<subseteq>\<^sub>m entry_at E s"  using C(2) by (simp add: left_alone_def)
  then have "c_entries G \<subseteq>\<^sub>m entry_at E s'"
    unfolding map_le_def using C(3) s'(3) by (metis domIff)
  with C(2) s' show thesis by (intro that [of s']) (simp_all add: drop_and_return_def left_alone_def)
qed

lemma wait_for_connect:
  assumes "ext_ok E" and "in_ctx E al l r G (pe, s)"
  obtains (pending) pe1 s1 where "poll_write_ready E al t (pe, s) = (Ret Pending, (pe1, s1))" "in_ctx E al l r G (pe1, s1)"
    | (err) e pe1 s1 where "poll_write_ready E al t (pe, s) = (Ret (Ready (Inl e)), (pe1, s1))" "in_ctx E al l r G (pe1, s1)"
    | (ready) v x1 o_e pe2 s2 where "poll_write_ready E al t (pe, s) = (Ret (Ready (Inr v)), x1)"
      "sys_ref f x1 = (Ret o_e, (pe2, s2))" "in_ctx E al l r G (pe2, s2)"
proof -
  obtain p x1 where p: "poll_write_ready E al t (pe, s) = (Ret p, x1)" "in_ctx E al l r G x1"
    using total_onE [OF total_poll_write_ready [OF assms(1)] assms(2)] by blast
  obtain o_e x2 where x2: "sys_ref f x1 = (Ret o_e, x2)" "in_ctx E al l r G x2"
    using total_onE [OF total_sys_ref p(2)] by blast
  show thesis
  proof (cases p)
    case Pending
    with p show thesis by (cases x1) (auto intro: pending)
  next
    case (Ready q)
    with p x2 show thesis by (cases q; cases x1; cases x2) (auto intro: err ready)
  qed
qed

lemma tcp_connect_cases:
  assumes "ext_ok E" and "in_ctx E al l r G (pe, s)" and "TcpConnectFuture_poll E al N t (Waiting pe, s) = (q, (st, s'))"
  obtains (pending) stream where "q = Ret Pending" "st = Waiting stream" "in_ctx E al l r G (stream, s')"
    | (failed) e where "q = Ret (Ready (Inl e))" "st = Empty" "rt_wf E (l @ r, s')" "left_alone E G (l @ r) s'"
    | (connected) stream where "q = Ret (Ready (Inr stream))" "st = Empty" "in_ctx E al l r G (stream, s')"
  using assms(1,2)
proof (cases rule: wait_for_connect [where t = t and f = "ts_take_error N"])
  case wait: (pending pe1 s1)
  with assms(3) show thesis by (intro pending) (auto simp: TcpConnectFuture_poll_def)
next
  case (err e pe1 s1)
  obtain s2 where "drop_and_return E pe1 (Ready (Inl e) :: TcpStream io_result poll) s1 = (Ret (Ready (Inl e)), s2)"
    "rt_wf E (l @ r, s2)" "left_alone E G (l @ r) s2" by (rule drop_in_ctx [OF assms(1) err(2)])
  with err(1) assms(3) show thesis by (intro failed) (auto simp: TcpConnectFuture_poll_def)
next
  case (ready v x1 o_e pe2 s2)
  show thesis
  proof (cases "o_e = Inr None")
    case True
    with ready assms(3) show thesis by (intro connected) (auto simp: TcpConnectFuture_poll_def)
  next
    case False
    then obtain e where e: "o_e = Inl e \<or> o_e = Inr (Some e)" by (cases o_e) auto
    obtain s3 where "drop_and_return E pe2 (Ready (Inl e) :: TcpStream io_result poll) s2 = (Ret (Ready (Inl e)), s3)"
      "rt_wf E (l @ r, s3)" "left_alone E G (l @ r) s3" by (rule drop_in_ctx [OF assms(1) ready(3)])
    with e ready(1,2) assms(3) show thesis by (intro failed) (auto simp: TcpConnectFuture_poll_def)
  qed
qed

lemma tcp_connect_wf:
  assumes "ext_ok E" and "in_ctx E al l r G (pe, s)" and "TcpConnectFuture_poll E al N t (Waiting pe, s) = (q, (st, s'))"
  shows "(\<exists>v. q = Ret v) \<and> rt_wf E (l @ after_connect st q @ r, s') \<and> left_alone E G (l @ r) s' \<and>
    (\<forall>pe' \<in> set (after_connect st q). own E (c_start G) (abs_sock E s' pe'))"
  using assms by (cases rule: tcp_connect_cases) (auto simp: after_connect_def in_ctx_def)

lemma uds_connect_wf:
  assumes "ext_ok E" and "in_ctx E al l r G (pe, s)" and "UnixConnectFuture_poll E al X t (Waiting pe, s) = (q, (st, s'))"
  shows "(\<exists>v. q = Ret v) \<and> rt_wf E (l @ after_connect st q @ r, s') \<and> left_alone E G (l @ r) s' \<and>
    (\<forall>pe' \<in> set (after_connect st q). own E (c_start G) (abs_sock E s' pe'))"
  using assms(1,2)
proof (cases rule: wait_for_connect [where t = t and f = "ux_take_error X"])
  case (ready v x1 o_e pe2 s2)
  with assms(3) show ?thesis
    by (auto simp: UnixConnectFuture_poll_def after_connect_def in_ctx_def split: sum.splits option.splits)
qed (use assms(3) in \<open>auto simp: UnixConnectFuture_poll_def after_connect_def in_ctx_def\<close>)

lemma rt_wf_open: "rt_wf E (ps, s) \<Longrightarrow> rt_wf E (PollEvented_new io # ps, s\<lparr>world := w\<rparr>)"
  unfolding rt_wf_world
  by (auto simp: rt_wf_def PollEvented_new_def pe_cell_ok_def pe_fresh_def Registration_new_def pe_slot_def pe_addr_def)

lemma rt_wf_reactor_new:
  assumes "ext_ok E" and "rt_wf E (ps, s)" and "fresh_addr s addr" and "Reactor_new E addr s = (q, s')"
  shows "rt_wf E (ps, s')"
  using assms(4)
proof (cases rule: Reactor_new_spec)
  case err
  then show ?thesis by (intro rt_wf_mono [OF assms(2)]) (use rt_wfD(2) [OF assms(2)] in \<open>simp_all add: entry_at_def\<close>)
next
  case (ok rct p v)
  then show ?thesis
    by (intro rt_wf_reactor(1) [OF assms(2,3) ok(3), of "weak s addr"]) (auto simp: new_inner_ok [OF assms(1)])
qed

lemma rt_step_wf:
  assumes "ext_ok E" and "rt_step E x y" and "rt_wf E x"
  shows "rt_wf E y"
  using assms(2,3)
proof cases
  case rt_open
  with assms(3) rt_wf_open show ?thesis by simp
next
  case (rt_call m al s pe q pe' s' l r)
  from call_wf [OF assms(1) assms(3) [unfolded rt_call] rt_call(3,4)] rt_call(2,5) show ?thesis by fastforce
next
  case (rt_tcp_connect s al N t pe q st s' l r)
  from tcp_connect_wf [OF assms(1) in_ctx_others [OF assms(3) [unfolded rt_tcp_connect] rt_tcp_connect(3)] rt_tcp_connect(4)]
    rt_tcp_connect(2) show ?thesis by simp
next
  case (rt_uds_connect s al X t pe q st s' l r)
  from uds_connect_wf [OF assms(1) in_ctx_others [OF assms(3) [unfolded rt_uds_connect] rt_uds_connect(3)] rt_uds_connect(4)]
    rt_uds_connect(2) show ?thesis by simp
next
  case (rt_drop pe s q s' l r)
  from drop_wf [OF assms(1) assms(3) [unfolded rt_drop]] rt_drop(2,3) show ?thesis by fastforce
next
  case rt_reactor
  with rt_wf_reactor_new [OF assms(1)] assms(3) show ?thesis by simp
next
  case (rt_turn s rct max_wait q rct' s' ps)
  from turn_wf(1) [OF assms(1) assms(3) [unfolded rt_turn] rt_turn(3,4)] rt_turn(2) show ?thesis by simp
next
  case (rt_reactor_drop ps s rct)
  with assms(3) reactor_drop_wf show ?thesis by simp
qed

interpretation rt: inductive_invariant rt_init "rt_step E" "\<lambda>x. ext_ok E \<longrightarrow> rt_wf E x" for E
proof (unfold_locales, goal_cases)
  case (1 x)
  then show ?case by (cases x) (auto simp: rt_init_def rt_wf_def fallback_refs_def)
next
  case (2 x y)
  then show ?case using rt_step_wf [of E x y] by blast
qed


section \<open>Properties\<close>

text \<open>C32: the whole program is sound, in the way a type system is. Take any state a program can reach from the start
  of the process by opening sockets, calling public operations on them, polling connect futures, dropping sockets and
  creating, turning and dropping reactors, whatever the operating system answers. It is well-formed: reactors are in their
  invariant, no two sockets share an entry, no entry is missing, and the address of a reactor is not reused while a
  socket refers to it; a socket that is not new is in the good state the claims on polling start from. From it every call, every poll of a waiting connect future and every drop returns, without a
  panic and without touching an entry that is not the socket's own, and a turn of a live reactor panics only if the
  wakeup registration cannot be reset.\<close>

theorem runtime_sound:
  assumes "ext_ok E" and "reach rt_init (rt_step E) (ps, s)"
  shows "rt_wf E (ps, s) \<and> (\<forall>pe \<in> set ps. pe_fresh pe \<or> pe_good E (pe, s)) \<and>
    (\<forall>l pe r al m. ps = l @ pe # r \<and> m \<in> calls E al \<and> fresh_addr s (new_arc al) \<longrightarrow>
      (\<exists>pe' s'. m (pe, s) = (Ret (), (pe', s')) \<and> others E pe s \<subseteq>\<^sub>m entry_at E s')) \<and>
    (\<forall>l pe r al N X t. ps = l @ pe # r \<and> fresh_addr s (new_arc al) \<longrightarrow>
      (\<exists>v st s'. TcpConnectFuture_poll E al N t (Waiting pe, s) = (Ret v, (st, s')) \<and> others E pe s \<subseteq>\<^sub>m entry_at E s') \<and>
      (\<exists>v st s'. UnixConnectFuture_poll E al X t (Waiting pe, s) = (Ret v, (st, s')) \<and> others E pe s \<subseteq>\<^sub>m entry_at E s')) \<and>
    (\<forall>l pe r. ps = l @ pe # r \<longrightarrow> (\<exists>s'. PollEvented_drop E pe s = (Ret (), s') \<and> others E pe s \<subseteq>\<^sub>m entry_at E s')) \<and>
    (\<forall>rct max_wait. inners s (r_inner rct) \<noteq> None \<and> (\<forall>p v w. fst (mio_set_readiness E p v w) = Inr ()) \<longrightarrow>
      (\<exists>res x. Reactor_turn E max_wait (rct, s) = (Ret res, x)))"
proof (intro conjI allI impI ballI)
  show wf: "rt_wf E (ps, s)" using rt.reach_inv [OF assms(2)] assms(1) by blast
  show "pe_fresh pe \<or> pe_good E (pe, s)" if "pe \<in> set ps" for pe using rt_wf_good [OF assms(1) wf that] by blast
  show "\<exists>pe' s'. m (pe, s) = (Ret (), (pe', s')) \<and> others E pe s \<subseteq>\<^sub>m entry_at E s'"
    if "ps = l @ pe # r \<and> m \<in> calls E al \<and> fresh_addr s (new_arc al)" for l pe r al m
    by (rule call_wf [OF assms(1), of l pe r s m al]) (use wf that left_alone_others in auto)
  have ctx: "in_ctx E al l r (ctx_of E pe s) (pe, s)"
    if "ps = l @ pe # r \<and> fresh_addr s (new_arc al)" for l pe r al
    using in_ctx_others [of E l pe r s al] wf that by blast
  show "\<exists>v st s'. TcpConnectFuture_poll E al N t (Waiting pe, s) = (Ret v, (st, s')) \<and> others E pe s \<subseteq>\<^sub>m entry_at E s'"
    if "ps = l @ pe # r \<and> fresh_addr s (new_arc al)" for l pe r al N t
    using tcp_connect_wf [OF assms(1) ctx [OF that], of N t] left_alone_others by (metis prod.exhaust)
  show "\<exists>v st s'. UnixConnectFuture_poll E al X t (Waiting pe, s) = (Ret v, (st, s')) \<and> others E pe s \<subseteq>\<^sub>m entry_at E s'"
    if "ps = l @ pe # r \<and> fresh_addr s (new_arc al)" for l pe r al X t
    using uds_connect_wf [OF assms(1) ctx [OF that], of X t] left_alone_others by (metis prod.exhaust)
  show "\<exists>s'. PollEvented_drop E pe s = (Ret (), s') \<and> others E pe s \<subseteq>\<^sub>m entry_at E s'"
    if ps: "ps = l @ pe # r" for l pe r
  proof -
    obtain s' where "PollEvented_drop E pe s = (Ret (), s')" "\<forall>p. pe_slot s pe \<noteq> Some p \<longrightarrow> entry_at E s' p = entry_at E s p"
      using drop_wf [OF assms(1) wf [unfolded ps]] by blast
    then show ?thesis by (auto simp: others_def map_le_def split: if_splits)
  qed
  show "\<exists>res x. Reactor_turn E max_wait (rct, s) = (Ret res, x)"
    if "inners s (r_inner rct) \<noteq> None \<and> (\<forall>p v w. fst (mio_set_readiness E p v w) = Inr ())" for rct max_wait
    using turn_wf(2) [OF assms(1) wf, of rct max_wait] that
    by (cases "Reactor_turn E max_wait (rct, s)") (metis prod.exhaust)
qed

theorem runtime_sound_witness:
  "\<exists>pe' s'. discard (poll_read_ready (std_ext []) alloc0 5) (PollEvented_new 7, sys0) = (Ret (), (pe', s'))"
proof -
  have "rt_step (std_ext []) ([], sys0) ([PollEvented_new 7], sys0)" using rt_open [of "std_ext []" "[]" sys0 7 0] by (simp add: sys0_def)
  moreover have "rt_init ([], sys0)" by (simp add: rt_init_def sys0_def)
  ultimately have R: "reach rt_init (rt_step (std_ext [])) ([PollEvented_new 7], sys0)" by blast
  have C: "discard (poll_read_ready (std_ext []) alloc0 5) \<in> calls (std_ext []) alloc0" by (rule calls.intros)
  have "[PollEvented_new 7] = [] @ PollEvented_new 7 # [] \<and>
      discard (poll_read_ready (std_ext []) alloc0 5) \<in> calls (std_ext []) alloc0 \<and> fresh_addr sys0 (new_arc alloc0)"
    using C by (simp add: fresh_addr_def sys0_def alloc0_def)
  from conjunct1 [OF conjunct2 [OF conjunct2 [OF runtime_sound [OF std_ext_ok R]]], rule_format, OF this] show ?thesis by blast
qed

end
