(* ===== verification/Wakeups.thy ===== *)
theory Wakeups
  imports Runtime
begin

text \<open>
  Tasks parked in a whole program. \<open>Runtime\<close> shows that the program is well-formed; here it is shown that it never
  forgets a task: what a task that waits on a socket needs from all the other sockets, the reactors and the fallback
  handle of the process.
\<close>

section \<open>Vocabulary\<close>

text \<open>Task \<open>t\<close> waits in direction \<open>d\<close> in the entry \<open>p\<close> of a reactor.\<close>

definition parked_at :: "('aw, 'sl, 'w) ext \<Rightarrow> Direction \<Rightarrow> task \<Rightarrow> ('sl, 'w) sys \<Rightarrow> usize \<times> usize \<Rightarrow> bool" where
  "parked_at E d t s p \<longleftrightarrow> (\<exists>io. entry_at E s p = Some io \<and> waiter E d io = Some t)"

text \<open>Between two states task \<open>t\<close> was woken.\<close>

definition wakes :: "task \<Rightarrow> ('sl, 'w) sys \<Rightarrow> ('sl, 'w) sys \<Rightarrow> bool" where
  "wakes t s s' \<longleftrightarrow> (\<exists>ts. woken s' = woken s @ ts \<and> t \<in> set ts)"

text \<open>A run of the rest of the program in which a step wakes the task that waits on \<open>pe\<close>.\<close>

definition woken_in_run ::
  "('aw, 'sl, 'w) ext \<Rightarrow> PollEvented \<Rightarrow> Direction \<Rightarrow> task \<Rightarrow>
     PollEvented list \<times> ('sl, 'w) sys \<Rightarrow> PollEvented list \<times> ('sl, 'w) sys \<Rightarrow> bool" where
  "woken_in_run E pe d t x y \<longleftrightarrow> (\<exists>u v. (rt_step E)\<^sup>*\<^sup>* x u \<and> pe_parked E d t (pe, snd u) \<and> rt_step E u v \<and>
     wakes t (snd u) (snd v) \<and> (rt_step E)\<^sup>*\<^sup>* v y)"

section \<open>The reactor\<close>

lemma parked_at_cong:
  "entry_at E s' p = entry_at E s p \<Longrightarrow> parked_at E d t s' p = parked_at E d t s p"
  by (simp add: parked_at_def)

lemma wakes_append [simp]: "wakes t s (s\<lparr>inners := f, woken := woken s @ ts\<rparr>) \<longleftrightarrow> t \<in> set ts"
  by (simp add: wakes_def)

lemma dispatch_keeps_waiter:
  assumes "ext_ok E" and "inner_ok E inn" and "sl_get E (io_dispatch inn) k = Some io" and "waiter E d io = Some t"
  shows "t \<in> set (fst (dispatch E tok r inn)) \<or>
    (\<exists>io'. sl_get E (io_dispatch (snd (dispatch E tok r inn))) k = Some io' \<and> waiter E d io' = Some t)"
proof (cases "tok = aba_guard io OR k \<and> r AND wake_mask E d \<noteq> 0")
  case True
  with dispatch_live_wakes [OF assms] show ?thesis by blast
next
  case False
  with deliver_waiter [OF assms(1), of d r io] dispatch_entry [OF assms(1-3), of tok r] assms(4) show ?thesis by auto
qed

lemma dispatch_parked:
  assumes "ext_ok E" and "inners s a = Some inn" and "inner_ok E inn" and "parked_at E d t s p"
    and "dispatch E tok r inn = (ts, inn')"
  shows "t \<in> set ts \<or> parked_at E d t (s\<lparr>inners := (inners s)(a \<mapsto> inn'), woken := w\<rparr>) p"
proof (cases "fst p = a")
  case True
  then obtain io where io: "p = (a, snd p)" "sl_get E (io_dispatch inn) (snd p) = Some io" "waiter E d io = Some t"
    using assms(2,4) by (cases p) (auto simp: parked_at_def entry_at_def)
  from dispatch_keeps_waiter [OF assms(1,3) io(2,3), of tok r] assms(5) show ?thesis
    by (subst io(1)) (auto simp: parked_at_def entry_at_def)
next
  case False
  with assms(4) show ?thesis by (cases p) (simp add: parked_at_def entry_at_def)
qed

lemma process_events_parked:
  assumes "ext_ok E" and "inners s a = Some inn" and "inner_ok E inn" and "process_events E a evs s = (q, s')"
  shows "\<exists>ts. woken s' = woken s @ ts \<and> (parked_at E d t s p \<longrightarrow> t \<in> set ts \<or> parked_at E d t s' p)"
  using assms
proof (rule process_events_steps)
  let ?R = "\<lambda>s s'. \<exists>ts. woken s' = woken s @ ts \<and> (parked_at E d t s p \<longrightarrow> t \<in> set ts \<or> parked_at E d t s' p)"
  show "?R s s" for s by simp
  show "?R s (s\<lparr>world := w\<rparr>)" for s w by (simp add: parked_at_def entry_at_def)
  show "?R s u" if st: "?R s s1" "?R s1 u" for s s1 u
  proof -
    obtain ts1 where "woken s1 = woken s @ ts1" "parked_at E d t s p \<longrightarrow> t \<in> set ts1 \<or> parked_at E d t s1 p" using st(1) by blast
    moreover obtain ts2 where "woken u = woken s1 @ ts2" "parked_at E d t s1 p \<longrightarrow> t \<in> set ts2 \<or> parked_at E d t u p"
      using st(2) by blast
    ultimately show ?thesis by (intro exI [of _ "ts1 @ ts2"]) auto
  qed
  show "?R s (s\<lparr>inners := (inners s)(a \<mapsto> inn'), woken := woken s @ ts\<rparr>)"
    if "inners s a = Some inn" "inner_ok E inn" "dispatch E tok r inn = (ts, inn')" for s inn tok r ts inn'
    using dispatch_parked [OF assms(1) that(1,2) _ that(3)] by (intro exI [of _ ts]) simp
qed

lemma turn_parked:
  assumes "ext_ok E" and "rt_wf E (ps, s)" and "inners s (r_inner rct) \<noteq> None"
    and "Reactor_turn E max_wait (rct, s) = (q, (rct', s'))" and "parked_at E d t s p"
  shows "parked_at E d t s' p \<or> wakes t s s'"
  using assms(4,3)
proof (cases rule: turn_cases)
  case (failed e w)
  with assms(5) show ?thesis by (simp add: parked_at_def entry_at_def)
next
  case (polled evs w q1)
  obtain inn where inn: "inners s (r_inner rct) = Some inn" using assms(3) by blast
  have "parked_at E d t (s\<lparr>world := w\<rparr>) p" using assms(5) by (simp add: parked_at_def entry_at_def)
  moreover have "inners (s\<lparr>world := w\<rparr>) (r_inner rct) = Some inn" using inn by simp
  ultimately show ?thesis
    using process_events_parked [OF assms(1) _ rt_wfD(2) [OF assms(2) inn] polled(1), of d t p] by (auto simp: wakes_def)
qed

lemma reactor_drop_parked:
  assumes "ext_ok E" and "rt_wf E (ps, s)" and "parked_at E d t s p"
  shows "parked_at E d t (Reactor_drop E rct s) p \<or> wakes t s (Reactor_drop E rct s)"
proof (cases "inners s (r_inner rct)")
  case None
  with assms(3) show ?thesis by (simp add: Reactor_drop_def)
next
  case (Some inn)
  show ?thesis
  proof (cases "fst p = r_inner rct")
    case True
    then obtain io where "sl_get E (io_dispatch inn) (snd p) = Some io" "waiter E d io = Some t"
      using assms(3) Some by (cases p) (auto simp: parked_at_def entry_at_def)
    then have "t \<in> set (inner_drop E inn)"
      using set_inner_drop [OF assms(1) inner_ok_fits [OF rt_wfD(2) [OF assms(2) Some]]]
      by (cases d) (auto simp: waiter_def)
    with Some show ?thesis by (simp add: Reactor_drop_def)
  next
    case False
    with assms(3) Some show ?thesis by (cases p) (simp add: Reactor_drop_def parked_at_def entry_at_def)
  qed
qed

section \<open>The rest of the program\<close>

text \<open>A socket whose task waits occupies an entry, and nobody else does.\<close>

lemma pe_parked_slot:
  assumes "ext_ok E" and "rt_wf E (pe # qs, s)" and "pe_parked E d t (pe, s)"
  obtains p where "pe_slot s pe = Some p" "parked_at E d t s p" "owners s qs p = 0"
proof -
  obtain i inn io where A: "reg_inner (registration pe) = Some i" "inners s (hp_inner (handle i)) = Some inn"
    "sl_get E (io_dispatch inn) (token i) = Some io" "aw_held E (cell_of d io) = Some t"
    using assms(3) by (auto simp: pe_parked_def pe_entry_def split: option.splits)
  let ?p = "(hp_inner (handle i), token i)"
  have ok: "inner_ok E inn" by (rule rt_wfD(2) [OF assms(2) A(2)])
  have "token i \<noteq> ERROR"
    using inner_ok_key(2) [OF assms(1) ok A(3)] key_not_reserved(2) by (force simp: ERROR_def)
  then have slot: "pe_slot s pe = Some ?p" using A by (simp add: pe_slot_def)
  moreover have "parked_at E d t s ?p" using A by (simp add: parked_at_def entry_at_def waiter_def cell_of_def)
  moreover have "owners s qs ?p = 0" using rt_wfD(5) [OF assms(2), of ?p] slot by simp
  ultimately show thesis by (rule that)
qed

lemma parked_pe:
  assumes "pe_slot s pe = Some p" and "parked_at E d t s' p"
  shows "pe_parked E d t (pe, s')"
  using assms
  by (auto simp: pe_slot_def pe_parked_def pe_entry_def parked_at_def entry_at_def waiter_def cell_of_def
      split: option.splits if_splits)

lemma others_parked:
  assumes "others E q s \<subseteq>\<^sub>m entry_at E s'" and "owners s (l @ q # r) p = 0" and "parked_at E d t s p"
  shows "parked_at E d t s' p"
proof -
  obtain io where "entry_at E s p = Some io" "waiter E d io = Some t" using assms(3) by (auto simp: parked_at_def)
  moreover have "others E q s p = entry_at E s p" using assms(2) by (simp add: others_def split: if_splits)
  ultimately show ?thesis using map_le_at [OF assms(1), of p] by (auto simp: parked_at_def)
qed

lemma rt_wf_fewer:
  assumes "rt_wf E (ps, s)" and "set qs \<subseteq> set ps" and "\<And>p. owners s qs p \<le> owners s ps p"
    and "\<And>a. weak_refs qs a \<le> weak_refs ps a"
  shows "rt_wf E (qs, s)"
proof (rule rt_wfI)
  note wf = rt_wfD [OF assms(1)]
  show "owners s qs p \<le> 1" for p using assms(3) [of p] wf(5) [of p] by linarith
  show "weak_refs qs a + fallback_refs s a \<le> weak s a" for a using assms(4) [of a] wf(6) [of a] by linarith
  show "pe_cell_ok pe \<and> (\<forall>p. pe_slot s pe = Some p \<longrightarrow> entry_at E s p \<noteq> None)" if "pe \<in> set qs" for pe
    using wf(3,4) that assms(2) by blast
qed (use rt_wfD(1,2) [OF assms(1)] in auto)

lemma rt_wf_front: "rt_wf E (l @ pe # r, s) \<Longrightarrow> rt_wf E (pe # l @ r, s)"
  by (erule rt_wf_fewer) auto

lemma rt_wf_rest: "rt_wf E (pe # qs, s) \<Longrightarrow> rt_wf E (qs, s)"
  by (erule rt_wf_fewer) auto

text \<open>The program without one of its sockets: its steps are the steps of the program that are not on that socket.\<close>

lemma rt_step_frame:
  assumes "ext_ok E" and "rt_wf E (pe # qs, s)" and "rt_step E (qs, s) (qs', s')"
  shows "rt_wf E (pe # qs', s')"
  using assms(3)
proof cases
  case (rt_open io w)
  with rt_wf_front [of E "[PollEvented_new io]"] rt_wf_open [OF assms(2)] show ?thesis by simp
next
  case (rt_call m al q qq q' l r)
  then have "rt_step E ((pe # l) @ q # r, s) ((pe # l) @ q' # r, s')" by (intro rt_step.rt_call)
  with rt_step_wf [OF assms(1)] assms(2) rt_call show ?thesis by simp
next
  case (rt_tcp_connect al N t q qq st l r)
  then have "rt_step E ((pe # l) @ q # r, s) ((pe # l) @ after_connect st qq @ r, s')" by (intro rt_step.rt_tcp_connect)
  with rt_step_wf [OF assms(1)] assms(2) rt_tcp_connect show ?thesis by simp
next
  case (rt_uds_connect al X t q qq st l r)
  then have "rt_step E ((pe # l) @ q # r, s) ((pe # l) @ after_connect st qq @ r, s')" by (intro rt_step.rt_uds_connect)
  with rt_step_wf [OF assms(1)] assms(2) rt_uds_connect show ?thesis by simp
next
  case (rt_drop q qq l r)
  then have "rt_step E ((pe # l) @ q # r, s) ((pe # l) @ r, s')" by (intro rt_step.rt_drop)
  with rt_step_wf [OF assms(1)] assms(2) rt_drop show ?thesis by simp
next
  case (rt_reactor addr q)
  with rt_wf_reactor_new [OF assms(1,2)] show ?thesis by simp
next
  case (rt_turn rct max_wait q rct')
  with turn_wf(1) [OF assms(1,2)] show ?thesis by simp
next
  case (rt_reactor_drop rct)
  with reactor_drop_wf [OF assms(2)] show ?thesis by simp
qed

lemma rt_step_parked_at:
  assumes "ext_ok E" and "rt_wf E (qs, s)" and "rt_step E (qs, s) (qs', s')"
    and "parked_at E d t s p" and "owners s qs p = 0"
  shows "parked_at E d t s' p \<or> wakes t s s'"
  using assms(3)
proof cases
  case (rt_open io w)
  with assms(4) show ?thesis by (simp add: parked_at_def entry_at_def)
next
  case (rt_call m al q qq q' l r)
  have "others E q s \<subseteq>\<^sub>m entry_at E s'"
    by (rule call_wf [OF assms(1) _ rt_call(3,4), of l q r]) (use assms(2) rt_call left_alone_others in auto)
  from others_parked [OF this _ assms(4)] assms(5) rt_call(1) show ?thesis by blast
next
  case (rt_tcp_connect al N u q qq st l r)
  have "in_ctx E al l r (ctx_of E q s) (q, s)" using in_ctx_others [of E l q r s al] assms(2) rt_tcp_connect by simp
  from tcp_connect_wf [OF assms(1) this rt_tcp_connect(4)] have "left_alone E (ctx_of E q s) (l @ r) s'" by blast
  then have "others E q s \<subseteq>\<^sub>m entry_at E s'" by (rule left_alone_others)
  from others_parked [OF this _ assms(4)] assms(5) rt_tcp_connect(1) show ?thesis by blast
next
  case (rt_uds_connect al X u q qq st l r)
  have "in_ctx E al l r (ctx_of E q s) (q, s)" using in_ctx_others [of E l q r s al] assms(2) rt_uds_connect by simp
  from uds_connect_wf [OF assms(1) this rt_uds_connect(4)] have "left_alone E (ctx_of E q s) (l @ r) s'" by blast
  then have "others E q s \<subseteq>\<^sub>m entry_at E s'" by (rule left_alone_others)
  from others_parked [OF this _ assms(4)] assms(5) rt_uds_connect(1) show ?thesis by blast
next
  case (rt_drop q qq l r)
  have "pe_slot s q \<noteq> Some p" using assms(5) rt_drop(1) by (auto split: if_splits)
  moreover have "\<forall>p. pe_slot s q \<noteq> Some p \<longrightarrow> entry_at E s' p = entry_at E s p"
    by (rule drop_wf [OF assms(1), of l q r s]) (use assms(2) rt_drop in auto)
  ultimately show ?thesis using parked_at_cong assms(4) by metis
next
  case (rt_reactor addr q)
  have "fst p \<noteq> addr"
    using assms(4) rt_reactor(2) by (auto simp: parked_at_def entry_at_def fresh_addr_def split: prod.splits option.splits)
  with rt_reactor(3) have "inners s' (fst p) = inners s (fst p)" by (cases rule: Reactor_new_spec) auto
  with assms(4) show ?thesis by (cases p) (simp add: parked_at_def entry_at_def)
next
  case (rt_turn rct max_wait q rct')
  with turn_parked [OF assms(1,2)] assms(4) show ?thesis by blast
next
  case (rt_reactor_drop rct)
  with reactor_drop_parked [OF assms(1,2,4)] show ?thesis by simp
qed

lemma rt_step_parked:
  assumes "ext_ok E" and "rt_wf E (pe # qs, s)" and "pe_parked E d t (pe, s)" and "rt_step E (qs, s) (qs', s')"
  shows "pe_parked E d t (pe, s') \<or> wakes t s s'"
proof -
  obtain p where p: "pe_slot s pe = Some p" "parked_at E d t s p" "owners s qs p = 0"
    by (rule pe_parked_slot [OF assms(1-3)])
  from rt_step_parked_at [OF assms(1) rt_wf_rest [OF assms(2)] assms(4) p(2,3)] parked_pe [OF p(1)] show ?thesis by blast
qed

lemma rt_run_parked:
  assumes "ext_ok E" and "rt_wf E (pe # fst x, snd x)" and "pe_parked E d t (pe, snd x)" and "(rt_step E)\<^sup>*\<^sup>* x y"
  shows "rt_wf E (pe # fst y, snd y) \<and> (pe_parked E d t (pe, snd y) \<or> woken_in_run E pe d t x y)"
  using assms(4)
proof (induction rule: rtranclp_induct)
  case base
  with assms(2,3) show ?case by blast
next
  case (step y z)
  have st: "rt_step E (fst y, snd y) (fst z, snd z)" using step.hyps(2) by simp
  have wf: "rt_wf E (pe # fst y, snd y)" using step.IH by blast
  have "pe_parked E d t (pe, snd z) \<or> woken_in_run E pe d t x z"
  proof (cases "pe_parked E d t (pe, snd y)")
    case True
    with rt_step_parked [OF assms(1) wf True st] step.hyps show ?thesis unfolding woken_in_run_def by blast
  next
    case False
    with step.IH have "woken_in_run E pe d t x y" by blast
    with step.hyps(2) show ?thesis unfolding woken_in_run_def by (meson rtranclp.rtrancl_into_rtrancl)
  qed
  with rt_step_frame [OF assms(1) wf st] show ?case by blast
qed

section \<open>Properties\<close>

text \<open>C15: a whole program never forgets a task. Take any reachable state of a program in which a task waits on a socket,
  and let the rest of the program run for as long as it likes: opening, calling upon and dropping the other sockets,
  polling their connect futures, creating, turning and dropping reactors, also that of the socket. Then the
  socket keeps its place in a well-formed program, and the task is still parked, or one of the steps woke it. So
  a task can only be lost by an operation on its own socket.\<close>

theorem parked_task_never_forgotten:
  assumes "ext_ok E" and "reach rt_init (rt_step E) (l @ pe # r, s)" and "pe_parked E d t (pe, s)"
    and "(rt_step E)\<^sup>*\<^sup>* (l @ r, s) (qs, s')"
  shows "rt_wf E (pe # qs, s') \<and> (pe_parked E d t (pe, s') \<or> woken_in_run E pe d t (l @ r, s) (qs, s'))"
proof -
  have "rt_wf E (l @ pe # r, s)" using rt.reach_inv [OF assms(2)] assms(1) by blast
  then have "rt_wf E (pe # fst (l @ r, s), snd (l @ r, s))" using rt_wf_front by simp
  from rt_run_parked [OF assms(1) this _ assms(4), of d t] assms(3) show ?thesis by simp
qed

text \<open>A process in which a task reads from the only socket, for the first time.\<close>

lemma sys0_poll:
  obtains al pe s where "fresh_addr sys0 (new_arc al)" "discard (poll_read_ready (std_ext []) al 5) \<in> calls (std_ext []) al"
    "discard (poll_read_ready (std_ext []) al 5) (PollEvented_new 7, sys0) = (Ret (), (pe, s))" "pe_parked (std_ext []) Read 5 (pe, s)"
proof -
  let ?E = "std_ext []" and ?al = "alloc0\<lparr>new_arc := 16\<rparr>" and ?h = "\<lparr>hp_inner = 16\<rparr>"
  let ?inn = "\<lparr>inner_io = 0, next_aba_guard = 0, io_dispatch = [], inner_wakeup = 2\<rparr> :: list_slab inner"
  define r where "r = \<lparr>r_events = [], r_inner = 16, wakeup_registration = 1\<rparr>"
  define s1 where "s1 = sys0\<lparr>world := 3, inners := [16 \<mapsto> ?inn]\<rparr>"
  have new: "Reactor_new ?E 16 sys0 = (Ret (Inr r), s1)" using sys0_Reactor_new by (simp add: r_def s1_def)
  have s1: "HANDLE_FALLBACK s1 = 0" by (simp add: s1_def sys0_def)
  from fallback_init_won [OF s1, of ?E r] obtain s2 where s2: "fallback_init ?E r s1 = (Ret (Inr ?h), s2)" "inners s2 16 = Some ?inn"
    by (auto simp: r_def s1_def std_ext_def)
  have cur: "try_current ?E (new_arc ?al) sys0 = (Ret (Inr ?h), s2)"
    using new s2(1) by (simp add: try_current_def HandlePriv_fallback_def alloc0_def sys0_def)
  have "inner_ok ?E ?inn" by (simp add: inner_ok_def std_ext_def ls_get_def)
  moreover obtain inn' w where "add_source ?E 7 ?inn (world s2) = (Inr 0, inn', w)"
    by (auto simp: add_source_def std_ext_def ls_insert_def)
  ultimately obtain pe s where poll: "poll_read_ready ?E ?al 5 (PollEvented_new 7, sys0) = (Ret Pending, (pe, s))"
    "pe_parked ?E Read 5 (pe, s)"
    using first_poll [OF std_ext_ok cur, of ?inn 7 0 inn' w 5] s2(2) by auto
  have "discard (poll_read_ready ?E ?al 5) (PollEvented_new 7, sys0) = (Ret (), (pe, s))" using poll by (simp add: discard_def bnd_def)
  moreover have "fresh_addr sys0 (new_arc ?al)" by (simp add: fresh_addr_def sys0_def alloc0_def)
  moreover have "discard (poll_read_ready ?E ?al 5) \<in> calls ?E ?al" by (rule calls.intros)
  ultimately show thesis using poll(2) by (intro that)
qed

lemma sys0_parked:
  obtains pe s where "reach rt_init (rt_step (std_ext [])) ([pe], s)" "pe_parked (std_ext []) Read 5 (pe, s)"
proof -
  let ?E = "std_ext []"
  obtain al pe s where poll: "fresh_addr sys0 (new_arc al)" "discard (poll_read_ready ?E al 5) \<in> calls ?E al"
    "discard (poll_read_ready ?E al 5) (PollEvented_new 7, sys0) = (Ret (), (pe, s))" "pe_parked ?E Read 5 (pe, s)" by (rule sys0_poll)
  have "rt_step ?E ([] @ PollEvented_new 7 # [], sys0) ([] @ pe # [], s)" using poll by (intro rt_step.rt_call)
  then have 2: "rt_step ?E ([PollEvented_new 7], sys0) ([pe], s)" by simp
  have 1: "rt_step ?E ([], sys0) ([PollEvented_new 7], sys0)" using rt_open [of ?E "[]" sys0 7 0] by (simp add: sys0_def)
  have "reach rt_init (rt_step ?E) ([], sys0)" by (rule reach_init) (simp add: rt_init_def sys0_def)
  from reach_step [OF reach_step [OF this 1] 2] poll(4) show thesis by (rule that)
qed

theorem parked_task_never_forgotten_witness:
  "\<exists>pe s y. pe_parked (std_ext []) Read 5 (pe, s) \<and> \<not> pe_parked (std_ext []) Read 5 (pe, snd y) \<and>
     woken_in_run (std_ext []) pe Read 5 ([], s) y"
proof -
  let ?E = "std_ext []"
  obtain pe s where R: "reach rt_init (rt_step ?E) ([pe], s)" "pe_parked ?E Read 5 (pe, s)" by (rule sys0_parked)
  obtain i where i: "reg_inner (registration pe) = Some i"
    using R(2) by (auto simp: pe_parked_def pe_entry_def split: option.splits)
  define rct where "rct = \<lparr>r_events = [], r_inner = hp_inner (handle i), wakeup_registration = 1\<rparr>"
  have gone: "\<not> pe_parked ?E Read 5 (pe, Reactor_drop ?E rct s)"
    by (auto simp: pe_parked_def pe_entry_def i rct_def Reactor_drop_def split: option.splits)
  have "(rt_step ?E)\<^sup>*\<^sup>* ([] @ [], s) ([], Reactor_drop ?E rct s)" by (auto intro: rt_reactor_drop)
  with parked_task_never_forgotten [OF std_ext_ok, where l = "[]" and pe = pe and r = "[]" and s = s and d = Read and t = 5] R gone show ?thesis by fastforce
qed

end
