(* ===== verification/Socket_Spec.thy ===== *)
theory Socket_Spec
  imports Wakeups
begin

text \<open>
  What the library promises about sockets, as an abstract program: a list of sockets, each of them new, dead or
  live with a reactor, some readiness and waiting tasks, and no slabs, tokens, handles or reference counts at all. Every
  step has a label that says what is done and to which socket or reactor. The whole program of \<open>Runtime\<close>, labelled in the
  same way, refines it: its steps are steps of the specification with the same label.
\<close>

section \<open>The specification\<close>

text \<open>
  What a program does: open a socket; call an operation on the socket at an index of the list; drop or lose it; create
  a reactor; let the reactor at an address turn, or drop it. The last two wake the tasks in the list.
\<close>

datatype action = Opened | Called nat | Closed nat | Made | Turned usize "task list" | Ended usize "task list"

text \<open>
  A turn of the reactor \<open>a\<close> may bring events to its sockets; they add readiness and take the waiting tasks they concern,
  all of which are woken.
\<close>

definition delivered :: "('aw, 'sl, 'w) ext \<Rightarrow> usize \<Rightarrow> task list \<Rightarrow> sock \<Rightarrow> sock \<Rightarrow> bool" where
  "delivered E a ts x y \<longleftrightarrow> y = x \<or> (\<exists>r u v e. x = Live a r u v \<and>
     y = Live a (r OR e) (if e AND wake_mask E Read \<noteq> 0 then None else u) (if e AND wake_mask E Write \<noteq> 0 then None else v) \<and>
     (e AND wake_mask E Read \<noteq> 0 \<longrightarrow> set_option u \<subseteq> set ts) \<and> (e AND wake_mask E Write \<noteq> 0 \<longrightarrow> set_option v \<subseteq> set ts))"

text \<open>The end of the reactor \<open>a\<close> leaves its sockets dead and wakes all their tasks.\<close>

definition ended :: "usize \<Rightarrow> sock \<Rightarrow> sock" where
  "ended a x = (case x of Live b r u v \<Rightarrow> if b = a then Dead else x | _ \<Rightarrow> x)"

definition waiting_on :: "usize \<Rightarrow> sock \<Rightarrow> task set" where
  "waiting_on a x = (case x of Live b r u v \<Rightarrow> if b = a then set_option u \<union> set_option v else {} | _ \<Rightarrow> {})"

inductive sp_step :: "('aw, 'sl, 'w) ext \<Rightarrow> action \<Rightarrow> sock list \<Rightarrow> sock list \<Rightarrow> bool" for E where
  sp_open: "sp_step E Opened xs (Fresh # xs)"
| sp_call: "own E x y \<Longrightarrow> sp_step E (Called (length l)) (l @ x # r) (l @ y # r)"
| sp_close: "sp_step E (Closed (length l)) (l @ x # r) (l @ r)"
| sp_made: "sp_step E Made xs xs"
| sp_events: "list_all2 (delivered E a ts) xs ys \<Longrightarrow> sp_step E (Turned a ts) xs ys"
| sp_ended: "(\<And>x. x \<in> set xs \<Longrightarrow> waiting_on a x \<subseteq> set ts) \<Longrightarrow> sp_step E (Ended a ts) xs (map (ended a) xs)"

section \<open>The program with labels\<close>

text \<open>The tasks woken on the way from one state to a later one.\<close>

definition woken_since :: "('sl, 'w) sys \<Rightarrow> ('sl, 'w) sys \<Rightarrow> task list" where
  "woken_since s s' = drop (length (woken s)) (woken s')"

text \<open>A poll of a connect future is a call on the socket it waits on as long as there is a socket afterwards.\<close>

definition connect_action :: "nat \<Rightarrow> PollEvented list \<Rightarrow> action" where
  "connect_action i ps = (if ps = [] then Closed i else Called i)"

inductive rt_act ::
  "('aw, 'sl, 'w) ext \<Rightarrow> action \<Rightarrow> PollEvented list \<times> ('sl, 'w) sys \<Rightarrow> PollEvented list \<times> ('sl, 'w) sys \<Rightarrow> bool" for E where
  act_open: "rt_act E Opened (ps, s) (PollEvented_new io # ps, s\<lparr>world := w\<rparr>)"
| act_call: "m \<in> calls E al \<Longrightarrow> fresh_addr s (new_arc al) \<Longrightarrow> m (pe, s) = (q, (pe', s')) \<Longrightarrow>
     rt_act E (Called (length l)) (l @ pe # r, s) (l @ pe' # r, s')"
| act_tcp_connect: "fresh_addr s (new_arc al) \<Longrightarrow> TcpConnectFuture_poll E al N t (Waiting pe, s) = (q, (st, s')) \<Longrightarrow>
     rt_act E (connect_action (length l) (after_connect st q)) (l @ pe # r, s) (l @ after_connect st q @ r, s')"
| act_uds_connect: "fresh_addr s (new_arc al) \<Longrightarrow> UnixConnectFuture_poll E al X t (Waiting pe, s) = (q, (st, s')) \<Longrightarrow>
     rt_act E (connect_action (length l) (after_connect st q)) (l @ pe # r, s) (l @ after_connect st q @ r, s')"
| act_drop: "PollEvented_drop E pe s = (q, s') \<Longrightarrow> rt_act E (Closed (length l)) (l @ pe # r, s) (l @ r, s')"
| act_reactor: "fresh_addr s addr \<Longrightarrow> Reactor_new E addr s = (q, s') \<Longrightarrow> rt_act E Made (ps, s) (ps, s')"
| act_turn: "inners s (r_inner rct) \<noteq> None \<Longrightarrow> Reactor_turn E max_wait (rct, s) = (q, (rct', s')) \<Longrightarrow>
     rt_act E (Turned (r_inner rct) (woken_since s s')) (ps, s) (ps, s')"
| act_reactor_drop: "rt_act E (Ended (r_inner rct) (woken_since s (Reactor_drop E rct s))) (ps, s) (ps, Reactor_drop E rct s)"

text \<open>It is the program of \<open>Runtime\<close>.\<close>

lemma rt_step_act: "rt_step E x y \<longleftrightarrow> (\<exists>a. rt_act E a x y)"
proof
  assume "rt_step E x y"
  then show "\<exists>a. rt_act E a x y" by cases (blast intro: rt_act.intros)+
next
  assume "\<exists>a. rt_act E a x y"
  then obtain a where "rt_act E a x y" ..
  then show "rt_step E x y" by cases (blast intro: rt_step.intros)+
qed

section \<open>Abstraction\<close>

definition rt_abs :: "('aw, 'sl, 'w) ext \<Rightarrow> PollEvented list \<times> ('sl, 'w) sys \<Rightarrow> sock list" where
  "rt_abs E = (\<lambda>(ps, s). map (abs_sock E s) ps)"

text \<open>What some events, with readiness \<open>e\<close> in all, make of an entry while the tasks \<open>ts\<close> are woken.\<close>

definition gets :: "('aw, 'sl, 'w) ext \<Rightarrow> task list \<Rightarrow> 'aw scheduled_io \<Rightarrow> 'aw scheduled_io \<Rightarrow> bool" where
  "gets E ts io io' \<longleftrightarrow> (\<exists>e. readiness io' = readiness io OR e \<and>
     (\<forall>d. waiter E d io' = (if e AND wake_mask E d \<noteq> 0 then None else waiter E d io) \<and>
       (e AND wake_mask E d \<noteq> 0 \<longrightarrow> set_option (waiter E d io) \<subseteq> set ts)))"

text \<open>
  From one state to a later one every entry of the reactor \<open>a\<close> stays and at most gets events, those of other reactors are
  the same; no reactor comes or goes.
\<close>

definition entries_get :: "('aw, 'sl, 'w) ext \<Rightarrow> usize \<Rightarrow> ('sl, 'w) sys \<Rightarrow> ('sl, 'w) sys \<Rightarrow> bool" where
  "entries_get E a s s' \<longleftrightarrow> (\<exists>ts. woken s' = woken s @ ts \<and> (\<forall>b. inners s' b = None \<longleftrightarrow> inners s b = None) \<and>
     (\<forall>b k io. entry_at E s (b, k) = Some io \<longrightarrow> (\<exists>io'. entry_at E s' (b, k) = Some io' \<and>
        (if b = a then gets E ts io io' else io' = io))))"

section \<open>The other sockets\<close>

lemma others_abs:
  assumes "rt_wf E (l @ pe # r, s)" and "left_alone E (ctx_of E pe s) (l @ r) s'" and "q \<in> set (l @ r)"
  shows "abs_sock E s' q = abs_sock E s q"
proof -
  note wf = rt_wfD [OF assms(1)]
  have slot: "pe_slot s' q = pe_slot s q" using assms(2,3) by (simp add: left_alone_def ctx_of_def)
  have "entry_at E s' p = entry_at E s p" if p: "pe_slot s q = Some p" for p
  proof -
    have "0 < owners s (l @ r) p" unfolding owners_pos using assms(3) p by blast
    with wf(5) [of p] have "pe_slot s pe \<noteq> Some p" by (auto split: if_splits)
    moreover have "entry_at E s p \<noteq> None" using wf(4) [of q p] assms(3) p by auto
    ultimately have "others E pe s p = entry_at E s p" "others E pe s p \<noteq> None" by (simp_all add: others_def)
    with map_le_at [OF left_alone_others [OF assms(2)]] show ?thesis by simp
  qed
  with slot show ?thesis by (auto simp: abs_sock_def split: option.split)
qed

lemma others_abs_map:
  assumes "rt_wf E (l @ pe # r, s)" and "left_alone E (ctx_of E pe s) (l @ r) s'"
  shows "map (abs_sock E s') l = map (abs_sock E s) l" and "map (abs_sock E s') r = map (abs_sock E s) r"
  using others_abs [OF assms] by simp_all

section \<open>Events\<close>

lemma gets_refl: "gets E ts io io"
  unfolding gets_def by (rule exI [of _ 0]) simp

lemma gets_trans:
  assumes "gets E ts io io1" and "gets E ts1 io1 io2"
  shows "gets E (ts @ ts1) io io2"
proof -
  obtain e1 where e1: "readiness io1 = readiness io OR e1"
    "\<And>d. waiter E d io1 = (if e1 AND wake_mask E d \<noteq> 0 then None else waiter E d io)"
    "\<And>d. e1 AND wake_mask E d \<noteq> 0 \<Longrightarrow> set_option (waiter E d io) \<subseteq> set ts" using assms(1) by (auto simp: gets_def)
  obtain e2 where e2: "readiness io2 = readiness io1 OR e2"
    "\<And>d. waiter E d io2 = (if e2 AND wake_mask E d \<noteq> 0 then None else waiter E d io1)"
    "\<And>d. e2 AND wake_mask E d \<noteq> 0 \<Longrightarrow> set_option (waiter E d io1) \<subseteq> set ts1" using assms(2) by (auto simp: gets_def)
  have hit: "(e1 OR e2) AND m \<noteq> 0 \<longleftrightarrow> e1 AND m \<noteq> 0 \<or> e2 AND m \<noteq> 0" for m
    by (auto simp: bit_eq_iff bit_simps)
  have "set_option (waiter E d io) \<subseteq> set (ts @ ts1)" if "(e1 OR e2) AND wake_mask E d \<noteq> 0" for d
    using that e1(2,3) [of d] e2(3) [of d] by (cases "e1 AND wake_mask E d = 0") (auto simp: hit)
  then show ?thesis
    unfolding gets_def by (intro exI [of _ "e1 OR e2"] conjI allI) (auto simp: e1(1,2) e2(1,2) hit or.assoc)
qed

lemma gets_delivered:
  assumes "gets E ts io io'"
  shows "delivered E a ts (Live a (readiness io) (waiter E Read io) (waiter E Write io))
    (Live a (readiness io') (waiter E Read io') (waiter E Write io'))"
proof -
  obtain e where e: "readiness io' = readiness io OR e"
    "\<And>d. waiter E d io' = (if e AND wake_mask E d \<noteq> 0 then None else waiter E d io)"
    "\<And>d. e AND wake_mask E d \<noteq> 0 \<Longrightarrow> set_option (waiter E d io) \<subseteq> set ts" using assms by (auto simp: gets_def)
  show ?thesis
    unfolding delivered_def e(1) e(2) [of Read] e(2) [of Write] using e(3) [of Read] e(3) [of Write] by blast
qed

lemma entries_get_same:
  "inners s' = inners s \<Longrightarrow> woken s' = woken s \<Longrightarrow> entries_get E a s s'"
  by (auto simp: entries_get_def entry_at_def intro: gets_refl)

lemma entries_get_trans:
  assumes "entries_get E a s t" and "entries_get E a t u"
  shows "entries_get E a s u"
proof -
  obtain ts where t: "woken t = woken s @ ts" "\<And>b. inners t b = None \<longleftrightarrow> inners s b = None"
    "\<And>b k io. entry_at E s (b, k) = Some io \<Longrightarrow> \<exists>io'. entry_at E t (b, k) = Some io' \<and> (if b = a then gets E ts io io' else io' = io)"
    using assms(1) unfolding entries_get_def by metis
  obtain us where u: "woken u = woken t @ us" "\<And>b. inners u b = None \<longleftrightarrow> inners t b = None"
    "\<And>b k io. entry_at E t (b, k) = Some io \<Longrightarrow> \<exists>io'. entry_at E u (b, k) = Some io' \<and> (if b = a then gets E us io io' else io' = io)"
    using assms(2) unfolding entries_get_def by metis
  have "\<exists>io'. entry_at E u (b, k) = Some io' \<and> (if b = a then gets E (ts @ us) io io' else io' = io)"
    if p: "entry_at E s (b, k) = Some io" for b k io
  proof -
    obtain io1 where 1: "entry_at E t (b, k) = Some io1" "if b = a then gets E ts io io1 else io1 = io" using t(3) [OF p] by blast
    obtain io2 where "entry_at E u (b, k) = Some io2" "if b = a then gets E us io1 io2 else io2 = io1" using u(3) [OF 1(1)] by blast
    with 1(2) gets_trans show ?thesis by (cases "b = a") auto
  qed
  with t(1,2) u(1,2) show ?thesis unfolding entries_get_def by (intro exI [of _ "ts @ us"]) simp
qed

lemma dispatch_gets:
  assumes "ext_ok E" and "inners s a = Some inn" and "inner_ok E inn" and "dispatch E tok r inn = (ts, inn')"
  shows "entries_get E a s (s\<lparr>inners := (inners s)(a \<mapsto> inn'), woken := woken s @ ts\<rparr>)"
proof -
  let ?s = "s\<lparr>inners := (inners s)(a \<mapsto> inn'), woken := woken s @ ts\<rparr>"
  have "\<exists>io1. entry_at E ?s (b, k) = Some io1 \<and> (if b = a then gets E ts io io1 else io1 = io)"
    if p: "entry_at E s (b, k) = Some io" for b k io
  proof (cases "b = a")
    case True
    then have io: "sl_get E (io_dispatch inn) k = Some io" using p assms(2) by (simp add: entry_at_def)
    let ?io1 = "if tok = aba_guard io OR k then deliver E r io else io"
    have "entry_at E ?s (b, k) = Some ?io1"
      using dispatch_entry [OF assms(1,3) io, of tok r] assms(4) by (simp add: entry_at_def True)
    moreover have "gets E ts io (deliver E r io)" if "tok = aba_guard io OR k"
      unfolding gets_def
    proof (intro exI [of _ r] conjI allI impI)
      show "set_option (waiter E d io) \<subseteq> set ts" if "r AND wake_mask E d \<noteq> 0" for d
        using dispatch_live_wakes [OF assms(1,3) io _ that] assms(4) \<open>tok = aba_guard io OR k\<close> by auto
    qed (simp_all add: deliver_waiter [OF assms(1)], simp add: deliver_def)
    ultimately show ?thesis using True gets_refl [of E ts io] by auto
  next
    case False
    then have "entry_at E ?s (b, k) = Some io" using p by (simp add: entry_at_def)
    with False show ?thesis by auto
  qed
  with assms(2) show ?thesis by (auto simp: entries_get_def)
qed

lemma process_events_gets:
  assumes "ext_ok E" and "inners s a = Some inn" and "inner_ok E inn" and "process_events E a evs s = (q, s')"
  shows "entries_get E a s s'"
  using assms
proof (rule process_events_steps)
  show "entries_get E a s s" for s by (rule entries_get_same) simp_all
  show "entries_get E a s (s\<lparr>world := w\<rparr>)" for s w by (rule entries_get_same) simp_all
qed (fact entries_get_trans dispatch_gets [OF assms(1)])+

lemma turn_gets:
  assumes "ext_ok E" and "rt_wf E (ps, s)" and "inners s (r_inner rct) \<noteq> None"
    and "Reactor_turn E max_wait (rct, s) = (q, (rct', s'))"
  shows "entries_get E (r_inner rct) s s'"
  using assms(4,3)
proof (cases rule: turn_cases)
  case (failed e w)
  then show ?thesis by (intro entries_get_same) simp_all
next
  case (polled evs w q1)
  obtain inn where inn: "inners s (r_inner rct) = Some inn" using assms(3) by blast
  have "entries_get E (r_inner rct) (s\<lparr>world := w\<rparr>) s'"
    by (rule process_events_gets [OF assms(1) _ rt_wfD(2) [OF assms(2) inn] polled(1)]) (simp add: inn)
  then show ?thesis by (simp add: entries_get_def entry_at_def)
qed

lemma gets_abs:
  assumes "entries_get E a s s'" and "rt_wf E (ps, s)"
  shows "list_all2 (delivered E a (woken_since s s')) (map (abs_sock E s) ps) (map (abs_sock E s') ps)"
proof -
  obtain ts where ts: "woken s' = woken s @ ts" and same: "\<And>b. inners s' b = None \<longleftrightarrow> inners s b = None" and
    ent: "\<And>b k io. entry_at E s (b, k) = Some io \<Longrightarrow> \<exists>io'. entry_at E s' (b, k) = Some io' \<and> (if b = a then gets E ts io io' else io' = io)"
    using assms(1) unfolding entries_get_def by metis
  have slot: "pe_slot s' = pe_slot s" by (rule pe_slot_same) (rule same)
  have "delivered E a ts (abs_sock E s pe) (abs_sock E s' pe)" if mem: "pe \<in> set ps" for pe
  proof (cases "pe_fresh pe \<or> pe_slot s pe = None")
    case True
    then show ?thesis using slot by (auto simp: abs_sock_def delivered_def)
  next
    case False
    then obtain b k io where p: "\<not> pe_fresh pe" "pe_slot s pe = Some (b, k)" "entry_at E s (b, k) = Some io"
      using rt_wfD(4) [OF assms(2) mem] by (metis not_None_eq prod.exhaust)
    obtain io' where io': "entry_at E s' (b, k) = Some io'" "if b = a then gets E ts io io' else io' = io"
      using ent [OF p(3)] by blast
    show ?thesis
    proof (cases "b = a")
      case True
      with io' p slot gets_delivered [of E ts io io' a] show ?thesis by (simp add: abs_sock_def)
    next
      case False
      with io' p slot show ?thesis by (simp add: abs_sock_def delivered_def)
    qed
  qed
  moreover have "woken_since s s' = ts" by (simp add: woken_since_def ts)
  ultimately show ?thesis by (simp add: list_all2_map1 list_all2_map2 list.rel_refl_strong)
qed

section \<open>The end of a reactor\<close>

lemma reactor_drop_abs:
  assumes "rt_wf E (ps, s)" and "pe \<in> set ps"
  shows "abs_sock E (Reactor_drop E rct s) pe = ended (r_inner rct) (abs_sock E s pe)"
proof -
  let ?s = "Reactor_drop E rct s"
  have s: "inners ?s = (inners s)(r_inner rct := None)" by (auto simp: Reactor_drop_def split: option.split)
  show ?thesis
  proof (cases "pe_fresh pe \<or> pe_slot s pe = None")
    case True
    then have "pe_fresh pe \<or> pe_slot ?s pe = None" using s by (auto simp: pe_slot_def split: option.splits if_splits)
    with True show ?thesis by (auto simp: abs_sock_def ended_def)
  next
    case False
    then obtain a k io where p: "\<not> pe_fresh pe" "pe_slot s pe = Some (a, k)" "entry_at E s (a, k) = Some io"
      using rt_wfD(4) [OF assms] by (metis not_None_eq prod.exhaust)
    show ?thesis
    proof (cases "a = r_inner rct")
      case True
      then have "pe_slot ?s pe = None" using p(2) s by (auto simp: pe_slot_def split: option.splits if_splits)
      with p True show ?thesis by (simp add: abs_sock_def ended_def)
    next
      case False
      then have "pe_slot ?s pe = Some (a, k)" "entry_at E ?s (a, k) = Some io"
        using p(2,3) s by (auto simp: pe_slot_def entry_at_def split: option.splits if_splits)
      with p False show ?thesis by (simp add: abs_sock_def ended_def)
    qed
  qed
qed

lemma reactor_drop_wakes:
  assumes "ext_ok E" and "rt_wf E (ps, s)" and "pe \<in> set ps"
  shows "waiting_on (r_inner rct) (abs_sock E s pe) \<subseteq> set (woken_since s (Reactor_drop E rct s))"
proof (cases "\<exists>k io. \<not> pe_fresh pe \<and> pe_slot s pe = Some (r_inner rct, k) \<and> entry_at E s (r_inner rct, k) = Some io")
  case True
  then obtain k io inn where p: "\<not> pe_fresh pe" "pe_slot s pe = Some (r_inner rct, k)" "inners s (r_inner rct) = Some inn"
    "sl_get E (io_dispatch inn) k = Some io" by (auto simp: entry_at_def split: option.splits)
  have "set_option (waiter E d io) \<subseteq> set (inner_drop E inn)" for d
    using set_inner_drop [OF assms(1) inner_ok_fits [OF rt_wfD(2) [OF assms(2) p(3)]]] p(4)
    by (cases d) (auto simp: waiter_def)
  with p show ?thesis by (simp add: abs_sock_def entry_at_def waiting_on_def Reactor_drop_def woken_since_def)
next
  case False
  then show ?thesis by (auto simp: abs_sock_def waiting_on_def split: option.split)
qed

section \<open>The simulation\<close>

lemma connect_abs:
  assumes "rt_wf E (l @ pe # r, s)" and "left_alone E (ctx_of E pe s) (l @ r) s'"
    and "\<forall>pe' \<in> set (after_connect st q). own E (abs_sock E s pe) (abs_sock E s' pe')"
  shows "sp_step E (connect_action (length l) (after_connect st q)) (rt_abs E (l @ pe # r, s))
    (rt_abs E (l @ after_connect st q @ r, s'))"
proof -
  note same = others_abs_map [OF assms(1,2)]
  have "length (after_connect st q) \<le> 1"
    by (simp add: after_connect_def split: ConnectFutureState.split outcome.split poll.split sum.split)
  then consider "after_connect st q = []" | pe' where "after_connect st q = [pe']"
    by (cases "after_connect st q") auto
  then show ?thesis
  proof cases
    case 1
    then show ?thesis using sp_close [of E "map (abs_sock E s) l" "abs_sock E s pe"]
      by (simp add: rt_abs_def same connect_action_def)
  next
    case (2 pe')
    then show ?thesis using assms(3) sp_call [of E "abs_sock E s pe" "abs_sock E s' pe'" "map (abs_sock E s) l"]
      by (simp add: rt_abs_def same connect_action_def)
  qed
qed

lemma reactor_new_abs:
  assumes "ext_ok E" and "rt_wf E (ps, s)" and "fresh_addr s addr" and "Reactor_new E addr s = (q, s')" and "pe \<in> set ps"
  shows "abs_sock E s' pe = abs_sock E s pe"
  using assms(4)
proof (cases rule: Reactor_new_spec)
  case err
  then have "pe_slot s' = pe_slot s" by (intro pe_slot_same) simp
  with err show ?thesis by (intro abs_sock_cong) (simp_all add: entry_at_def)
next
  case (ok rct p v)
  note R = rt_wf_reactor [OF assms(2,3) ok(3), where n = "weak s addr"]
  have slot: "pe_slot s' pe = pe_slot s pe" and le: "entry_at E s \<subseteq>\<^sub>m entry_at E s'"
    using R(2,3) ok new_inner_ok [OF assms(1)] assms(5) by auto
  have "entry_at E s' k = entry_at E s k" if "pe_slot s pe = Some k" for k
    by (rule map_le_at [OF le]) (rule rt_wfD(4) [OF assms(2,5) that])
  with slot show ?thesis by (auto simp: abs_sock_def split: option.split)
qed

lemma rt_act_abs:
  assumes "ext_ok E" and "rt_wf E x" and "rt_act E a x y"
  shows "sp_step E a (rt_abs E x) (rt_abs E y)"
  using assms(3)
proof cases
  case (act_open ps s io w)
  have "abs_sock E s (PollEvented_new io) = Fresh" by (simp add: abs_sock_def pe_fresh_def PollEvented_new_def)
  with act_open sp_open show ?thesis by (simp add: rt_abs_def)
next
  case (act_call m al s pe q pe' s' l r)
  note wf = assms(2) [unfolded act_call]
  have "left_alone E (ctx_of E pe s) (l @ r) s' \<and> own E (abs_sock E s pe) (abs_sock E s' pe')"
    by (rule call_wf [OF assms(1) wf act_call(4,5)]) (use act_call(6) in auto)
  then have own: "own E (abs_sock E s pe) (abs_sock E s' pe')" and alone: "left_alone E (ctx_of E pe s) (l @ r) s'" by blast+
  show ?thesis using sp_call [OF own, of "map (abs_sock E s) l"] by (simp add: act_call rt_abs_def others_abs_map [OF wf alone])
next
  case (act_tcp_connect s al N t pe q st s' l r)
  note wf = assms(2) [unfolded act_tcp_connect]
  from tcp_connect_wf [OF assms(1) in_ctx_others [OF wf act_tcp_connect(4)] act_tcp_connect(5)]
  show ?thesis using connect_abs [OF wf] by (simp add: act_tcp_connect ctx_of_def)
next
  case (act_uds_connect s al X t pe q st s' l r)
  note wf = assms(2) [unfolded act_uds_connect]
  from uds_connect_wf [OF assms(1) in_ctx_others [OF wf act_uds_connect(4)] act_uds_connect(5)]
  show ?thesis using connect_abs [OF wf] by (simp add: act_uds_connect ctx_of_def)
next
  case (act_drop pe s q s' l r)
  note wf = assms(2) [unfolded act_drop]
  have alone: "left_alone E (ctx_of E pe s) (l @ r) s'"
    by (rule drop_wf [OF assms(1) wf]) (use act_drop(4) in \<open>auto simp: left_alone_def ctx_of_def others_def map_le_def split: if_splits\<close>)
  show ?thesis using sp_close [of E "map (abs_sock E s) l"] by (simp add: act_drop rt_abs_def others_abs_map [OF wf alone])
next
  case (act_reactor s addr q s' ps)
  then have same: "map (abs_sock E s') ps = map (abs_sock E s) ps" using reactor_new_abs [OF assms(1), of ps s] assms(2) by simp
  show ?thesis unfolding act_reactor rt_abs_def prod.case same by (rule sp_made)
next
  case (act_turn s rct max_wait q rct' s' ps)
  note wf = assms(2) [unfolded act_turn]
  from gets_abs [OF turn_gets [OF assms(1) wf act_turn(4,5)] wf] show ?thesis by (simp add: act_turn rt_abs_def sp_events)
next
  case (act_reactor_drop rct s ps)
  note wf = assms(2) [unfolded act_reactor_drop]
  have same: "map (abs_sock E (Reactor_drop E rct s)) ps = map (ended (r_inner rct)) (map (abs_sock E s) ps)"
    using reactor_drop_abs [OF wf] by simp
  show ?thesis
    unfolding act_reactor_drop rt_abs_def prod.case same by (rule sp_ended) (use reactor_drop_wakes [OF assms(1) wf] in auto)
qed

lemma rt_act_wf: "ext_ok E \<Longrightarrow> rt_act E a x y \<Longrightarrow> rt_wf E x \<Longrightarrow> rt_wf E y"
  using rt_step_wf rt_step_act by metis

interpretation sockets: labelled_simulation "\<lambda>x. ext_ok E \<and> rt_init x" "rt_act E" "\<lambda>x. ext_ok E \<and> rt_wf E x"
  "\<lambda>xs. xs = []" "sp_step E" "rt_abs E" for E
proof (unfold_locales, goal_cases)
  case (1 x)
  then show ?case using rt.init_inv [of x E] by blast
next
  case (2 x y)
  then show ?case using rt_act_wf by blast
next
  case (3 x)
  then show ?case by (auto simp: rt_init_def rt_abs_def split: prod.splits)
next
  case (4 x a y)
  then show ?case using rt_act_abs by blast
qed

section \<open>Properties\<close>

text \<open>C4: a whole program refines the specification of independent sockets, label by label. Whatever a program has done
  since the start of the process, the specification can do under the same labels, and every next step of the program,
  seen through its sockets, is the specification's step with that label. So a call on a socket, or a poll of the connect
  future that holds it, changes that socket and no other: a new one is at most registered, with no readiness yet; a live one
  stays live and with its reactor, loses readiness only, never \<^verbatim>\<open>hup\<close>, and loses a waiting task only to another one; a dead one
  stays dead. Opening and dropping add and remove one socket, creating a reactor changes none. A turn of a
  reactor changes its own sockets only; it adds readiness and wakes every task it takes from a socket. When a reactor
  ends, its sockets, and no others, are dead, and every task that waited on them is woken.\<close>

theorem program_refines_sockets:
  assumes "ext_ok E" and "rt_init x" and "runs (rt_act E) as x y"
  shows "runs (sp_step E) as [] (rt_abs E y) \<and>
    (\<forall>a z. rt_act E a y z \<longrightarrow> sp_step E a (rt_abs E y) (rt_abs E z)) \<and>
    (\<forall>z. rt_step E y z \<longleftrightarrow> (\<exists>a. rt_act E a y z))"
proof -
  have inv: "ext_ok E \<and> rt_wf E x" using sockets.init_inv [of E x] assms(1,2) by blast
  have "rt_abs E x = []" using sockets.init_sim [of E x] assms(1,2) by blast
  with sockets.runs_sim [OF assms(3) inv] have "runs (sp_step E) as [] (rt_abs E y)" by simp
  moreover have "ext_ok E \<and> rt_wf E y" by (rule sockets.runs_inv [OF assms(3) inv])
  then have "\<forall>a z. rt_act E a y z \<longrightarrow> sp_step E a (rt_abs E y) (rt_abs E z)" using rt_act_abs by blast
  ultimately show ?thesis using rt_step_act by blast
qed

text \<open>A program that opens a socket and polls it once, with task 5.\<close>

lemma sys0_runs:
  obtains pe s where "runs (rt_act (std_ext [])) [Opened, Called 0] ([], sys0) ([pe], s)" "pe_parked (std_ext []) Read 5 (pe, s)"
proof -
  let ?E = "std_ext []"
  obtain al pe s where poll: "fresh_addr sys0 (new_arc al)" "discard (poll_read_ready ?E al 5) \<in> calls ?E al"
    "discard (poll_read_ready ?E al 5) (PollEvented_new 7, sys0) = (Ret (), (pe, s))" "pe_parked ?E Read 5 (pe, s)" by (rule sys0_poll)
  have "rt_act ?E Opened ([], sys0) ([PollEvented_new 7], sys0)" using act_open [of ?E "[]" sys0 7 0] by (simp add: sys0_def)
  moreover have "rt_act ?E (Called 0) ([PollEvented_new 7], sys0) ([pe], s)" using act_call [OF poll(2,1,3), of "[]" "[]"] by simp
  ultimately have "runs (rt_act ?E) [Opened, Called 0] ([], sys0) ([pe], s)" by auto
  with poll(4) show thesis by (rule that [rotated])
qed

theorem program_refines_sockets_witness:
  "\<exists>y a r b. runs (rt_act (std_ext [])) [Opened, Called 0] ([], sys0) y \<and> rt_abs (std_ext []) y = [Live a r (Some 5) b] \<and>
     runs (sp_step (std_ext [])) [Opened, Called 0] [] [Live a r (Some 5) b]"
proof -
  let ?E = "std_ext []"
  obtain pe s where R: "runs (rt_act ?E) [Opened, Called 0] ([], sys0) ([pe], s)" "pe_parked ?E Read 5 (pe, s)" by (rule sys0_runs)
  have init: "rt_init ([], sys0)" by (simp add: rt_init_def sys0_def)
  have wf: "rt_wf ?E ([pe], s)" using sockets.runs_inv [OF R(1)] sockets.init_inv [of ?E "([], sys0)"] init std_ext_ok by blast
  obtain p where p: "pe_slot s pe = Some p" "parked_at ?E Read 5 s p" by (rule pe_parked_slot [OF std_ext_ok wf R(2)])
  then have "\<not> pe_fresh pe" using fresh_fields(2) [of pe s] by auto
  with p obtain a r b where "abs_sock ?E s pe = Live a r (Some 5) b" by (auto simp: abs_sock_def parked_at_def)
  then have "rt_abs ?E ([pe], s) = [Live a r (Some 5) b]" by (simp add: rt_abs_def)
  with program_refines_sockets [OF std_ext_ok init R(1)] R(1) show ?thesis by metis
qed

end
