(* ===== verification/Examples.thy ===== *)
theory Examples
  imports Wakeups
begin

text \<open>
  The example programs of \<^verbatim>\<open>examples/\<close>: two servers that hand every incoming connection to a task of a thread pool, one
  echoing (\<^verbatim>\<open>echo.rs\<close>), one reciting (\<^verbatim>\<open>shakespeare.rs\<close>), and a client (\<^verbatim>\<open>shakespeare-client.rs\<close>). An \<^verbatim>\<open>async\<close> function or
  block is the state machine it stands for: a datatype of the points where it can be suspended, and one function
  that polls it. The theory shows that the library keeps its promises when all of them run in one process.
\<close>

section \<open>What the programs use of other crates\<close>

text \<open>
  A future of \<^verbatim>\<open>futures\<close> that works on a borrowed stream is a state machine over what it can ask for: it reads, writes or
  flushes the stream, with the waker of its caller, and goes on with the answer, whatever that is; it does something that
  concerns no socket, such as writing to the standard output; or its poll returns, in the state from which the next poll
  starts. \<open>'f\<close> are its states. Nothing bounds how much it asks for in one poll.
\<close>

datatype ('f, 'a, 'w) request =
    Poll_read "byte list" "(usize \<times> byte list) io_result poll \<Rightarrow> 'f"
  | Poll_write "byte list" "usize io_result poll \<Rightarrow> 'f"
  | Poll_flush "unit io_result poll \<Rightarrow> 'f"
  | Elsewhere "'w \<Rightarrow> 'f \<times> 'w"
  | Return 'a 'f

text \<open>
  \<^verbatim>\<open>futures\<close>: \<open>pool_new\<close> and \<open>pool_spawn\<close> answer \<^verbatim>\<open>ThreadPool::new\<close> and \<^verbatim>\<open>spawn\<close>; \<open>copy_into\<close>, \<open>copy_stdout\<close> and \<open>write_all\<close>
  are the futures of \<^verbatim>\<open>copy_into\<close>, to the stream itself and to the standard output, and of \<^verbatim>\<open>write_all\<close>, before their first poll,
  and the fields with \<open>next\<close> their state machines. \<^verbatim>\<open>rand\<close>: \<open>rng_choose n\<close> is the index \<^verbatim>\<open>choose\<close> picks in a slice of length \<open>n\<close>.
  \<open>stdout_write\<close> says whether a line could be written, \<open>addr_fmt\<close> is \<^verbatim>\<open>Display\<close> of an address.
\<close>

record ('f, 'w) app =
  pool_new :: "'w \<Rightarrow> unit io_result \<times> 'w"
  pool_spawn :: "'w \<Rightarrow> bool \<times> 'w"
  copy_into :: 'f
  copy_next :: "'f \<Rightarrow> ('f, usize io_result poll, 'w) request"
  copy_stdout :: 'f
  copy_stdout_next :: "'f \<Rightarrow> ('f, usize io_result poll, 'w) request"
  write_all :: "byte list \<Rightarrow> 'f"
  write_all_next :: "'f \<Rightarrow> ('f, unit io_result poll, 'w) request"
  rng_choose :: "nat \<Rightarrow> 'w \<Rightarrow> nat option \<times> 'w"
  stdout_write :: "string \<Rightarrow> 'w \<Rightarrow> bool \<times> 'w"
  addr_fmt :: "SocketAddr \<Rightarrow> string"

text \<open>
  One poll of such a future. It carries fuel, one unit per request; \<open>None\<close> says that the fuel is used up and the poll is
  still under way, in the given state.
\<close>

fun poll_future ::
  "('aw, 'sl, 'w) ext \<Rightarrow> alloc \<Rightarrow> 'w tcp_ops \<Rightarrow> ('f \<Rightarrow> ('f, 'a, 'w) request) \<Rightarrow> task \<Rightarrow> nat \<Rightarrow> 'f \<Rightarrow>
     (('sl, 'w) pst, 'a option \<times> 'f) op" where
  "poll_future E al N step cx 0 f = ret (None, f)"
| "poll_future E al N step cx (Suc n) f = (case step f of
      Poll_read buf k \<Rightarrow> bnd (TcpStream_poll_read E al N cx buf) (\<lambda>r. poll_future E al N step cx n (k r))
    | Poll_write buf k \<Rightarrow> bnd (TcpStream_poll_write E al N cx buf) (\<lambda>r. poll_future E al N step cx n (k r))
    | Poll_flush k \<Rightarrow> bnd (TcpStream_poll_flush E al N cx) (\<lambda>r. poll_future E al N step cx n (k r))
    | Elsewhere g \<Rightarrow> bnd (world_call g) (\<lambda>f1. poll_future E al N step cx n f1)
    | Return v f1 \<Rightarrow> ret (Some v, f1))"

text \<open>\<^verbatim>\<open>println!\<close> panics when the standard output cannot be written.\<close>

definition println :: "('f, 'w) app \<Rightarrow> string \<Rightarrow> (('sl, 'w) sys, unit) op" where
  "println A line s = (case stdout_write A (line @ [CHR 0x0A]) (world s) of
      (True, w) \<Rightarrow> (Ret (), s\<lparr>world := w\<rparr>)
    | (False, w) \<Rightarrow> (Panic ''failed printing to stdout'', s\<lparr>world := w\<rparr>))"

text \<open>\<^verbatim>\<open>"127.0.0.1:7878".parse().unwrap()\<close>\<close>

definition server_addr :: SocketAddr where
  "server_addr = V4 0x7F000001 7878"

section \<open>One connection\<close>

text \<open>
  An \<^verbatim>\<open>async fn\<close> that owns a stream: not yet polled, suspended in the future it awaits, or returned. The two halves
  \<^verbatim>\<open>split\<close> makes of a stream are the stream; it is dropped with them.
\<close>

datatype 'f routine = Unresumed TcpStream | Suspended 'f TcpStream | Returned

text \<open>The \<^verbatim>\<open>await?\<close> that ends such a function: when the future is done, the stream is dropped and the function returns.
  A task of the pool that panics drops its stream while unwinding.\<close>

definition await_last ::
  "('aw, 'sl, 'w) ext \<Rightarrow> ('f \<Rightarrow> (('sl, 'w) pst, 'a io_result poll option \<times> 'f) op) \<Rightarrow> 'f \<Rightarrow> TcpStream \<Rightarrow> ('sl, 'w) sys \<Rightarrow>
     unit io_result poll outcome \<times> ('f routine \<times> ('sl, 'w) sys)" where
  "await_last E fut f stream s = (case fut f (stream, s) of
      (Ret (Some Pending, f1), (stream1, s1)) \<Rightarrow> (Ret Pending, (Suspended f1 stream1, s1))
    | (Ret (Some (Ready r), f1), (stream1, s1)) \<Rightarrow>
        (case drop_and_return E stream1 (Ready (map_sum id (\<lambda>_. ()) r)) s1 of (q, s2) \<Rightarrow> (q, (Returned, s2)))
    | (Ret (None, f1), (stream1, s1)) \<Rightarrow> (OutOfFuel, (Suspended f1 stream1, s1))
    | (Panic m, (stream1, s1)) \<Rightarrow> (case PollEvented_drop E stream1 s1 of (_, s2) \<Rightarrow> (Panic m, (Returned, s2)))
    | (OutOfFuel, (stream1, s1)) \<Rightarrow> (OutOfFuel, (Suspended f stream1, s1)))"

definition echo_on_poll ::
  "('aw, 'sl, 'w) ext \<Rightarrow> alloc \<Rightarrow> 'w tcp_ops \<Rightarrow> ('f, 'w) app \<Rightarrow> nat \<Rightarrow> task \<Rightarrow>
     ('f routine \<times> ('sl, 'w) sys, unit io_result poll) op" where
  "echo_on_poll E al N A fuel cx = (\<lambda>(st, s). case st of
      Unresumed stream \<Rightarrow> await_last E (poll_future E al N (copy_next A) cx fuel) (copy_into A) stream s
    | Suspended f stream \<Rightarrow> await_last E (poll_future E al N (copy_next A) cx fuel) f stream s
    | Returned \<Rightarrow> (Panic ''`async fn` resumed after completion'', (Returned, s)))"

definition SHAKESPEARE :: "byte list list" where
  "SHAKESPEARE = map (map of_char)
    [''Now is the winter of our discontent'' @ [CHR 0x0A] @ ''Made glorious summer by this sun of York.'' @ [CHR 0x0A],
     ''Some are born great, some achieve greatness'' @ [CHR 0x0A] @
       ''And some have greatness thrust upon them.'' @ [CHR 0x0A],
     ''Friends, Romans, countrymen - lend me your ears!'' @ [CHR 0x0A] @
       ''I come not to praise Caesar, but to bury him.'' @ [CHR 0x0A],
     ''The evil that men do lives after them'' @ [CHR 0x0A] @ ''The good is oft interred with their bones.'' @ [CHR 0x0A],
     ''                  It is a tale'' @ [CHR 0x0A] @ ''Told by an idiot, full of sound and fury'' @ [CHR 0x0A] @
       ''Signifying nothing.'' @ [CHR 0x0A],
     ''Ay me! For aught that I could ever read,'' @ [CHR 0x0A] @ ''Could ever hear by tale or history,'' @ [CHR 0x0A] @
       ''The course of true love never did run smooth.'' @ [CHR 0x0A],
     ''I have full cause of weeping, but this heart'' @ [CHR 0x0A] @
       ''Shall break into a hundred thousand flaws,'' @ [CHR 0x0A] @ ''Or ere I'' @ [CHR 0x27] @ ''ll weep.-O Fool, I shall go mad!'' @ [CHR 0x0A],
     ''                  Each your doing,'' @ [CHR 0x0A] @ ''So singular in each particular,'' @ [CHR 0x0A] @
       ''Crowns what you are doing in the present deed,'' @ [CHR 0x0A] @ ''That all your acts are queens.'' @ [CHR 0x0A]]"

definition recite_shakespeare_poll ::
  "('aw, 'sl, 'w) ext \<Rightarrow> alloc \<Rightarrow> 'w tcp_ops \<Rightarrow> ('f, 'w) app \<Rightarrow> nat \<Rightarrow> task \<Rightarrow>
     ('f routine \<times> ('sl, 'w) sys, unit io_result poll) op" where
  "recite_shakespeare_poll E al N A fuel cx = (\<lambda>(st, s). case st of
      Unresumed stream \<Rightarrow>
        (case rng_choose A (length SHAKESPEARE) (world s) of
           (None, w) \<Rightarrow>
             (case PollEvented_drop E stream (s\<lparr>world := w\<rparr>) of
                (_, s1) \<Rightarrow> (Panic ''called `Option::unwrap()` on a `None` value'', (Returned, s1)))
         | (Some i, w) \<Rightarrow> await_last E (poll_future E al N (write_all_next A) cx fuel) (write_all A (SHAKESPEARE ! i)) stream
             (s\<lparr>world := w\<rparr>))
    | Suspended f stream \<Rightarrow> await_last E (poll_future E al N (write_all_next A) cx fuel) f stream s
    | Returned \<Rightarrow> (Panic ''`async fn` resumed after completion'', (Returned, s)))"

text \<open>The \<^verbatim>\<open>async move\<close> block a server spawns; \<open>body\<close> polls the function it calls.\<close>

datatype 'f session = Handed TcpStream SocketAddr | Talking SocketAddr "'f routine" | Over

definition session_talk ::
  "('f, 'w) app \<Rightarrow> ('f routine \<times> ('sl, 'w) sys, unit io_result poll) op \<Rightarrow> SocketAddr \<Rightarrow>
     'f routine \<times> ('sl, 'w) sys \<Rightarrow> unit poll outcome \<times> ('f session \<times> ('sl, 'w) sys)" where
  "session_talk A body addr x = (case body x of
      (Ret Pending, (rt, s)) \<Rightarrow> (Ret Pending, (Talking addr rt, s))
    | (Ret (Ready (Inl e)), (rt, s)) \<Rightarrow> (Panic ''called `Result::unwrap()` on an `Err` value'', (Over, s))
    | (Ret (Ready (Inr _)), (rt, s)) \<Rightarrow>
        (case bnd (println A (''Closing stream from: '' @ addr_fmt A addr)) (\<lambda>_. ret (Ready ())) s of
           (q, s1) \<Rightarrow> (q, (Over, s1)))
    | (Panic m, (rt, s)) \<Rightarrow> (Panic m, (Over, s))
    | (OutOfFuel, (rt, s)) \<Rightarrow> (OutOfFuel, (Talking addr rt, s)))"

definition session_poll ::
  "('aw, 'sl, 'w) ext \<Rightarrow> ('f, 'w) app \<Rightarrow> ('f routine \<times> ('sl, 'w) sys, unit io_result poll) op \<Rightarrow>
     ('f session \<times> ('sl, 'w) sys, unit poll) op" where
  "session_poll E A body = (\<lambda>(st, s). case st of
      Handed stream addr \<Rightarrow>
        (case println A (''Accepting stream from: '' @ addr_fmt A addr) s of
           (Ret _, s1) \<Rightarrow> session_talk A body addr (Unresumed stream, s1)
         | (Panic m, s1) \<Rightarrow> (case PollEvented_drop E stream s1 of (_, s2) \<Rightarrow> (Panic m, (Over, s2)))
         | (OutOfFuel, s1) \<Rightarrow> (OutOfFuel, (Over, s1)))
    | Talking addr rt \<Rightarrow> session_talk A body addr (rt, s)
    | Over \<Rightarrow> (Panic ''`async fn` resumed after completion'', (Over, s)))"

definition echo_session_poll ::
  "('aw, 'sl, 'w) ext \<Rightarrow> 'w tcp_ops \<Rightarrow> ('f, 'w) app \<Rightarrow> alloc \<Rightarrow> nat \<Rightarrow> task \<Rightarrow>
     ('f session \<times> ('sl, 'w) sys, unit poll) op" where
  "echo_session_poll E N A al fuel cx = session_poll E A (echo_on_poll E al N A fuel cx)"

definition shakespeare_session_poll ::
  "('aw, 'sl, 'w) ext \<Rightarrow> 'w tcp_ops \<Rightarrow> ('f, 'w) app \<Rightarrow> alloc \<Rightarrow> nat \<Rightarrow> task \<Rightarrow>
     ('f session \<times> ('sl, 'w) sys, unit poll) op" where
  "shakespeare_session_poll E N A al fuel cx = session_poll E A (recite_shakespeare_poll E al N A fuel cx)"

section \<open>The servers\<close>

text \<open>The \<^verbatim>\<open>async\<close> block of \<^verbatim>\<open>main\<close>: not yet polled, waiting for the next connection, or done.\<close>

datatype server = Starting | Accepting Incoming | Finished

text \<open>Leaving the block drops the listener.\<close>

definition server_return ::
  "('aw, 'sl, 'w) ext \<Rightarrow> Incoming \<Rightarrow> 'f session list \<Rightarrow> unit io_result \<Rightarrow> ('sl, 'w) sys \<Rightarrow>
     unit io_result poll outcome \<times> (server \<times> 'f session list \<times> ('sl, 'w) sys)" where
  "server_return E inc ss r s =
     (case drop_and_return E (incoming_inner inc) (Ready r) s of (q, s1) \<Rightarrow> (q, (Finished, ss, s1)))"

text \<open>
  The \<^verbatim>\<open>while let\<close> loop of one poll. \<open>ss\<close> are the tasks spawned so far, in order. The loop goes round as long as there
  are connections, so it carries fuel: one unit per connection accepted. A panic in \<^verbatim>\<open>main\<close> ends the process.
\<close>

fun accept_loop ::
  "('aw, 'sl, 'w) ext \<Rightarrow> alloc \<Rightarrow> 'w tcp_ops \<Rightarrow> ('f, 'w) app \<Rightarrow> task \<Rightarrow> nat \<Rightarrow> Incoming \<Rightarrow> 'f session list \<Rightarrow>
     ('sl, 'w) sys \<Rightarrow> unit io_result poll outcome \<times> (server \<times> 'f session list \<times> ('sl, 'w) sys)" where
  "accept_loop E al N A cx 0 inc ss s = (OutOfFuel, (Accepting inc, ss, s))"
| "accept_loop E al N A cx (Suc n) inc ss s = (case Incoming_poll_next E al N cx (inc, s) of
      (Ret Pending, (inc1, s1)) \<Rightarrow> (Ret Pending, (Accepting inc1, ss, s1))
    | (Ret (Ready None), (inc1, s1)) \<Rightarrow> server_return E inc1 ss (Inr ()) s1
    | (Ret (Ready (Some (Inl e))), (inc1, s1)) \<Rightarrow> server_return E inc1 ss (Inl e) s1
    | (Ret (Ready (Some (Inr stream))), (inc1, s1)) \<Rightarrow>
        (case TcpStream_peer_addr N (stream, s1) of
           (Ret (Inl e), (stream1, s2)) \<Rightarrow>
             (case PollEvented_drop E stream1 s2 of (_, s3) \<Rightarrow> server_return E inc1 ss (Inl e) s3)
         | (Ret (Inr addr), (stream1, s2)) \<Rightarrow>
             (case pool_spawn A (world s2) of
                (True, w) \<Rightarrow> accept_loop E al N A cx n inc1 (ss @ [Handed stream1 addr]) (s2\<lparr>world := w\<rparr>)
              | (False, w) \<Rightarrow> (Panic ''called `Result::unwrap()` on an `Err` value'', (Finished, ss, s2\<lparr>world := w\<rparr>)))
         | (Panic m, (stream1, s2)) \<Rightarrow> (Panic m, (Finished, ss, s2))
         | (OutOfFuel, (stream1, s2)) \<Rightarrow> (OutOfFuel, (Finished, ss, s2)))
    | (Panic m, (inc1, s1)) \<Rightarrow> (Panic m, (Finished, ss, s1))
    | (OutOfFuel, (inc1, s1)) \<Rightarrow> (OutOfFuel, (Finished, ss, s1)))"

definition echo_main_poll ::
  "('aw, 'sl, 'w) ext \<Rightarrow> alloc \<Rightarrow> 'w tcp_ops \<Rightarrow> ('f, 'w) app \<Rightarrow> nat \<Rightarrow> task \<Rightarrow>
     (server \<times> 'f session list \<times> ('sl, 'w) sys, unit io_result poll) op" where
  "echo_main_poll E al N A fuel cx = (\<lambda>(st, ss, s). case st of
      Starting \<Rightarrow>
        (case pool_new A (world s) of
           (Inl e, w) \<Rightarrow> (Ret (Ready (Inl e)), (Finished, ss, s\<lparr>world := w\<rparr>))
         | (Inr _, w) \<Rightarrow>
             (case TcpListener_bind N server_addr w of
                (Inl e, w1) \<Rightarrow> (Ret (Ready (Inl e)), (Finished, ss, s\<lparr>world := w1\<rparr>))
              | (Inr listener, w1) \<Rightarrow>
                  (case println A ''Listening on 127.0.0.1:7878'' (s\<lparr>world := w1\<rparr>) of
                     (Ret _, s1) \<Rightarrow> accept_loop E al N A cx fuel (TcpListener_incoming listener) ss s1
                   | (Panic m, s1) \<Rightarrow> (Panic m, (Finished, ss, s1))
                   | (OutOfFuel, s1) \<Rightarrow> (OutOfFuel, (Finished, ss, s1)))))
    | Accepting inc \<Rightarrow> accept_loop E al N A cx fuel inc ss s
    | Finished \<Rightarrow> (Panic ''`async fn` resumed after completion'', (Finished, ss, s)))"

text \<open>The two servers have the same \<^verbatim>\<open>main\<close>, up to the function the spawned block calls.\<close>

definition shakespeare_main_poll ::
  "('aw, 'sl, 'w) ext \<Rightarrow> alloc \<Rightarrow> 'w tcp_ops \<Rightarrow> ('f, 'w) app \<Rightarrow> nat \<Rightarrow> task \<Rightarrow>
     (server \<times> 'f session list \<times> ('sl, 'w) sys, unit io_result poll) op" where
  "shakespeare_main_poll E al N A fuel cx = echo_main_poll E al N A fuel cx"

section \<open>The client\<close>

datatype 'f client = Unconnected | Connecting ConnectFutureState | Copying "'f routine"

definition client_copy ::
  "('aw, 'sl, 'w) ext \<Rightarrow> alloc \<Rightarrow> 'w tcp_ops \<Rightarrow> ('f, 'w) app \<Rightarrow> nat \<Rightarrow> task \<Rightarrow> 'f \<Rightarrow> TcpStream \<Rightarrow> ('sl, 'w) sys \<Rightarrow>
     unit io_result poll outcome \<times> ('f client \<times> ('sl, 'w) sys)" where
  "client_copy E al N A fuel cx f stream s =
     (case await_last E (poll_future E al N (copy_stdout_next A) cx fuel) f stream s of (q, (rt, s1)) \<Rightarrow> (q, (Copying rt, s1)))"

definition client_connect ::
  "('aw, 'sl, 'w) ext \<Rightarrow> alloc \<Rightarrow> 'w tcp_ops \<Rightarrow> ('f, 'w) app \<Rightarrow> nat \<Rightarrow> task \<Rightarrow>
     (ConnectFutureState \<times> ('sl, 'w) sys) \<Rightarrow> unit io_result poll outcome \<times> ('f client \<times> ('sl, 'w) sys)" where
  "client_connect E al N A fuel cx x = (case TcpConnectFuture_poll E al N cx x of
      (Ret Pending, (st, s)) \<Rightarrow> (Ret Pending, (Connecting st, s))
    | (Ret (Ready (Inl e)), (st, s)) \<Rightarrow> (Ret (Ready (Inl e)), (Copying Returned, s))
    | (Ret (Ready (Inr stream)), (st, s)) \<Rightarrow> client_copy E al N A fuel cx (copy_stdout A) stream s
    | (Panic m, (st, s)) \<Rightarrow> (Panic m, (Copying Returned, s))
    | (OutOfFuel, (st, s)) \<Rightarrow> (OutOfFuel, (Copying Returned, s)))"

definition client_main_poll ::
  "('aw, 'sl, 'w) ext \<Rightarrow> alloc \<Rightarrow> 'w tcp_ops \<Rightarrow> ('f, 'w) app \<Rightarrow> nat \<Rightarrow> task \<Rightarrow>
     ('f client \<times> ('sl, 'w) sys, unit io_result poll) op" where
  "client_main_poll E al N A fuel cx = (\<lambda>(st, s). case st of
      Unconnected \<Rightarrow>
        (case TcpStream_connect N server_addr (world s) of
           (fut, w) \<Rightarrow> client_connect E al N A fuel cx (fut, s\<lparr>world := w\<rparr>))
    | Connecting fut \<Rightarrow> client_connect E al N A fuel cx (fut, s)
    | Copying (Suspended f stream) \<Rightarrow> client_copy E al N A fuel cx f stream s
    | Copying _ \<Rightarrow> (Panic ''`async fn` resumed after completion'', (st, s)))"

section \<open>The program\<close>

text \<open>What the programs rely on: \<^verbatim>\<open>choose\<close> picks an element of a slice that has one.\<close>

definition choose_ok :: "('f, 'w) app \<Rightarrow> bool" where
  "choose_ok A \<longleftrightarrow> (\<forall>n w. 0 < n \<longrightarrow> (\<exists>i<n. fst (rng_choose A n w) = Some i))"

text \<open>The sockets of a server and its tasks.\<close>

definition routine_sockets :: "'f routine \<Rightarrow> TcpStream list" where
  "routine_sockets rt = (case rt of Unresumed stream \<Rightarrow> [stream] | Suspended _ stream \<Rightarrow> [stream] | Returned \<Rightarrow> [])"

definition session_sockets :: "'f session \<Rightarrow> TcpStream list" where
  "session_sockets x = (case x of Handed stream _ \<Rightarrow> [stream] | Talking _ rt \<Rightarrow> routine_sockets rt | Over \<Rightarrow> [])"

definition server_sockets :: "server \<Rightarrow> TcpListener list" where
  "server_sockets st = (case st of Accepting inc \<Rightarrow> [incoming_inner inc] | _ \<Rightarrow> [])"

definition app_sockets :: "server \<times> 'f session list \<times> ('sl, 'w) sys \<Rightarrow> PollEvented list" where
  "app_sockets = (\<lambda>(st, ss, s). server_sockets st @ concat (map session_sockets ss))"

text \<open>
  A server at work: the block of \<^verbatim>\<open>main\<close> and the tasks are polled in any order, and reactors turn. A panic of \<^verbatim>\<open>main\<close>
  is the end of the process, a panic of a task is not. A poll that has used up its fuel goes on with a later step, so that
  others may come in between, as on several threads.
\<close>

inductive app_step ::
  "('aw, 'sl, 'w) ext \<Rightarrow> 'w tcp_ops \<Rightarrow> ('f, 'w) app \<Rightarrow>
     (alloc \<Rightarrow> nat \<Rightarrow> task \<Rightarrow> ('f session \<times> ('sl, 'w) sys, unit poll) op) \<Rightarrow>
     server \<times> 'f session list \<times> ('sl, 'w) sys \<Rightarrow> server \<times> 'f session list \<times> ('sl, 'w) sys \<Rightarrow> bool" for E N A sess where
  app_main: "st \<noteq> Finished \<Longrightarrow> fresh_addr s (new_arc al) \<Longrightarrow> echo_main_poll E al N A fuel cx (st, ss, s) = (q, y) \<Longrightarrow>
     (\<And>m. q \<noteq> Panic m) \<Longrightarrow> app_step E N A sess (st, ss, s) y"
| app_session: "x \<noteq> Over \<Longrightarrow> fresh_addr s (new_arc al) \<Longrightarrow> sess al fuel cx (x, s) = (q, (x', s')) \<Longrightarrow>
     app_step E N A sess (st, l @ x # r, s) (st, l @ x' # r, s')"
| app_turn: "inners s (r_inner rct) \<noteq> None \<Longrightarrow> Reactor_turn E max_wait (rct, s) = (q, (rct', s')) \<Longrightarrow>
     app_step E N A sess (st, ss, s) (st, ss, s')"

definition app_init :: "server \<times> 'f session list \<times> ('sl, 'w) sys \<Rightarrow> bool" where
  "app_init = (\<lambda>(st, ss, s). st = Starting \<and> ss = [] \<and> inners s = Map.empty \<and> HANDLE_FALLBACK s = 0 \<and> CURRENT_REACTOR s = None)"

text \<open>A line that the standard output would not take.\<close>

definition stdout_fails :: "('f, 'w) app \<Rightarrow> bool" where
  "stdout_fails A \<longleftrightarrow> (\<exists>line w. \<not> fst (stdout_write A line w))"

text \<open>A resource in its place in a program, ready for a call.\<close>

definition in_prog ::
  "('aw, 'sl, 'w) ext \<Rightarrow> alloc \<Rightarrow> PollEvented list \<Rightarrow> PollEvented list \<Rightarrow> ('sl, 'w) pst \<Rightarrow> bool" where
  "in_prog E al l r = (\<lambda>(pe, s). rt_wf E (l @ pe # r, s) \<and> (pe_fresh pe \<longrightarrow> fresh_addr s (new_arc al)))"

text \<open>What an \<^verbatim>\<open>async fn\<close> on a stream guarantees from poll to poll: it does not panic, and it has an end only when it says so.\<close>

definition going :: "unit io_result poll outcome \<Rightarrow> 'f routine \<Rightarrow> bool" where
  "going q rt = (case q of
      Ret Pending \<Rightarrow> (\<exists>f stream. rt = Suspended f stream)
    | Ret (Ready _) \<Rightarrow> rt = Returned
    | OutOfFuel \<Rightarrow> (\<exists>f stream. rt = Suspended f stream)
    | Panic _ \<Rightarrow> False)"

definition routine_ok ::
  "('aw, 'sl, 'w) ext \<Rightarrow> alloc \<Rightarrow> ('f routine \<times> ('sl, 'w) sys, unit io_result poll) op \<Rightarrow> bool" where
  "routine_ok E al body \<longleftrightarrow> (\<forall>l r s rt q rt' s'. rt_wf E (l @ routine_sockets rt @ r, s) \<and> rt \<noteq> Returned \<and>
     fresh_addr s (new_arc al) \<and> body (rt, s) = (q, (rt', s')) \<longrightarrow>
     going q rt' \<and> rt_wf E (l @ routine_sockets rt' @ r, s'))"

text \<open>
  The connections that polling a listener again and again yields, each with the address of its peer, as long as each
  has been accepted, has a peer and can be given to the pool; and the listener and the process after that.
\<close>

inductive yields ::
  "('aw, 'sl, 'w) ext \<Rightarrow> alloc \<Rightarrow> 'w tcp_ops \<Rightarrow> ('f, 'w) app \<Rightarrow> task \<Rightarrow> Incoming \<times> ('sl, 'w) sys \<Rightarrow>
     (TcpStream \<times> SocketAddr) list \<Rightarrow> Incoming \<times> ('sl, 'w) sys \<Rightarrow> bool" for E al N A cx where
  yields_none: "yields E al N A cx x [] x"
| yields_next: "Incoming_poll_next E al N cx x = (Ret (Ready (Some (Inr stream))), (inc, s1)) \<Longrightarrow>
     TcpStream_peer_addr N (stream, s1) = (Ret (Inr addr), (stream1, s2)) \<Longrightarrow> pool_spawn A (world s2) = (True, w) \<Longrightarrow>
     yields E al N A cx (inc, s2\<lparr>world := w\<rparr>) cs y \<Longrightarrow> yields E al N A cx x ((stream1, addr) # cs) y"

text \<open>
  What the loop of one poll achieves, \<open>ss\<close> being the tasks before it and \<open>x\<close> the listener and the process: the new tasks are
  exactly those of the connections \<open>cs\<close> that the listener yields, in their order, each with a stream that is not
  registered yet. The loop stops where the listener does: when it waits, the task is parked on the listener or has been
  woken; it ends with an error only; out of fuel it has spawned as many tasks as it went round; it panics only if a task
  cannot be spawned.
\<close>

definition accept_outcome ::
  "('aw, 'sl, 'w) ext \<Rightarrow> alloc \<Rightarrow> 'w tcp_ops \<Rightarrow> ('f, 'w) app \<Rightarrow> task \<Rightarrow> nat \<Rightarrow> 'f session list \<Rightarrow> Incoming \<times> ('sl, 'w) sys \<Rightarrow>
     unit io_result poll outcome \<Rightarrow> server \<times> 'f session list \<times> ('sl, 'w) sys \<Rightarrow> bool" where
  "accept_outcome E al N A cx fuel ss x q = (\<lambda>(st', ss', s'). \<exists>cs y. yields E al N A cx x cs y \<and>
     ss' = ss @ map (\<lambda>(stream, addr). Handed stream addr) cs \<and> (\<forall>(stream, addr) \<in> set cs. \<exists>f. stream = PollEvented_new f) \<and>
     (case q of
        Ret Pending \<Rightarrow> \<exists>inc. st' = Accepting inc \<and> Incoming_poll_next E al N cx y = (Ret Pending, (inc, s')) \<and>
          (pe_parked E Read cx (incoming_inner inc, s') \<or> (\<exists>ws. woken s' = ws @ [cx]))
      | Ret (Ready r) \<Rightarrow> st' = Finished \<and> (\<exists>e. r = Inl e)
      | OutOfFuel \<Rightarrow> st' = Accepting (fst y) \<and> s' = snd y \<and> length cs = fuel
      | Panic _ \<Rightarrow> \<exists>w. \<not> fst (pool_spawn A w)))"

text \<open>What the loop starts from: the listener of the poll before, or a new one, if everything up to there succeeds.\<close>

definition listening :: "'w tcp_ops \<Rightarrow> ('f, 'w) app \<Rightarrow> server \<Rightarrow> ('sl, 'w) sys \<Rightarrow> (Incoming \<times> ('sl, 'w) sys) option" where
  "listening N A st s = (case st of
      Starting \<Rightarrow>
        (case pool_new A (world s) of
           (Inl e, w) \<Rightarrow> None
         | (Inr _, w) \<Rightarrow>
             (case TcpListener_bind N server_addr w of
                (Inl e, w1) \<Rightarrow> None
              | (Inr listener, w1) \<Rightarrow>
                  (case println A ''Listening on 127.0.0.1:7878'' (s\<lparr>world := w1\<rparr>) of
                     (Ret _, s1) \<Rightarrow> Some (TcpListener_incoming listener, s1)
                   | _ \<Rightarrow> None)))
    | Accepting inc \<Rightarrow> Some (inc, s)
    | Finished \<Rightarrow> None)"

definition main_outcome ::
  "('aw, 'sl, 'w) ext \<Rightarrow> alloc \<Rightarrow> 'w tcp_ops \<Rightarrow> ('f, 'w) app \<Rightarrow> task \<Rightarrow> nat \<Rightarrow> server \<times> 'f session list \<times> ('sl, 'w) sys \<Rightarrow>
     unit io_result poll outcome \<Rightarrow> server \<times> 'f session list \<times> ('sl, 'w) sys \<Rightarrow> bool" where
  "main_outcome E al N A cx fuel = (\<lambda>(st, ss, s) q y. case listening N A st s of
      Some x \<Rightarrow> accept_outcome E al N A cx fuel ss x q y
    | None \<Rightarrow> fst y = Finished \<and> fst (snd y) = ss \<and> ((\<exists>e. q = Ret (Ready (Inl e))) \<or> (\<exists>m. q = Panic m) \<and> stdout_fails A))"

text \<open>What a poll of a task achieves: the program stays well-formed, and the task panics for the stated reasons only.\<close>

definition session_outcome ::
  "('aw, 'sl, 'w) ext \<Rightarrow> ('f, 'w) app \<Rightarrow> TcpStream list \<Rightarrow> TcpStream list \<Rightarrow> unit poll outcome \<Rightarrow> 'f session \<Rightarrow> ('sl, 'w) sys \<Rightarrow> bool" where
  "session_outcome E A l r q x' s' \<longleftrightarrow> rt_wf E (l @ session_sockets x' @ r, s') \<and> (\<forall>a. x' \<noteq> Talking a Returned) \<and>
    (q = OutOfFuel \<longrightarrow> (\<exists>a f stream. x' = Talking a (Suspended f stream))) \<and>
    (\<forall>m. q = Panic m \<longrightarrow> m = ''called `Result::unwrap()` on an `Err` value'' \<or> stdout_fails A)"

definition app_inv :: "('aw, 'sl, 'w) ext \<Rightarrow> server \<times> 'f session list \<times> ('sl, 'w) sys \<Rightarrow> bool" where
  "app_inv E x \<longleftrightarrow> rt_wf E (app_sockets x, snd (snd x)) \<and> (\<forall>y \<in> set (fst (snd x)). \<forall>a. y \<noteq> Talking a Returned)"

text \<open>The tasks poll a well-behaved \<^verbatim>\<open>async fn\<close>.\<close>

definition sessions_ok ::
  "('aw, 'sl, 'w) ext \<Rightarrow> ('f, 'w) app \<Rightarrow> (alloc \<Rightarrow> nat \<Rightarrow> task \<Rightarrow> ('f session \<times> ('sl, 'w) sys, unit poll) op) \<Rightarrow> bool" where
  "sessions_ok E A sess \<longleftrightarrow> (\<forall>al fuel cx. \<exists>body. routine_ok E al body \<and> sess al fuel cx = session_poll E A body)"

definition client_sockets :: "'f client \<Rightarrow> TcpStream list" where
  "client_sockets c = (case c of
      Unconnected \<Rightarrow> []
    | Connecting (Waiting stream) \<Rightarrow> [stream]
    | Connecting _ \<Rightarrow> []
    | Copying rt \<Rightarrow> routine_sockets rt)"

text \<open>
  An instance. \<open>Copy rest eof amt\<close> is a copying future with the bytes it has read and not written yet, whether it has seen
  the end of the input, and how much it has written; it writes while it has something, flushes at the end of the
  input and returns how much it has copied, and reads otherwise. \<open>Write_all rest\<close> writes until nothing is left. Both
  fail when a write takes nothing. \<open>Stop v f\<close> is about to return \<open>v\<close>.
\<close>

datatype std_future = Copy "byte list" bool usize | Write_all "byte list" | Stop "usize io_result poll" std_future

definition ready_or_stop :: "('a \<Rightarrow> std_future) \<Rightarrow> std_future \<Rightarrow> 'a io_result poll \<Rightarrow> std_future" where
  "ready_or_stop k f r = (case r of Pending \<Rightarrow> Stop Pending f | Ready (Inl e) \<Rightarrow> Stop (Ready (Inl e)) f | Ready (Inr v) \<Rightarrow> k v)"

definition written :: "(usize \<Rightarrow> std_future) \<Rightarrow> std_future \<Rightarrow> usize io_result poll \<Rightarrow> std_future" where
  "written k f = ready_or_stop (\<lambda>n. if n = 0 then Stop (Ready (Inl (IoError Other ''write zero''))) f else k n) f"

fun std_next :: "(byte list \<Rightarrow> (usize io_result poll \<Rightarrow> std_future) \<Rightarrow> (std_future, usize io_result poll, nat) request) \<Rightarrow>
    std_future \<Rightarrow> (std_future, usize io_result poll, nat) request" where
  "std_next put (Copy rest eof amt) =
     (if rest \<noteq> [] then put rest (written (\<lambda>n. Copy (drop (unat n) rest) eof (amt + n)) (Copy rest eof amt))
      else if eof then Poll_flush (ready_or_stop (\<lambda>_. Stop (Ready (Inr amt)) (Copy rest eof amt)) (Copy rest eof amt))
      else Poll_read (replicate 2048 0) (ready_or_stop (\<lambda>(n, buf). Copy (take (unat n) buf) (n = 0) amt) (Copy rest eof amt)))"
| "std_next put (Write_all rest) =
     (if rest \<noteq> [] then put rest (written (\<lambda>n. Write_all (drop (unat n) rest)) (Write_all rest))
      else Return (Ready (Inr 0)) (Write_all rest))"
| "std_next put (Stop v f) = Return v f"

definition to_stdout ::
  "byte list \<Rightarrow> (usize io_result poll \<Rightarrow> std_future) \<Rightarrow> (std_future, usize io_result poll, nat) request" where
  "to_stdout rest k = Elsewhere (\<lambda>w. (k (Ready (Inr (of_nat (length rest)))), w))"

definition unit_poll :: "usize io_result poll \<Rightarrow> unit io_result poll" where
  "unit_poll = map_poll (map_sum id (\<lambda>_. ()))"

definition std_app :: "(std_future, nat) app" where
  "std_app = \<lparr>pool_new = (\<lambda>w. (Inr (), w)), pool_spawn = (\<lambda>w. (True, w)),
     copy_into = Copy [] False 0, copy_next = std_next Poll_write,
     copy_stdout = Copy [] False 0, copy_stdout_next = std_next to_stdout,
     write_all = Write_all, write_all_next = (\<lambda>f. map_request id unit_poll (std_next Poll_write f)),
     rng_choose = (\<lambda>n w. (if n = 0 then None else Some 0, w)), stdout_write = (\<lambda>l w. (True, w)), addr_fmt = (\<lambda>a. ''peer'')\<rparr>"

section \<open>One poll of a task\<close>

lemma in_prog_ctx: "in_prog E al l r (pe, s) \<Longrightarrow> in_ctx E al l r (ctx_of E pe s) (pe, s)"
  by (simp add: in_prog_def in_ctx_of)

lemma in_ctx_prog: "in_ctx E al l r G x \<Longrightarrow> in_prog E al l r x"
  by (auto simp: in_prog_def in_ctx_def split: prod.splits)

lemma total_poll_future:
  assumes "ext_ok E"
  shows "total_on (in_ctx E al l r G) (poll_future E al N step cx n f)"
proof (induction n arbitrary: f)
  case (Suc n)
  show ?case
    by (cases "step f") (auto simp: TcpStream_poll_read_def PollEvented_poll_read_def TcpStream_poll_write_def
        PollEvented_poll_write_def TcpStream_poll_flush_def PollEvented_poll_flush_def intro!: total_intros assms Suc.IH)
qed (simp add: total_ret)

lemma await_last_wf:
  assumes "ext_ok E" and "in_ctx E al l r G (stream, s)"
    and "await_last E (poll_future E al N step cx n) f stream s = (q, (rt, s'))"
  shows "going q rt \<and> rt_wf E (l @ routine_sockets rt @ r, s')"
proof -
  from total_onE [OF total_poll_future [OF assms(1), where step = step] assms(2)] obtain v y where
    y: "poll_future E al N step cx n f (stream, s) = (Ret v, y)" "in_ctx E al l r G y" by blast
  obtain p f1 stream1 s1 where v: "v = (p, f1)" "y = (stream1, s1)" by (metis prod.exhaust)
  have ctx: "in_ctx E al l r G (stream1, s1)" using y(2) v(2) by simp
  then have wf: "rt_wf E (l @ stream1 # r, s1)" by (simp add: in_ctx_def)
  consider "p = None" | "p = Some Pending" | res where "p = Some (Ready res)" by (metis option.exhaust poll.exhaust)
  then show ?thesis
  proof cases
    case (3 res)
    obtain s2 where "drop_and_return E stream1 (Ready (map_sum id (\<lambda>_. ()) res)) s1 = (Ret (Ready (map_sum id (\<lambda>_. ()) res)), s2)"
      "rt_wf E (l @ r, s2)" by (rule drop_in_ctx [OF assms(1) ctx])
    with assms(3) y(1) v 3 show ?thesis by (auto simp: await_last_def routine_sockets_def going_def)
  qed (use assms(3) y(1) v wf in \<open>auto simp: await_last_def routine_sockets_def going_def\<close>)
qed

lemma println_world:
  obtains (ok) w where "println A line s = (Ret (), s\<lparr>world := w\<rparr>)"
    | (failed) m w where "println A line s = (Panic m, s\<lparr>world := w\<rparr>)" "stdout_fails A"
proof (cases "stdout_write A (line @ [CHR 0x0A]) (world s)")
  case (Pair b w)
  then have "\<not> b \<Longrightarrow> stdout_fails A" unfolding stdout_fails_def by (metis fst_conv)
  with Pair show thesis using ok failed by (cases b) (simp_all add: println_def)
qed

lemma await_routine:
  assumes "ext_ok E" and "rt_wf E (l @ stream # r, s)" and "fresh_addr s (new_arc al)"
    and "await_last E (poll_future E al N step cx n) f stream s = (q, (rt, s'))"
  shows "going q rt \<and> rt_wf E (l @ routine_sockets rt @ r, s')"
  by (rule await_last_wf [OF assms(1) in_ctx_others [OF assms(2,3)] assms(4)])

lemma echo_on_ok: "ext_ok E \<Longrightarrow> routine_ok E al (echo_on_poll E al N A fuel cx)"
  unfolding routine_ok_def
  by (auto simp: echo_on_poll_def routine_sockets_def [of "Unresumed _"] routine_sockets_def [of "Suspended _ _"]
      split: routine.splits dest: await_routine)

lemma recite_ok:
  assumes "ext_ok E" and "choose_ok A"
  shows "routine_ok E al (recite_shakespeare_poll E al N A fuel cx)"
proof -
  have "0 < length SHAKESPEARE" by (simp add: SHAKESPEARE_def)
  then have "\<exists>i. fst (rng_choose A (length SHAKESPEARE) w) = Some i" for w using assms(2) unfolding choose_ok_def by blast
  then have pick: "\<exists>i w'. rng_choose A (length SHAKESPEARE) w = (Some i, w')" for w by (metis prod.collapse)
  have "going q rt' \<and> rt_wf E (l @ routine_sockets rt' @ r, s')"
    if "rt_wf E (l @ routine_sockets rt @ r, s)" "rt \<noteq> Returned" "fresh_addr s (new_arc al)"
      "recite_shakespeare_poll E al N A fuel cx (rt, s) = (q, (rt', s'))" for l r s rt q rt' s'
  proof (cases rt)
    case (Unresumed stream)
    obtain i w where "rng_choose A (length SHAKESPEARE) (world s) = (Some i, w)" using pick by blast
    with that Unresumed have "await_last E (poll_future E al N (write_all_next A) cx fuel) (write_all A (SHAKESPEARE ! i)) stream
        (s\<lparr>world := w\<rparr>) = (q, (rt', s'))" by (simp add: recite_shakespeare_poll_def)
    moreover have "rt_wf E (l @ stream # r, s\<lparr>world := w\<rparr>)" "fresh_addr (s\<lparr>world := w\<rparr>) (new_arc al)"
      using that Unresumed by (simp_all add: routine_sockets_def)
    ultimately show ?thesis by (intro await_routine [OF assms(1)])
  next
    case (Suspended f stream)
    then have "rt_wf E (l @ stream # r, s)" using that(1) by (simp add: routine_sockets_def)
    from await_routine [OF assms(1) this that(3)] Suspended that(4) show ?thesis by (simp add: recite_shakespeare_poll_def)
  qed (use that in simp)
  then show ?thesis unfolding routine_ok_def by blast
qed

lemma session_talk_wf:
  assumes "routine_ok E al body" and "rt_wf E (l @ routine_sockets rt @ r, s)" and "rt \<noteq> Returned"
    and "fresh_addr s (new_arc al)" and "session_talk A body addr (rt, s) = (q, (x', s'))"
  shows "session_outcome E A l r q x' s'"
proof -
  obtain q1 rt1 s1 where b: "body (rt, s) = (q1, (rt1, s1))" by (metis prod.exhaust)
  with assms(1-4) have v: "going q1 rt1" "rt_wf E (l @ routine_sockets rt1 @ r, s1)" unfolding routine_ok_def by blast+
  consider (on) f stream where "q1 = Ret Pending \<or> q1 = OutOfFuel" "rt1 = Suspended f stream"
    | (finished) res where "q1 = Ret (Ready res)" "rt1 = Returned"
    using v(1) by (auto simp: going_def split: outcome.splits poll.splits)
  then show ?thesis
  proof cases
    case on
    with assms(5) b v(2) show ?thesis by (auto simp: session_talk_def session_sockets_def session_outcome_def)
  next
    case (finished res)
    then have wf: "rt_wf E (l @ r, s1)" using v(2) by (simp add: routine_sockets_def)
    show ?thesis
    proof (cases res)
      case (Inl e)
      with assms(5) b finished wf show ?thesis by (auto simp: session_talk_def session_sockets_def session_outcome_def)
    next
      case (Inr u)
      show ?thesis
        by (rule println_world [of A "''Closing stream from: '' @ addr_fmt A addr" s1])
          (use assms(5) b finished Inr wf in \<open>auto simp: session_talk_def session_sockets_def session_outcome_def bnd_def\<close>)
    qed
  qed
qed

lemma session_poll_wf:
  assumes "ext_ok E" and "routine_ok E al body" and "rt_wf E (l @ session_sockets x @ r, s)" and "x \<noteq> Over"
    and "\<And>a. x \<noteq> Talking a Returned" and "fresh_addr s (new_arc al)" and "session_poll E A body (x, s) = (q, (x', s'))"
  shows "session_outcome E A l r q x' s'"
proof (cases x)
  case (Handed stream addr)
  then have wf: "rt_wf E (l @ stream # r, s)" using assms(3) by (simp add: session_sockets_def)
  show ?thesis
  proof (rule println_world [of A "''Accepting stream from: '' @ addr_fmt A addr" s])
    fix w
    assume p: "println A (''Accepting stream from: '' @ addr_fmt A addr) s = (Ret (), s\<lparr>world := w\<rparr>)"
    with assms(7) Handed have "session_talk A body addr (Unresumed stream, s\<lparr>world := w\<rparr>) = (q, (x', s'))"
      by (simp add: session_poll_def)
    with wf assms(6) show ?thesis by (intro session_talk_wf [OF assms(2)]) (simp_all add: routine_sockets_def)
  next
    fix m w
    assume p: "println A (''Accepting stream from: '' @ addr_fmt A addr) s = (Panic m, s\<lparr>world := w\<rparr>)" "stdout_fails A"
    have "rt_wf E (l @ stream # r, s\<lparr>world := w\<rparr>)" using wf by simp
    then obtain s2 where "PollEvented_drop E stream (s\<lparr>world := w\<rparr>) = (Ret (), s2)" "rt_wf E (l @ r, s2)"
      by (rule drop_wf [OF assms(1)])
    with assms(7) Handed p show ?thesis by (auto simp: session_poll_def session_sockets_def session_outcome_def)
  qed
next
  case (Talking addr rt)
  with assms(3,5-7) show ?thesis
    by (intro session_talk_wf [OF assms(2)]) (auto simp: session_poll_def session_sockets_def)
qed (use assms(4) in simp)

section \<open>One poll of the server\<close>

text \<open>Accepting in a program: as for a listener that is registered, but also the first time.\<close>

lemma accept_in_ctx:
  assumes "ext_ok E" and "in_ctx E al l r G (pe, s)"
  obtains q pe' s' where "TcpListener_poll_ready E al N cx (pe, s) = (Ret q, (pe', s'))" "in_ctx E al l r G (pe', s')"
    "q = Pending \<longrightarrow> pe_parked E Read cx (pe', s') \<or> (\<exists>ws. woken s' = ws @ [cx])"
    "\<forall>io a. q = Ready (Inr (io, a)) \<longrightarrow> (\<exists>f. io = PollEvented_new f)"
proof -
  have "total_on (in_ctx E al l r G) (TcpListener_poll_ready E al N cx)"
    unfolding TcpListener_poll_ready_def TcpListener_poll_accept_std_def attempt_match_eq
    by (auto split: prod.split intro!: total_intros assms(1))
  from total_onE [OF this assms(2)] obtain q y where "TcpListener_poll_ready E al N cx (pe, s) = (Ret q, y)" "in_ctx E al l r G y"
    by blast
  moreover obtain pe' s' where "y = (pe', s')" by fastforce
  ultimately have q: "TcpListener_poll_ready E al N cx (pe, s) = (Ret q, (pe', s'))" "in_ctx E al l r G (pe', s')" by simp_all
  show thesis
  proof (rule that [OF q])
    show "\<forall>io a. q = Ready (Inr (io, a)) \<longrightarrow> (\<exists>f. io = PollEvented_new f)"
      using q(1) unfolding TcpListener_poll_ready_def
      by (auto simp: try_pollio_def TcpStream_new_def elim!: ready_try_RetE bnd_RetE split: sum.splits prod.splits)
    show "q = Pending \<longrightarrow> pe_parked E Read cx (pe', s') \<or> (\<exists>ws. woken s' = ws @ [cx])"
      using assms
    proof (cases rule: register_in_ctx)
      case (err e x1)
      then show ?thesis
        using q(1) by (auto simp: TcpListener_poll_ready_def TcpListener_poll_accept_std_def attempt_match_def
            poll_read_ready_eq op_simps)
    next
      case (ok x1)
      then have "poll_read_ready E al cx (pe, s) = poll_read_ready E al cx x1"
        using register_noop [OF ok(3), of al] by (simp add: poll_read_ready_eq op_simps)
      then have "TcpListener_poll_ready E al N cx (pe, s) = TcpListener_poll_ready E al N cx x1"
        by (simp add: TcpListener_poll_ready_def TcpListener_poll_accept_std_def attempt_match_def ready_try_def bnd_def)
      with accept_ok [OF ok(3), of al N cx] q(1) show ?thesis by auto
    qed
  qed
qed

lemma accept_outcome_here:
  assumes "case q of
      Ret Pending \<Rightarrow> \<exists>inc. st' = Accepting inc \<and> Incoming_poll_next E al N cx x = (Ret Pending, (inc, s')) \<and>
        (pe_parked E Read cx (incoming_inner inc, s') \<or> (\<exists>ws. woken s' = ws @ [cx]))
    | Ret (Ready r) \<Rightarrow> st' = Finished \<and> (\<exists>e. r = Inl e)
    | OutOfFuel \<Rightarrow> st' = Accepting (fst x) \<and> s' = snd x \<and> n = 0
    | Panic _ \<Rightarrow> \<exists>w. \<not> fst (pool_spawn A w)"
  shows "accept_outcome E al N A cx n ss x q (st', ss, s')"
  using assms unfolding accept_outcome_def prod.case
  by (intro exI [of _ "[]"] exI [of _ x] conjI yields_none) (auto split: outcome.splits poll.splits)

lemma accept_outcome_next:
  assumes "Incoming_poll_next E al N cx x = (Ret (Ready (Some (Inr (PollEvented_new f)))), (inc, s1))"
    and "TcpStream_peer_addr N (PollEvented_new f, s1) = (Ret (Inr a), (PollEvented_new f, s2))" and "pool_spawn A (world s2) = (True, w)"
    and "accept_outcome E al N A cx n (ss @ [Handed (PollEvented_new f) a]) (inc, s2\<lparr>world := w\<rparr>) q y"
  shows "accept_outcome E al N A cx (Suc n) ss x q y"
proof -
  obtain st ss' s' where y: "y = (st, ss', s')" by (metis prod.exhaust)
  from assms(4) obtain cs z where cs: "yields E al N A cx (inc, s2\<lparr>world := w\<rparr>) cs z"
    "ss' = ss @ Handed (PollEvented_new f) a # map (\<lambda>(stream, addr). Handed stream addr) cs"
    "\<forall>(stream, addr) \<in> set cs. \<exists>f. stream = PollEvented_new f"
    "case q of
        Ret Pending \<Rightarrow> \<exists>inc. st = Accepting inc \<and> Incoming_poll_next E al N cx z = (Ret Pending, (inc, s')) \<and>
          (pe_parked E Read cx (incoming_inner inc, s') \<or> (\<exists>ws. woken s' = ws @ [cx]))
      | Ret (Ready r) \<Rightarrow> st = Finished \<and> (\<exists>e. r = Inl e)
      | OutOfFuel \<Rightarrow> st = Accepting (fst z) \<and> s' = snd z \<and> length cs = n
      | Panic _ \<Rightarrow> \<exists>w. \<not> fst (pool_spawn A w)"
    unfolding accept_outcome_def y prod.case by auto
  from yields_next [OF assms(1-3) cs(1)] cs(2-4) show ?thesis
    unfolding accept_outcome_def y prod.case
    by (intro exI [of _ "(PollEvented_new f, a) # cs"] exI [of _ z] conjI) (auto split: outcome.splits poll.splits)
qed

lemma rt_wf_insert: "rt_wf E (l @ r, s) \<Longrightarrow> rt_wf E (l @ PollEvented_new io # r, s)"
  using rt_wf_open [of E "l @ r" s io "world s"] by (rule_tac rt_wf_fewer [of E "PollEvented_new io # l @ r"]) auto

lemma in_prog_insert:
  "in_prog E al [] ps (pe, s) \<Longrightarrow> in_prog E al [] (ps @ [PollEvented_new io]) (pe, s\<lparr>world := w\<rparr>)"
  using rt_wf_insert [of E "pe # ps" "[]" s io] by (simp add: in_prog_def)

lemma in_prog_new:
  "rt_wf E (ps, s) \<Longrightarrow> fresh_addr s (new_arc al) \<Longrightarrow> in_prog E al [] ps (PollEvented_new f, s\<lparr>world := w\<rparr>)"
  using rt_wf_open [of E ps s f w] by (simp add: in_prog_def)

lemma server_return_ok:
  assumes "ext_ok E" and "in_prog E al [] (concat (map session_sockets ss)) (incoming_inner inc, s)"
    and "server_return E inc ss (Inl e) s = (q, y)"
  shows "accept_outcome E al N A cx n ss x q y \<and> rt_wf E (app_sockets y, snd (snd y))"
proof -
  obtain s1 where "drop_and_return E (incoming_inner inc) (Ready (Inl e) :: unit io_result poll) s = (Ret (Ready (Inl e)), s1)"
    "rt_wf E ([] @ concat (map session_sockets ss), s1)" by (rule drop_in_ctx [OF assms(1) in_prog_ctx [OF assms(2)]])
  with assms(3) show ?thesis
    by (auto simp: server_return_def app_sockets_def server_sockets_def intro!: accept_outcome_here)
qed

text \<open>One pass of the loop, once a connection has been accepted, and in general.\<close>

lemma connection_pass:
  assumes "Incoming_poll_next E al N cx (inc, s) = (Ret (Ready (Some (Inr (PollEvented_new f)))), (inc1, s1))"
    and "in_prog E al [] (concat (map session_sockets ss)) (incoming_inner inc1, s1)"
  obtains (ended) e s2 where "\<And>n. accept_loop E al N A cx (Suc n) inc ss s = server_return E inc1 ss (Inl e) s2"
      "in_prog E al [] (concat (map session_sockets ss)) (incoming_inner inc1, s2)"
    | (unspawned) m s2 w where "\<And>n. accept_loop E al N A cx (Suc n) inc ss s = (Panic m, (Finished, ss, s2))"
      "\<not> fst (pool_spawn A w)"
    | (served) a s2 where "\<And>n. accept_loop E al N A cx (Suc n) inc ss s =
        accept_loop E al N A cx n inc1 (ss @ [Handed (PollEvented_new f) a]) s2"
      "in_prog E al [] (concat (map session_sockets (ss @ [Handed (PollEvented_new f) a]))) (incoming_inner inc1, s2)"
      "\<And>n q y. accept_outcome E al N A cx n (ss @ [Handed (PollEvented_new f) a]) (inc1, s2) q y \<Longrightarrow>
        accept_outcome E al N A cx (Suc n) ss (inc, s) q y"
proof -
  obtain r w where "ts_peer_addr N f (world s1) = (r, w)" by fastforce
  then have peer: "TcpStream_peer_addr N (PollEvented_new f, s1) = (Ret r, (PollEvented_new f, s1\<lparr>world := w\<rparr>))"
    by (simp add: TcpStream_peer_addr_def sys_ref_def PollEvented_get_ref_def PollEvented_new_def)
  show thesis
  proof (cases r)
    case (Inl e)
    have "PollEvented_drop E (PollEvented_new f) (s1\<lparr>world := w\<rparr>) = (Ret (), s1\<lparr>world := w\<rparr>)"
      by (rule drop_fresh) (simp add: pe_fresh_def PollEvented_new_def)
    with assms(1) peer Inl have "\<And>n. accept_loop E al N A cx (Suc n) inc ss s = server_return E inc1 ss (Inl e) (s1\<lparr>world := w\<rparr>)"
      by simp
    then show thesis by (rule ended) (use assms(2) in \<open>simp add: in_prog_def\<close>)
  next
    case (Inr a)
    obtain b w2 where sp: "pool_spawn A w = (b, w2)" by fastforce
    show thesis
    proof (cases b)
      case False
      with assms(1) peer Inr sp show thesis by (intro unspawned [of _ "s1\<lparr>world := w2\<rparr>" w]) simp_all
    next
      case True
      have one: "accept_outcome E al N A cx (Suc n) ss (inc, s) q y"
        if "accept_outcome E al N A cx n (ss @ [Handed (PollEvented_new f) a]) (inc1, s1\<lparr>world := w2\<rparr>) q y" for n q y
        by (rule accept_outcome_next [OF assms(1) peer [unfolded Inr]]) (use sp True that in simp_all)
      have "\<And>n. accept_loop E al N A cx (Suc n) inc ss s =
          accept_loop E al N A cx n inc1 (ss @ [Handed (PollEvented_new f) a]) (s1\<lparr>world := w2\<rparr>)"
        using assms(1) peer Inr sp True by simp
      then show thesis by (rule served) (use in_prog_insert [OF assms(2)] one in \<open>simp_all add: session_sockets_def\<close>)
    qed
  qed
qed

lemma accept_pass:
  assumes "ext_ok E" and "in_prog E al [] (concat (map session_sockets ss)) (incoming_inner inc, s)"
  obtains (waiting) inc1 s1 where "\<And>n. accept_loop E al N A cx (Suc n) inc ss s = (Ret Pending, (Accepting inc1, ss, s1))"
      "in_prog E al [] (concat (map session_sockets ss)) (incoming_inner inc1, s1)"
      "Incoming_poll_next E al N cx (inc, s) = (Ret Pending, (inc1, s1))"
      "pe_parked E Read cx (incoming_inner inc1, s1) \<or> (\<exists>ws. woken s1 = ws @ [cx])"
    | (ended) e inc1 s1 where "\<And>n. accept_loop E al N A cx (Suc n) inc ss s = server_return E inc1 ss (Inl e) s1"
      "in_prog E al [] (concat (map session_sockets ss)) (incoming_inner inc1, s1)"
    | (unspawned) m s1 w where "\<And>n. accept_loop E al N A cx (Suc n) inc ss s = (Panic m, (Finished, ss, s1))"
      "\<not> fst (pool_spawn A w)"
    | (served) f a inc1 s1 where "\<And>n. accept_loop E al N A cx (Suc n) inc ss s =
        accept_loop E al N A cx n inc1 (ss @ [Handed (PollEvented_new f) a]) s1"
      "in_prog E al [] (concat (map session_sockets (ss @ [Handed (PollEvented_new f) a]))) (incoming_inner inc1, s1)"
      "\<And>n q y. accept_outcome E al N A cx n (ss @ [Handed (PollEvented_new f) a]) (inc1, s1) q y \<Longrightarrow>
        accept_outcome E al N A cx (Suc n) ss (inc, s) q y"
proof -
  obtain p l1 s1 where p: "TcpListener_poll_ready E al N cx (incoming_inner inc, s) = (Ret p, (l1, s1))"
    "in_ctx E al [] (concat (map session_sockets ss)) (ctx_of E (incoming_inner inc) s) (l1, s1)"
    "p = Pending \<longrightarrow> pe_parked E Read cx (l1, s1) \<or> (\<exists>ws. woken s1 = ws @ [cx])"
    "\<forall>io a. p = Ready (Inr (io, a)) \<longrightarrow> (\<exists>f. io = PollEvented_new f)"
    by (rule accept_in_ctx [OF assms(1) in_prog_ctx [OF assms(2)]])
  let ?inc = "inc\<lparr>incoming_inner := l1\<rparr>"
  have ctx: "in_prog E al [] (concat (map session_sockets ss)) (incoming_inner ?inc, s1)" using in_ctx_prog [OF p(2)] by simp
  consider "p = Pending" | e where "p = Ready (Inl e)" | f a where "p = Ready (Inr (PollEvented_new f, a))"
    using p(4) by (metis poll.exhaust sum.exhaust prod.exhaust)
  then show thesis
  proof cases
    case 1
    with p ctx show thesis by (intro waiting [of ?inc s1]) (simp_all add: Incoming_poll_next_def)
  next
    case (2 e)
    with p ctx show thesis by (intro ended [of ?inc e s1]) (simp_all add: Incoming_poll_next_def)
  next
    case (3 f a)
    then have "Incoming_poll_next E al N cx (inc, s) = (Ret (Ready (Some (Inr (PollEvented_new f)))), (?inc, s1))"
      using p(1) by (simp add: Incoming_poll_next_def)
    from this ctx show thesis by (rule connection_pass [where A = A]) (fact ended unspawned served)+
  qed
qed

lemma accept_loop_ok:
  assumes "ext_ok E" and "in_prog E al [] (concat (map session_sockets ss)) (incoming_inner inc, s)"
    and "accept_loop E al N A cx n inc ss s = (q, y)"
  shows "accept_outcome E al N A cx n ss (inc, s) q y \<and> ((\<forall>m. q \<noteq> Panic m) \<longrightarrow> rt_wf E (app_sockets y, snd (snd y)))"
  using assms(2,3)
proof (induction n arbitrary: inc ss s)
  case 0
  then show ?case
    by (auto simp: app_sockets_def server_sockets_def in_prog_def intro!: accept_outcome_here)
next
  case (Suc n)
  from assms(1) Suc.prems(1) show ?case
  proof (cases rule: accept_pass [where N = N and A = A and cx = cx])
    case (waiting inc1 s1)
    with Suc.prems(2) show ?thesis
      by (auto simp: app_sockets_def server_sockets_def in_prog_def intro!: accept_outcome_here simp del: accept_loop.simps)
  next
    case (ended e inc1 s1)
    with server_return_ok [OF assms(1) ended(2)] Suc.prems(2) show ?thesis by simp
  next
    case (unspawned m s1 w)
    with Suc.prems(2) show ?thesis by (auto intro!: accept_outcome_here simp del: accept_loop.simps)
  next
    case (served f a inc1 s1)
    with Suc.IH [OF served(2)] Suc.prems(2) show ?thesis by metis
  qed
qed

text \<open>The loop starts with a listener that has its place in the program; without one \<^verbatim>\<open>main\<close> is over.\<close>

lemma main_poll_listening:
  assumes "listening N A st s = Some (inc, s1)"
  shows "echo_main_poll E al N A fuel cx (st, ss, s) = accept_loop E al N A cx fuel inc ss s1"
  using assms
  by (cases st) (auto simp: listening_def echo_main_poll_def split: prod.splits sum.splits outcome.splits)

lemma listening_in_prog:
  assumes "rt_wf E (app_sockets (st, ss, s), s)" and "fresh_addr s (new_arc al)" and "listening N A st s = Some (inc, s1)"
  shows "in_prog E al [] (concat (map session_sockets ss)) (incoming_inner inc, s1)"
proof (cases st)
  case Accepting
  with assms show ?thesis by (simp add: listening_def in_prog_def app_sockets_def server_sockets_def)
next
  case Starting
  then have wf: "rt_wf E (concat (map session_sockets ss), s)" using assms(1) by (simp add: app_sockets_def server_sockets_def)
  from assms(3) Starting obtain f w where "incoming_inner inc = PollEvented_new f" "s1 = s\<lparr>world := w\<rparr>"
    by (auto simp: listening_def println_def TcpListener_bind_def TcpListener_new_def TcpListener_incoming_def
        split: prod.splits sum.splits outcome.splits bool.splits)
  with in_prog_new [OF wf assms(2)] show ?thesis by simp
qed (use assms(3) in \<open>simp add: listening_def\<close>)

lemma main_poll_not_listening:
  assumes "rt_wf E (app_sockets (st, ss, s), s)" and "st \<noteq> Finished" and "listening N A st s = None"
    and "echo_main_poll E al N A fuel cx (st, ss, s) = (q, y)"
  shows "fst y = Finished \<and> fst (snd y) = ss \<and> ((\<exists>e. q = Ret (Ready (Inl e))) \<or> (\<exists>m. q = Panic m) \<and> stdout_fails A)"
    and "rt_wf E (app_sockets y, snd (snd y))"
proof -
  have st: "st = Starting" using assms(2,3) by (cases st) (simp_all add: listening_def)
  have wf: "rt_wf E (concat (map session_sockets ss), s)" using assms(1) by (simp add: st app_sockets_def server_sockets_def)
  obtain r w where r: "pool_new A (world s) = (r, w)" by fastforce
  obtain r1 w1 where r1: "TcpListener_bind N server_addr w = (r1, w1)" by fastforce
  have "fst y = Finished \<and> fst (snd y) = ss \<and> (\<exists>w. snd (snd y) = s\<lparr>world := w\<rparr>) \<and>
      ((\<exists>e. q = Ret (Ready (Inl e))) \<or> (\<exists>m. q = Panic m) \<and> stdout_fails A)"
  proof (rule println_world [of A "''Listening on 127.0.0.1:7878''" "s\<lparr>world := w1\<rparr>"])
    fix w2
    assume "println A ''Listening on 127.0.0.1:7878'' (s\<lparr>world := w1\<rparr>) = (Ret (), s\<lparr>world := w1, world := w2\<rparr>)"
    with assms(3,4) st r r1 show ?thesis
      by (cases r; cases r1) (auto simp: listening_def echo_main_poll_def)
  next
    fix m w2
    assume "println A ''Listening on 127.0.0.1:7878'' (s\<lparr>world := w1\<rparr>) = (Panic m, s\<lparr>world := w1, world := w2\<rparr>)" "stdout_fails A"
    with assms(3,4) st r r1 show ?thesis
      by (cases r; cases r1) (auto simp: listening_def echo_main_poll_def)
  qed
  moreover from this wf show "rt_wf E (app_sockets y, snd (snd y))"
    by (cases y) (auto simp: app_sockets_def server_sockets_def)
  ultimately show "fst y = Finished \<and> fst (snd y) = ss \<and> ((\<exists>e. q = Ret (Ready (Inl e))) \<or> (\<exists>m. q = Panic m) \<and> stdout_fails A)"
    by blast
qed

lemma main_poll_ok:
  assumes "ext_ok E" and "rt_wf E (app_sockets (st, ss, s), s)" and "st \<noteq> Finished" and "fresh_addr s (new_arc al)"
    and "echo_main_poll E al N A fuel cx (st, ss, s) = (q, y)"
  shows "main_outcome E al N A cx fuel (st, ss, s) q y \<and> ((\<forall>m. q \<noteq> Panic m) \<longrightarrow> rt_wf E (app_sockets y, snd (snd y)))"
proof (cases "listening N A st s")
  case None
  from main_poll_not_listening [OF assms(2,3) None assms(5)] None show ?thesis by (simp add: main_outcome_def)
next
  case (Some x)
  obtain inc s1 where x: "x = (inc, s1)" by fastforce
  note start = listening_in_prog [OF assms(2,4) Some [unfolded x]]
  have "accept_loop E al N A cx fuel inc ss s1 = (q, y)"
    using assms(5) main_poll_listening [OF Some [unfolded x]] by metis
  from accept_loop_ok [OF assms(1) start this] Some x show ?thesis by (simp add: main_outcome_def)
qed

section \<open>The whole server\<close>

lemma app_session_ok:
  assumes "ext_ok E" and "sessions_ok E A sess" and "app_inv E (st, l @ x # r, s)" and "x \<noteq> Over"
    and "fresh_addr s (new_arc al)" and "sess al fuel cx (x, s) = (q, (x', s'))"
  shows "app_inv E (st, l @ x' # r, s') \<and> (q = OutOfFuel \<longrightarrow> (\<exists>a f stream. x' = Talking a (Suspended f stream))) \<and>
    (\<forall>m. q = Panic m \<longrightarrow> m = ''called `Result::unwrap()` on an `Err` value'' \<or> stdout_fails A)"
proof -
  obtain body where b: "routine_ok E al body" "session_poll E A body (x, s) = (q, (x', s'))"
    using assms(2,6) unfolding sessions_ok_def by metis
  let ?l = "server_sockets st @ concat (map session_sockets l)" and ?r = "concat (map session_sockets r)"
  have "rt_wf E (?l @ session_sockets x @ ?r, s)" and x: "\<And>a. x \<noteq> Talking a Returned"
    using assms(3) by (auto simp: app_inv_def app_sockets_def)
  from session_poll_wf [OF assms(1) b(1) this(1) assms(4) x assms(5) b(2)] assms(3) show ?thesis
    by (auto simp: app_inv_def app_sockets_def session_outcome_def)
qed

lemma main_outcome_tasks:
  assumes "main_outcome E al N A cx fuel (st, ss, s) q (st', ss', s')"
  obtains cs where "ss' = ss @ map (\<lambda>(stream, addr). Handed stream addr) cs"
proof (cases "listening N A st s")
  case None
  with assms that [of "[]"] show thesis by (simp add: main_outcome_def)
next
  case (Some x)
  with assms that show thesis by (auto simp: main_outcome_def accept_outcome_def)
qed

lemma app_main_ok:
  assumes "ext_ok E" and "app_inv E (st, ss, s)" and "st \<noteq> Finished" and "fresh_addr s (new_arc al)"
    and "echo_main_poll E al N A fuel cx (st, ss, s) = (q, y)"
  shows "main_outcome E al N A cx fuel (st, ss, s) q y" and "(\<And>m. q \<noteq> Panic m) \<Longrightarrow> app_inv E y"
proof -
  have wf: "rt_wf E (app_sockets (st, ss, s), s)" using assms(2) by (simp add: app_inv_def)
  note run = main_poll_ok [OF assms(1) wf assms(3-5)]
  then show 1: "main_outcome E al N A cx fuel (st, ss, s) q y" by blast
  obtain st' ss' s' where y: "y = (st', ss', s')" by (metis prod.exhaust)
  obtain cs where new: "ss' = ss @ map (\<lambda>(stream, addr). Handed stream addr) cs"
    by (rule main_outcome_tasks [OF 1 [unfolded y]])
  assume "\<And>m. q \<noteq> Panic m"
  then have "rt_wf E (app_sockets y, snd (snd y))" using run by blast
  with new y assms(2) show "app_inv E y" by (auto simp: app_inv_def)
qed

lemma app_step_inv:
  assumes "ext_ok E" and "sessions_ok E A sess" and "app_step E N A sess x y" and "app_inv E x"
  shows "app_inv E y"
  using assms(3)
proof cases
  case (app_main st s al fuel cx ss q)
  with app_main_ok(2) [OF assms(1) assms(4) [unfolded app_main]] show ?thesis by blast
next
  case (app_session z s al fuel cx q z' s' st l r)
  with app_session_ok [OF assms(1,2) assms(4) [unfolded app_session]] show ?thesis by blast
next
  case (app_turn s rct max_wait q rct' s' st ss)
  then have "rt_wf E (app_sockets (st, ss, s), s)" using assms(4) by (simp add: app_inv_def)
  from turn_wf(1) [OF assms(1) this app_turn(3,4)] assms(4) app_turn(1,2) show ?thesis
    by (simp add: app_inv_def app_sockets_def)
qed

interpretation server_run: inductive_invariant app_init "app_step E N A sess"
  "\<lambda>x. ext_ok E \<and> sessions_ok E A sess \<longrightarrow> app_inv E x" for E N A sess
proof (unfold_locales, goal_cases)
  case (1 x)
  then show ?case
    by (auto simp: app_init_def app_inv_def app_sockets_def server_sockets_def rt_wf_def fallback_refs_def)
next
  case (2 x y)
  then show ?case using app_step_inv [of E A sess N x y] by blast
qed

text \<open>A poll that ran out of fuel goes on where it stopped: fuel cuts a poll into pieces and changes nothing else.\<close>

lemma poll_future_goes_on:
  "poll_future E al N step cx (n + m) f =
     bnd (poll_future E al N step cx n f) (\<lambda>(v, f1). case v of None \<Rightarrow> poll_future E al N step cx m f1 | Some _ \<Rightarrow> ret (v, f1))"
proof (induction n arbitrary: f)
  case 0
  show ?case by (rule ext) (simp add: bnd_def ret_def)
next
  case (Suc n)
  show ?case
    by (rule ext, cases "step f") (auto simp: Suc.IH bnd_def ret_def split: outcome.splits prod.splits)
qed

section \<open>Properties\<close>

text \<open>C7: the example servers run soundly on the library, whatever the futures of \<^verbatim>\<open>futures\<close> they await ask of their streams,
  and however often. Poll the block of \<^verbatim>\<open>main\<close>, the same function in both, and the tasks it has spawned, echoing or
  reciting, in any order, while reactors turn: all sockets of the process stay in a well-formed program. If there is a
  listener, the tasks a poll of \<^verbatim>\<open>main\<close> adds are exactly those of the connections that the listener yields, one each and in
  their order, with streams that are not registered yet; the poll returns \<^verbatim>\<open>Pending\<close> only where the listener does, with
  the task of \<^verbatim>\<open>main\<close> parked on it or woken; it never ends with \<^verbatim>\<open>Ok\<close>, only with an error; out of fuel it has added as
  many tasks as it had fuel; it panics only if a task cannot be spawned. If there is none, because the pool, the listener
  or the first line failed, no task is added and \<^verbatim>\<open>main\<close> is over. A poll of a task panics only on an error of its connection
  or if nothing can be printed; out of fuel, its future is still at work on the stream.\<close>

theorem example_servers_sound:
  assumes "ext_ok E" and "choose_ok A" and "sess = echo_session_poll E N A \<or> sess = shakespeare_session_poll E N A"
    and "reach app_init (app_step E N A sess) (st, ss, s)" and "fresh_addr s (new_arc al)"
  shows "rt_wf E (app_sockets (st, ss, s), s) \<and>
    (\<forall>fuel cx q y. st \<noteq> Finished \<and> echo_main_poll E al N A fuel cx (st, ss, s) = (q, y) \<longrightarrow>
      main_outcome E al N A cx fuel (st, ss, s) q y) \<and>
    (\<forall>x fuel cx q x' s'. x \<in> set ss \<and> x \<noteq> Over \<and> sess al fuel cx (x, s) = (q, (x', s')) \<longrightarrow>
      (case q of
         Ret _ \<Rightarrow> True
       | OutOfFuel \<Rightarrow> \<exists>a f stream. x' = Talking a (Suspended f stream)
       | Panic m \<Rightarrow> m = ''called `Result::unwrap()` on an `Err` value'' \<or> stdout_fails A))"
proof (intro conjI allI impI)
  have ok: "sessions_ok E A sess"
    using assms(3) echo_on_ok [OF assms(1)] recite_ok [OF assms(1,2)] unfolding sessions_ok_def
    by (metis echo_session_poll_def shakespeare_session_poll_def)
  then have inv: "app_inv E (st, ss, s)" using server_run.reach_inv [OF assms(4)] assms(1) by blast
  then show "rt_wf E (app_sockets (st, ss, s), s)" by (simp add: app_inv_def)
  show "main_outcome E al N A cx fuel (st, ss, s) q y"
    if "st \<noteq> Finished \<and> echo_main_poll E al N A fuel cx (st, ss, s) = (q, y)" for fuel cx q y
    using app_main_ok(1) [OF assms(1) inv _ assms(5)] that by blast
  show "case q of Ret _ \<Rightarrow> True | OutOfFuel \<Rightarrow> \<exists>a f stream. x' = Talking a (Suspended f stream)
      | Panic m \<Rightarrow> m = ''called `Result::unwrap()` on an `Err` value'' \<or> stdout_fails A"
    if x: "x \<in> set ss \<and> x \<noteq> Over \<and> sess al fuel cx (x, s) = (q, (x', s'))" for x fuel cx q x' s'
  proof -
    obtain l r where lr: "ss = l @ x # r" using x split_list by metis
    have "x \<noteq> Over" "sess al fuel cx (x, s) = (q, (x', s'))" using x by simp_all
    from app_session_ok [OF assms(1) ok inv [unfolded lr] this(1) assms(5) this(2)] show ?thesis by (cases q) simp_all
  qed
qed

lemma std_choose_ok: "choose_ok std_app"
  by (auto simp: choose_ok_def std_app_def)

theorem example_servers_sound_witness:
  "\<exists>q y. echo_main_poll (std_ext []) alloc0 (std_tcp None) std_app 3 5 (Starting, [], sys0) = (q, y) \<and>
     main_outcome (std_ext []) alloc0 (std_tcp None) std_app 5 3 (Starting, [], sys0) q y"
proof -
  let ?E = "std_ext []" and ?sess = "echo_session_poll (std_ext []) (std_tcp None) std_app"
  obtain q y where run: "echo_main_poll ?E alloc0 (std_tcp None) std_app 3 5 (Starting, [], sys0) = (q, y)" by (rule prod.exhaust)
  have R: "reach app_init (app_step ?E (std_tcp None) std_app ?sess) (Starting, [], sys0)"
    by (rule reach_init) (simp add: app_init_def sys0_def)
  have "fresh_addr sys0 (new_arc alloc0)" by (simp add: fresh_addr_def sys0_def alloc0_def)
  from example_servers_sound [OF std_ext_ok std_choose_ok disjI1 [OF refl] R this] run show ?thesis by blast
qed

section \<open>The client\<close>

text \<open>A poll of the client does not panic; it is over exactly when it is ready.\<close>

definition client_outcome ::
  "('aw, 'sl, 'w) ext \<Rightarrow> unit io_result poll outcome \<Rightarrow> 'f client \<Rightarrow> ('sl, 'w) sys \<Rightarrow> bool" where
  "client_outcome E q c s \<longleftrightarrow> rt_wf E (client_sockets c, s) \<and> (\<forall>m. q \<noteq> Panic m) \<and>
    ((\<exists>v. q = Ret (Ready v)) \<longleftrightarrow> c = Copying Returned)"

lemma client_copy_ok:
  assumes "ext_ok E" and "in_ctx E al [] [] G (stream, s)" and "client_copy E al N A fuel cx f stream s = (q, (c, s'))"
  shows "client_outcome E q c s'"
proof -
  obtain q1 rt s1 where a: "await_last E (poll_future E al N (copy_stdout_next A) cx fuel) f stream s = (q1, (rt, s1))"
    by (metis prod.exhaust)
  from await_last_wf [OF assms(1,2) a] a assms(3) show ?thesis
    by (auto simp: client_copy_def client_sockets_def client_outcome_def going_def split: outcome.splits poll.splits)
qed

lemma client_connect_ok:
  assumes "ext_ok E" and "rt_wf E ([stream], s)" and "fresh_addr s (new_arc al)"
    and "client_connect E al N A fuel cx (Waiting stream, s) = (q, (c, s'))"
  shows "client_outcome E q c s'"
proof -
  obtain q1 st s1 where p: "TcpConnectFuture_poll E al N cx (Waiting stream, s) = (q1, (st, s1))" by (metis prod.exhaust)
  have "rt_wf E ([] @ stream # [], s)" using assms(2) by simp
  note ctx = in_ctx_others [OF this assms(3)]
  from assms(1) ctx p show ?thesis
  proof (cases rule: tcp_connect_cases)
    case (connected stream1)
    then have "client_copy E al N A fuel cx (copy_stdout A) stream1 s1 = (q, (c, s'))"
      using p assms(4) by (simp add: client_connect_def)
    with connected(3) show ?thesis by (intro client_copy_ok [OF assms(1)])
  qed (use p assms(4) in \<open>auto simp: client_connect_def client_sockets_def routine_sockets_def in_ctx_def client_outcome_def\<close>)
qed

text \<open>
  The client gets through every poll until it is done, whatever the operating system answers, and keeps its socket in
  a well-formed program; an error of the connection attempt ends it before anything is copied.
\<close>

lemma client_main_ok:
  assumes "ext_ok E" and "rt_wf E (client_sockets c, s)" and "fresh_addr s (new_arc al)"
    and "c = Unconnected \<or> (\<exists>stream. c = Connecting (Waiting stream)) \<or> (\<exists>f stream. c = Copying (Suspended f stream))"
    and "client_main_poll E al N A fuel cx (c, s) = (q, (c', s'))"
  shows "client_outcome E q c' s'"
  using assms(4)
proof (elim disjE exE)
  assume c: "c = Unconnected"
  obtain r w where r: "ts_connect N server_addr (world s) = (r, w)" by fastforce
  show ?thesis
  proof (cases r)
    case (Inl e)
    with c r assms(2,5) show ?thesis
      by (auto simp: client_main_poll_def TcpStream_connect_def client_connect_def TcpConnectFuture_poll_def
          client_sockets_def routine_sockets_def client_outcome_def)
  next
    case (Inr f)
    then have run: "client_connect E al N A fuel cx (Waiting (PollEvented_new f), s\<lparr>world := w\<rparr>) = (q, (c', s'))"
      using c r assms(5) by (simp add: client_main_poll_def TcpStream_connect_def TcpStream_new_def)
    have "rt_wf E ([PollEvented_new f], s\<lparr>world := w\<rparr>)" using c assms(2) by (intro rt_wf_open) (simp add: client_sockets_def)
    from client_connect_ok [OF assms(1) this _ run] assms(3) show ?thesis by simp
  qed
next
  fix stream
  assume "c = Connecting (Waiting stream)"
  with assms(2,3,5) show ?thesis
    by (intro client_connect_ok [OF assms(1)]) (simp_all add: client_main_poll_def client_sockets_def)
next
  fix f stream
  assume c: "c = Copying (Suspended f stream)"
  then have "rt_wf E ([] @ stream # [], s)" using assms(2) by (simp add: client_sockets_def routine_sockets_def)
  from client_copy_ok [OF assms(1) in_ctx_others [OF this assms(3)]] c assms(5) show ?thesis
    by (simp add: client_main_poll_def)
qed

end
