(* ===== verification/Spec2Isabelle.thy ===== *)
theory Spec2Isabelle
  imports Registration_Protocol Reactor_Trace Dispatch_Lock Socket_Spec Examples
begin

text \<open>
  Romio is an asynchronous networking library: sockets whose operations are polled by tasks, on top of a
  reactor that waits for the operating system and wakes the tasks. This development models the whole of the
  library's own code and of its example programs, file by file, and proves what makes it correct.

  \<^bold>\<open>The program.\<close> A \<^verbatim>\<open>Reactor\<close> (\<^verbatim>\<open>src/reactor/mod.rs\<close>) owns a mio poll instance and a slab of entries, one per
  registered source, with the readiness received so far and one waker cell per direction. Its loop runs on a
  background thread (\<^verbatim>\<open>src/reactor/background.rs\<close>), usually the one a process-wide fallback reactor gets. A
  \<^verbatim>\<open>Registration\<close> (\<^verbatim>\<open>src/reactor/registration.rs\<close>) ties one source to one entry: a lock-free cell whose state word is
  also the head of a stack of tasks that polled too early. \<^verbatim>\<open>PollEvented\<close> (\<^verbatim>\<open>src/raw/poll_evented.rs\<close>) couples a resource
  with its registration and a cache of readiness, and the sockets (\<^verbatim>\<open>src/tcp/\<close>, \<^verbatim>\<open>src/udp.rs\<close>, \<^verbatim>\<open>src/uds/\<close>) forward to
  it. The slab is guarded by a sharded reader-writer lock (\<^verbatim>\<open>src/reactor/sharded_rwlock.rs\<close>). Three programs
  (\<^verbatim>\<open>examples/\<close>) use the library: two servers that spawn a task for every connection, and a client.

  \<^bold>\<open>State and effects.\<close> An operation is a function from a state to an outcome and a new state (\<open>op\<close>): it returns,
  panics, or runs out of the model's fuel. The shared state is the record \<open>sys\<close>: the reactors behind the \<^verbatim>\<open>Arc\<close>s by
  address, the weak reference counts, the global and the thread-local handle, the tasks woken so far in order
  (\<open>woken\<close>), the wakers that are alive, by address (\<open>wakers\<close>), and the state \<open>world\<close> of everything outside the process. Crates that are not part of the repository
  (mio, slab, parking\_lot, the atomic waker, mio-uds, libc) are records of functions on that world, arguments of the
  definitions that use them; \<open>ext_ok\<close> and \<open>pl_ok\<close> collect what is documented of them, and \<open>std_ext\<close>, \<open>std_plock\<close>,
  \<open>std_tcp\<close> and \<open>std_uds\<close> are instances that satisfy it. Nothing at all is assumed about the socket calls. Machine
  words are 64-bit words, so tokens, guards and the lifecycle word are kept at their width. A task is the number of
  its waker. Wakers are otherwise passed by value, but the nodes of a registration hold the address of one, as the code's
  \<^verbatim>\<open>*const Waker\<close>; following an address at which no waker lives any more is a panic of the model.

  \<^bold>\<open>Interleavings.\<close> Where threads share memory, the code is split at its atomic accesses into an inductive step
  relation, and the claims are about every reachable state: \<open>hs_step\<close> (shutdown), \<open>fb_step\<close> (creation of the
  fallback reactor), \<open>cell_step\<close> (association of a registration against pollers), \<open>race_step\<close> (polling against
  dispatching), \<open>lock_step\<close> (the sharded lock), \<open>dl_step\<close> (the slab behind it), \<open>thr_step\<close> (thread indices),
  \<open>tr_step\<close> (histories of a reactor), \<open>rt_step\<close> (a whole program, one call at a time), \<open>app_step\<close> (an example server,
  one poll, or part of a poll, of one of its tasks at a time), \<open>sp_step\<close> (the abstract sockets that \<open>rt_step\<close> refines,
  with a label that says which socket a step is about).
  Invariants go through the locale \<open>inductive_invariant\<close>, refinement through \<open>simulation\<close> and \<open>labelled_simulation\<close>; all
  three are interpreted on these relations. Two steps hold more than one access: in \<open>cell_step\<close> the swap that takes the
  nodes off the stack also serves them, since no other thread can reach them any more; in \<open>fb_step\<close> the compare-and-swap
  goes with what follows it, spawning the thread or dropping the surplus reactor and reading the global again, which is
  written once only.

  \<^bold>\<open>The theories.\<close>
    \<^item> \<open>Prelude\<close>: words, results, \<^verbatim>\<open>Poll\<close>, outcomes, sequencing, transition systems and their three locales.
    \<^item> \<open>Dependencies\<close>: the external crates the reactor uses, their laws and a concrete instance.
    \<^item> \<open>Reactor_Core\<close>: \<^verbatim>\<open>Reactor\<close>, its \<^verbatim>\<open>Inner\<close> and the dispatch of events. C1--C3, C5, C6, C8: tokens and keys,
      delivery, the limit on sources, dropping, registering a task against an event that came before, what a turn does.
      C3 and C6 include two defects: a slot used up by a source that mio refuses, and a hang-up missed by a late task.
    \<^item> \<open>Background_Thread\<close>: handles, the reactor thread, shutdown. C9--C12: shutdown completes, no wakeup is lost in
      its handshake, it hangs if the loop panicked, the loop ends when told to.
    \<^item> \<open>Handle_Global\<close>: the process-wide fallback reactor. C13, C14: racing creators agree, creation
      happens once, and what its failures leave behind.
    \<^item> \<open>Registration_Cell\<close>: \<^verbatim>\<open>Registration\<close>, one call at a time. C16--C21: what a poll reports and consumes, \<^verbatim>\<open>hup\<close> is
      final, registering while tasks queue up and their wakers come and go, failing to, dropping, and that the poll loop ends.
    \<^item> \<open>Registration_Protocol\<close>: the same cell under concurrency. C22--C24: no lost wakeup against the dispatcher, one
      association, and the reachable \<^verbatim>\<open>unreachable!()\<close>; \<open>poll_leaves_dangling_waker\<close> reaches the use of a waker that is gone.
    \<^item> \<open>Reactor_Trace\<close>: histories of adding, dropping and dispatching, in which \<^verbatim>\<open>add_source\<close> of several threads interleaves.
      C25, C26: stale events are ignored, live ones delivered.
    \<^item> \<open>Sharded_RwLock\<close>: C27, C29, C30 and C39: shard indices, progress, thread indices, and refinement of an atomic lock.
    \<^item> \<open>Dispatch_Lock\<close>: the dispatch slab behind that lock, interleaved at every access to a shard and to an entry's atomics.
      C28: an entry found under a read guard stays good while the guard is held.
    \<^item> \<open>Poll_Evented\<close>: C31, C33, C34: readiness is level-triggered and clearing re-arms, reading and writing never lose the
      task, a first poll registers and sees what arrives before it looks. The locales \<open>readiness_stream\<close> and \<open>nonblocking\<close> state what the cache needs of a
      stream of readiness and what an attempt needs of the cache; each is interpreted for reading and for writing.
    \<^item> \<open>Sockets\<close>, \<open>Tcp\<close>, \<open>Udp\<close>, \<open>Uds\<close>: the sockets, every public operation. C35--C37: accepting and the two connect futures.
    \<^item> \<open>Runtime\<close>: a program of any number of sockets and reactors in one process. C32: its states are well-formed, no call
      panics, and none touches the entry of another socket. The rules \<open>total_intros\<close> of the prelude compose the totality of
      an operation from that of its parts.
    \<^item> \<open>Wakeups\<close>: tasks parked in such a program. C15: whatever the rest of the program does, for however long, a parked
      task stays parked or is woken.
    \<^item> \<open>Socket_Spec\<close>: C4: such a program refines independent sockets, each of them new, dead, or live with some
      readiness and waiting tasks. The steps of both carry the same label: a call on the socket in one place of the program
      changes that one as the specification allows, a turn brings events to the sockets of one reactor, and so on.
    \<^item> \<open>Examples\<close>: \<^verbatim>\<open>examples/echo.rs\<close>, \<^verbatim>\<open>examples/shakespeare.rs\<close> and \<^verbatim>\<open>examples/shakespeare-client.rs\<close>. C7: a server
      hands exactly the connections its listener yields to tasks of their own, keeps the program well-formed, is never left
      waiting without a wakeup to come, and panics only where its own \<^verbatim>\<open>unwrap\<close> or \<^verbatim>\<open>println!\<close> does; \<open>client_main_ok\<close> is about
      the client. The executor, the copying and writing futures of the \<^verbatim>\<open>futures\<close> crate, the random choice and the standard
      output are parameters; such a future is any state machine that asks for reads, writes and flushes of its stream.
    \<^item> this theory: C38 on datagrams and the Unix listener, C40 from an event of the kernel to the task's next poll.

  \<^bold>\<open>Fuel and bounds.\<close> Five loops carry fuel. The loop of a registration's \<^verbatim>\<open>poll_ready\<close> gets 2: C21 shows that two passes
  always suffice. The loop that drains a stream into the cache gets 2: \<open>drain_spec\<close> shows that this is enough when
  no event arrives between its passes; every further pass of the code needs a further event. The loop of the
  reactor thread does not end by itself; C12 shows that any fuel above the number of turns before the shutdown request
  is enough. The loop in which a server accepts has one unit per connection accepted in a poll; \<open>accept_outcome\<close> says that
  it runs out only when that many connections were waiting, each of which has its task by then. A poll of a copying or
  writing future has one unit per request to its stream; nothing bounds their number, and out of fuel the poll goes on with
  the next step (\<open>poll_future_goes_on\<close>). The list of wakers that \<^verbatim>\<open>register2\<close> consumes and the locking of shards end by a measure. Guards have 42 bits:
  C25 is stated up to $2^{42}$ registrations, where they wrap around.

  \<^bold>\<open>Not modelled.\<close> Derived \<^verbatim>\<open>Debug\<close> implementations (those the source writes out are modelled, as the text they print),
  log output, the compile-time assertions \<^verbatim>\<open>_assert_kinds\<close> and \<^verbatim>\<open>test_handle_size\<close>, the module files \<^verbatim>\<open>lib.rs\<close>,
  \<^verbatim>\<open>raw/mod.rs\<close>, \<^verbatim>\<open>tcp/mod.rs\<close> and \<^verbatim>\<open>uds/mod.rs\<close>, which hold documentation and re-exports only,
  and the tests. What is left of the source files beyond that is documentation. Memory orderings weaker than sequential
  consistency are not distinguished. \<^verbatim>\<open>Pin\<close> and borrowing have no counterpart: a future that borrows a socket holds its
  value. A socket type has the one field \<^verbatim>\<open>io\<close> and is identified with it.
\<close>

section \<open>Definitions\<close>

text \<open>The readiness poll of a direction and the bit it asks for.\<close>

definition poll_dir ::
  "('aw, 'sl, 'w) ext \<Rightarrow> alloc \<Rightarrow> task \<Rightarrow> Direction \<Rightarrow> (('sl, 'w) pst, usize io_result poll) op" where
  "poll_dir E al t d = (case d of Read \<Rightarrow> poll_read_ready E al t | Write \<Rightarrow> poll_write_ready E al t)"

definition dir_bit :: "('aw, 'sl, 'w) ext \<Rightarrow> Direction \<Rightarrow> usize" where
  "dir_bit E d = (case d of Read \<Rightarrow> readable E | Write \<Rightarrow> writable E)"

text \<open>
  What every operation on a registered resource owes the task \<open>t\<close> that polls it: it returns, the resource stays
  good, \<^verbatim>\<open>Pending\<close> means that the task is parked or was just woken, and \<^verbatim>\<open>WouldBlock\<close> is never reported. \<open>x\<close> is the
  state before, \<open>socket\<close> finds the resource in the state of the operation.
\<close>

definition serves ::
  "('aw, 'sl, 'w) ext \<Rightarrow> Direction \<Rightarrow> task \<Rightarrow> ('f \<Rightarrow> PollEvented) \<Rightarrow>
     ('f \<times> ('sl, 'w) sys, 'a io_result poll) op \<Rightarrow> 'f \<times> ('sl, 'w) sys \<Rightarrow> bool" where
  "serves E d t socket m x \<longleftrightarrow> (\<exists>r f s. m x = (Ret r, (f, s)) \<and> pe_good E (socket f, s) \<and>
     (r = Pending \<longrightarrow> pe_parked E d t (socket f, s) \<or> woken s = woken (snd x) @ [t]) \<and>
     (\<forall>e. r = Ready (Inl e) \<longrightarrow> kind e \<noteq> WouldBlock))"

section \<open>Datagrams and Unix sockets\<close>

lemma read_serves:
  assumes "pe_good E x" and "\<And>x. pe_good E x \<Longrightarrow> \<exists>r x'. call x = (Ret r, x') \<and> pe_good E x' \<and> woken (snd x') = woken (snd x)"
  shows "serves E Read t id (attempt (poll_read_ready E al t) (clear_read_ready E al t) call) x"
  using read_io.attempt_ok [where call = call, OF assms, of al t] unfolding serves_def by fastforce

lemma write_serves:
  assumes "pe_good E x" and "\<And>x. pe_good E x \<Longrightarrow> \<exists>r x'. call x = (Ret r, x') \<and> pe_good E x' \<and> woken (snd x') = woken (snd x)"
  shows "serves E Write t id (attempt (poll_write_ready E al t) (clear_write_ready E al t) call) x"
  using write_io.attempt_ok [where call = call, OF assms, of al t] unfolding serves_def by fastforce

text \<open>A future that borrows the resource serves the task if the operation it forwards to does.\<close>

lemma borrowed_serves:
  assumes "serves E d t id m (socket f, s)"
    and "\<And>r pe s'. m (socket f, s) = (Ret r, (pe, s')) \<Longrightarrow>
      \<exists>r' f'. fut (f, s) = (Ret r', (f', s')) \<and> socket f' = pe \<and> (r' = Pending \<longleftrightarrow> r = Pending) \<and>
        (\<forall>e. r' = Ready (Inl e) \<longrightarrow> r = Ready (Inl e))"
  shows "serves E d t socket fut (f, s)"
  using assms(1) unfolding serves_def by (fastforce dest!: assms(2))

text \<open>C38: the datagram sockets of both families and the Unix listener never lose the task that polls them, whatever
  the kernel answers: sending and receiving through the futures of \<^verbatim>\<open>send_to\<close> and \<^verbatim>\<open>recv_from\<close>, and accepting, also
  when an empty queue is reported as \<^verbatim>\<open>Ok(None)\<close>.\<close>

theorem datagrams_never_lost:
  assumes "pe_good E (socket, s)"
  shows "serves E Write t udp_send_socket (UdpSendTo_poll E al U t) (UdpSocket_send_to socket buf target, s) \<and>
    serves E Read t udp_recv_socket (UdpRecvFrom_poll E al U t) (UdpSocket_recv_from socket buf, s) \<and>
    serves E Write t unix_send_socket (UnixSendTo_poll E al X t) (UnixDatagram_send_to socket buf path, s) \<and>
    serves E Read t unix_recv_socket (UnixRecvFrom_poll E al X t) (UnixDatagram_recv_from socket buf, s) \<and>
    serves E Read t id (UnixListener_poll_accept_std E al X t) (socket, s)"
proof (intro conjI)
  note r = read_serves [OF assms sys_ref_ok] and w = write_serves [OF assms sys_ref_ok]
  show "serves E Write t udp_send_socket (UdpSendTo_poll E al U t) (UdpSocket_send_to socket buf target, s)"
    by (rule borrowed_serves [where m = "UdpSocket_poll_send_to E al U t buf target"])
      (use w in \<open>auto simp: UdpSendTo_poll_def UdpSocket_send_to_def UdpSocket_poll_send_to_def attempt_match_eq\<close>)
  show "serves E Read t udp_recv_socket (UdpRecvFrom_poll E al U t) (UdpSocket_recv_from socket buf, s)"
    by (rule borrowed_serves [where m = "UdpSocket_poll_recv_from E al U t buf"])
      (use r in \<open>auto simp: UdpRecvFrom_poll_def UdpSocket_recv_from_def UdpSocket_poll_recv_from_def attempt_match_eq
         filled_def split: poll.splits sum.splits\<close>)
  show "serves E Write t unix_send_socket (UnixSendTo_poll E al X t) (UnixDatagram_send_to socket buf path, s)"
    by (rule borrowed_serves [where m = "UnixDatagram_poll_send_to E al X t buf path"])
      (use w in \<open>auto simp: UnixSendTo_poll_def UnixDatagram_send_to_def UnixDatagram_poll_send_to_def attempt_match_eq\<close>)
  show "serves E Read t unix_recv_socket (UnixRecvFrom_poll E al X t) (UnixDatagram_recv_from socket buf, s)"
    by (rule borrowed_serves [where m = "UnixDatagram_poll_recv_from E al X t buf"])
      (use r in \<open>auto simp: UnixRecvFrom_poll_def UnixDatagram_recv_from_def UnixDatagram_poll_recv_from_def
         filled_def split: poll.splits sum.splits\<close>)
  show "serves E Read t id (UnixListener_poll_accept_std E al X t) (socket, s)"
    unfolding unix_accept_eq by (rule read_serves [OF assms unix_accept_call_ok])
qed

theorem datagrams_never_lost_witness:
  "serves (std_ext []) Read 5 id
     (UnixListener_poll_accept_std (std_ext []) alloc0 (std_uds (IoError Other ''refused'')) 5) pe_hup"
proof -
  have pe: "pe_hup = (fst pe_hup, sys_hup)" by (simp add: pe_hup_def)
  then have "pe_good (std_ext []) (fst pe_hup, sys_hup)" using pe_hup_good by simp
  from datagrams_never_lost [OF this, of 5] pe show ?thesis by metis
qed

section \<open>From the kernel to the task\<close>

lemma and_mono_nonzero:
  assumes "b AND m = b" and "a AND b \<noteq> (0 :: usize)"
  shows "a AND m \<noteq> 0"
proof
  assume "a AND m = 0"
  then have "(a AND m) AND b = 0" by simp
  moreover have "(a AND m) AND b = a AND (b AND m)" by (simp only: ac_simps)
  ultimately show False using assms by simp
qed

lemma dir_bit_mask:
  assumes "ext_ok E"
  shows "dir_bit E d AND wake_mask E d = dir_bit E d" and "dir_bit E d AND Direction_mask E d = dir_bit E d"
  using ready_okD(4,7) [OF ext_ok_ready [OF assms]]
  by (cases d; auto simp: dir_bit_def wake_mask_def Direction_mask_def bit_eq_iff bit_simps)+

lemma poll_dir_spec:
  assumes "pe_good E x" and "pe_failed x = None"
  shows "\<exists>x'. pe_good E x' \<and> pe_failed x' = None \<and> pe_keep x' = pe_keep x \<and>
    (if load_dir d x AND dir_bit E d \<noteq> 0
     then poll_dir E al t d x = (Ret (Ready (Inr (load_dir d x OR pe_vis E d x))), x')
     else if pe_vis E d x AND (dir_bit E d OR platform_hup E) \<noteq> 0
     then poll_dir E al t d x = (Ret (Ready (Inr (pe_vis E d x AND (dir_bit E d OR platform_hup E)))), x')
     else poll_dir E al t d x = (Ret Pending, x') \<and> pe_parked E d t x')"
proof (cases d)
  case Read
  with read_spec [OF assms, of al t] show ?thesis by (simp add: poll_dir_def dir_bit_def load_dir_def) metis
next
  case Write
  with write_spec [OF assms, of al t] show ?thesis by (simp add: poll_dir_def dir_bit_def load_dir_def) metis
qed

lemma poll_dir_reports:
  assumes "pe_good E x" and "pe_failed x = None" and "pe_vis E d x AND dir_bit E d \<noteq> 0"
  shows "\<exists>v x'. poll_dir E al t d x = (Ret (Ready (Inr v)), x') \<and> v AND dir_bit E d \<noteq> 0"
proof -
  have "pe_vis E d x AND (dir_bit E d OR platform_hup E) \<noteq> 0"
    "pe_vis E d x AND (dir_bit E d OR platform_hup E) AND dir_bit E d \<noteq> 0"
    "(load_dir d x OR pe_vis E d x) AND dir_bit E d \<noteq> 0"
    using assms(3) by (auto simp: bit_eq_iff bit_simps)
  with poll_dir_spec [OF assms(1,2), of d al t] show ?thesis by (auto split: if_splits simp: and.assoc)
qed

text \<open>C40: from the kernel to the task, through all the layers. A resource is polled, has nothing to report, and the
  poll returns \<^verbatim>\<open>Pending\<close>; then one turn of its reactor gets, among whatever else, events for the token of the resource
  with the readiness asked for. The turn wakes the task, and the task's next poll returns \<^verbatim>\<open>Ready\<close> with that readiness.\<close>

theorem pending_poll_is_woken:
  assumes "pe_good E x" and "pe_failed x = None" and "poll_dir E al t d x = (Ret Pending, (pe, s))"
    and "\<And>p r w. fst (mio_set_readiness E p r w) = Inr ()"
    and "reg_inner (registration pe) = Some i" and "r_inner rct = hp_inner (handle i)"
    and "inners s (r_inner rct) = Some inn" and "sl_get E (io_dispatch inn) (token i) = Some io"
    and "mio_poll E (inner_io inn) max_wait (world s) = (Inr evs, w)"
    and "event_bits (aba_guard io OR token i) evs AND dir_bit E d \<noteq> 0"
  shows "\<exists>s' ts v y. Reactor_turn E max_wait (rct, s) = (Ret (Inr ()), (rct\<lparr>r_events := evs\<rparr>, s')) \<and>
    woken s' = woken s @ ts \<and> t \<in> set ts \<and>
    poll_dir E al t d (pe, s') = (Ret (Ready (Inr v)), y) \<and> v AND dir_bit E d \<noteq> 0"
proof -
  have E: "ext_ok E" using assms(1) by (simp add: pe_good_def)
  have x: "pe_good E (pe, s)" "pe_failed (pe, s) = None" "pe_parked E d t (pe, s)"
    using poll_dir_spec [OF assms(1,2), of d al t] assms(3) by (auto split: if_splits)
  then obtain i' inn' io' where A: "associated E (registration pe) s i' inn' io'" by (auto simp: pe_good_def)
  with assms(5-8) have same: "i' = i" "inn' = inn" "io' = io" by (auto simp: associated_def)
  note A = A [unfolded same]
  have ok: "inner_ok E inn" using A by (simp add: associated_def)
  have held: "waiter E d io = Some t"
    using x(3) associated_entry(1) [of E "(pe, s)" i inn io] A by (simp add: pe_parked_def waiter_def cell_of_def)
  have hit: "event_bits (aba_guard io OR token i) evs AND wake_mask E d \<noteq> 0"
    by (rule and_mono_nonzero [OF dir_bit_mask(1) [OF E] assms(10)])
  have "inners (s\<lparr>world := w\<rparr>) (r_inner rct) = Some inn" using assms(7) by simp
  from process_events_accumulates [OF E assms(4) this ok assms(8), of evs] held hit obtain s' inn2 io2 ts where
    P: "process_events E (r_inner rct) evs (s\<lparr>world := w\<rparr>) = (Ret (), s')" "inners s' (r_inner rct) = Some inn2"
    "inner_ok E inn2" "sl_get E (io_dispatch inn2) (token i) = Some io2"
    "readiness io2 = readiness io OR event_bits (aba_guard io OR token i) evs" "woken s' = woken s @ ts" "t \<in> set ts"
    by auto
  have A': "associated E (registration pe) s' i inn2 io2" using A P(2-4) assms(6) by (simp add: associated_def)
  then have "associated E (registration (fst (pe, s'))) (snd (pe, s')) i inn2 io2" by simp
  note e = associated_entry [OF this]
  have good: "pe_good E (pe, s')" using x(1) A' unfolding pe_good_def by auto
  have "pe_vis E d (pe, s') AND dir_bit E d \<noteq> 0"
    using assms(10) dir_bit_mask(2) [OF E, of d] unfolding pe_vis_def e(1) option.case visible_def P(5)
    by (auto simp: bit_eq_iff bit_simps)
  from poll_dir_reports [OF good e(2) this, of al t] turn_runs [OF assms(7,9) P(1)] P(6,7) show ?thesis by blast
qed

text \<open>A registered resource with nothing to report, and what polling it leaves behind.\<close>

lemma pe_idle_poll:
  defines "E \<equiv> std_ext [(4194303, 1), (0, 1)]" and "i \<equiv> \<lparr>handle = \<lparr>hp_inner = 16\<rparr>, token = 0\<rparr>"
  obtains x pe s inn io where "pe_good E x" "pe_failed x = None" "poll_dir E alloc0 5 Read x = (Ret Pending, (pe, s))"
    "reg_inner (registration pe) = Some i" "inners s 16 = Some inn" "sl_get E (io_dispatch inn) (token i) = Some io"
    "aba_guard io = 0" "world s = 0"
proof -
  define io where "io = \<lparr>aba_guard = 0, readiness = 0, reader = Some 3 :: task option, writer = Some 4\<rparr>"
  define pe where "pe = \<lparr>pe_io = Some 7, registration = reg0 i, read_readiness = 0, write_readiness = 0\<rparr>"
  define s where "s = sys0\<lparr>inners := [16 \<mapsto> inner1]\<rparr>"
  define inn where "inn = inner1\<lparr>io_dispatch := sl_set E (io_dispatch inner1) 0 (io\<lparr>reader := Some 5\<rparr>)\<rparr>"
  have ok: "ext_ok E" "inner_ok E inner1" by (simp_all add: E_def std_ext_ok inner1_ok)
  have get: "sl_get E (io_dispatch inner1) 0 = Some io" by (simp add: E_def io_def inner1_def std_ext_def ls_get_def)
  have A: "associated E (reg0 i) s i inner1 io"
    using ok get by (simp add: associated_def reg0_def i_def s_def ERROR_def)
  then have A1: "associated E (registration (fst (pe, s))) (snd (pe, s)) i inner1 io" by (simp add: pe_def)
  have good: "pe_good E (pe, s)" using A ok(1) by (auto simp: pe_good_def pe_def reg0_def)
  have p: "poll_entry E (Some 5) Read io = (None, io\<lparr>reader := Some 5\<rparr>)"
    by (simp add: poll_entry_def fetch_ready_def set_waker_def io_def E_def std_ext_def)
  have "reg_poll_ready E (\<lambda>_. id) (64, 72) (Some 5) Read (reg0 i, s) =
      (Ret (Inr None), (reg0 i, s\<lparr>inners := [16 \<mapsto> inn]\<rparr>))"
    using associated_poll(1) [OF ok(1) A p, of "\<lambda>_. id" "(64, 72)"] by (simp add: i_def s_def inn_def)
  then have run: "on_reg (Registration_poll_read_ready E (64, 72) 5) (pe, s) = (Ret Pending, (pe, s\<lparr>inners := [16 \<mapsto> inn]\<rparr>))"
    by (simp add: on_reg_def Registration_poll_read_ready_def ready_poll_def pe_def)
  have "load_read (pe, s) = 0" by (simp add: load_read_def pe_def)
  with run have dir: "poll_dir E alloc0 5 Read (pe, s) = (Ret Pending, (pe, s\<lparr>inners := [16 \<mapsto> inn]\<rparr>))"
    by (simp add: poll_dir_def poll_read_ready_good [OF good] poll_cached_def alloc0_def numeral_2_eq_2 ready_try_def)
  have entry: "sl_get E (io_dispatch inn) (token i) = Some (io\<lparr>reader := Some 5\<rparr>)"
    using slab_set(1) [OF ok(1) inner_ok_fits [OF ok(2)] get] by (simp add: inn_def i_def)
  show ?thesis
    by (rule that [OF good associated_entry(2) [OF A1] dir _ _ entry]) (simp_all add: pe_def reg0_def io_def s_def sys0_def)
qed

theorem pending_poll_is_woken_witness:
  "\<exists>x pe s rct s' v y. poll_dir (std_ext [(4194303, 1), (0, 1)]) alloc0 5 Read x = (Ret Pending, (pe, s)) \<and>
     Reactor_turn (std_ext [(4194303, 1), (0, 1)]) None (rct, s) =
       (Ret (Inr ()), (rct\<lparr>r_events := [(4194303, 1), (0, 1)]\<rparr>, s')) \<and> 5 \<in> set (woken s') \<and>
     poll_dir (std_ext [(4194303, 1), (0, 1)]) alloc0 5 Read (pe, s') = (Ret (Ready (Inr v)), y)"
proof -
  let ?evs = "[(4194303, 1), (0, 1)] :: event list"
  let ?rct = "\<lparr>r_events = [], r_inner = 16, wakeup_registration = 0\<rparr>"
  obtain x pe s inn io where x: "pe_good (std_ext ?evs) x" "pe_failed x = None"
    "poll_dir (std_ext ?evs) alloc0 5 Read x = (Ret Pending, (pe, s))"
    "reg_inner (registration pe) = Some \<lparr>handle = \<lparr>hp_inner = 16\<rparr>, token = 0\<rparr>" "inners s 16 = Some inn"
    "sl_get (std_ext ?evs) (io_dispatch inn) (token \<lparr>handle = \<lparr>hp_inner = 16\<rparr>, token = 0\<rparr>) = Some io"
    "aba_guard io = 0" "world s = 0" by (rule pe_idle_poll)
  have 1: "fst (mio_set_readiness (std_ext ?evs) p r w) = Inr ()" for p r w by (simp add: std_ext_def)
  have 2: "r_inner ?rct = hp_inner (handle \<lparr>handle = \<lparr>hp_inner = 16\<rparr>, token = 0\<rparr>)" "inners s (r_inner ?rct) = Some inn"
    using x(5) by simp_all
  have 3: "mio_poll (std_ext ?evs) (inner_io inn) None (world s) = (Inr ?evs, 0)" by (simp add: std_ext_def x(8))
  have 4: "event_bits (aba_guard io OR token \<lparr>handle = \<lparr>hp_inner = 16\<rparr>, token = 0\<rparr>) ?evs AND
      dir_bit (std_ext ?evs) Read \<noteq> 0" by (simp add: x(7) dir_bit_def std_ext_def)
  from pending_poll_is_woken [OF x(1-3) 1 x(4) 2 x(6) 3 4] x(3) show ?thesis by (metis Un_iff set_append)
qed

end
